(* ===== verification/Py_Base.thy ===== *)
theory Py_Base
  imports
    Main
    "HOL-Library.List_Lexorder"
    "HOL-Library.Product_Lexorder"
    "HOL-Library.AList"
    "HOL-Library.Multiset"
    "HOL-Library.Code_Target_Nat"
begin

text \<open>
  The Python substrate shared by every component.

  \<^item> A Python \<open>str\<close> is the list of its code points, \<open>pystr\<close>; the order of
    \<open>HOL-Library.List_Lexorder\<close> is Python's order on strings.
  \<^item> An exception is a value of \<open>py_err\<close>; code that may raise returns \<open>py_err + 'a\<close>, and
    \<open>bindE\<close> runs the rest of the function only when nothing was raised.
  \<^item> A \<open>dict\<close> is an association list with distinct keys, in insertion order:
    \<open>d[k] = v\<close> is \<^term>\<open>AList.update\<close> (in place when the key is there, else at the end),
    \<open>d.get(k)\<close> is \<^term>\<open>map_of\<close>, \<open>del d[k]\<close> and \<open>d.pop(k)\<close> are \<^term>\<open>AList.delete\<close>.
  \<^item> \<open>bisect.bisect_left\<close> and \<open>bisect.bisect_right\<close> are the binary searches of the standard
    library, so that they also say what the code does on a list that is not sorted.
\<close>

named_theorems dict_simps \<open>lookups after dictionary updates\<close>
named_theorems inv_intros \<open>operations that keep a component's invariant\<close>

section \<open>Strings and exceptions\<close>

type_synonym pystr = "nat list"

definition str :: "string \<Rightarrow> pystr" where
  "str s = map of_char s"

lemma str_inject: "str s = str t \<longleftrightarrow> s = t"
  by (simp add: str_def inj_map_eq_map inj_def)

lemma str_Nil: "str s = [] \<longleftrightarrow> s = []"
  by (simp add: str_def)

definition chr :: "nat \<Rightarrow> pystr" where
  "chr n = [n]"

datatype py_err =
    IndexError
  | KeyError
  | ValueError
  | TypeErr
  | OSErr
  | ZeroDivision
  | StructError
  | UnicodeError
  | JSONDecodeError
  | RuntimeErr
  | TimeoutErr
  | FileNotFound
  | NotImplementedErr
  | Deadlock
  | AssertionErr
  | AttributeErr
  | SyntaxErr
  | RecursionErr
  | AuthErr
  | OverflowErr

type_synonym 'a result = "py_err + 'a"

definition bindE :: "'a result \<Rightarrow> ('a \<Rightarrow> 'b result) \<Rightarrow> 'b result" where
  "bindE r f = (case r of Inl e \<Rightarrow> Inl e | Inr x \<Rightarrow> f x)"

lemma bindE_simps [simp]: "bindE (Inl e) f = Inl e" "bindE (Inr x) f = f x"
  by (simp_all add: bindE_def)

lemma bindE_eq_Inr [simp]: "bindE r f = Inr y \<longleftrightarrow> (\<exists>x. r = Inr x \<and> f x = Inr y)"
  by (cases r) auto

section \<open>Lists: indexing, insertion, slices\<close>

definition nth_err :: "'a list \<Rightarrow> nat \<Rightarrow> 'a result" where
  "nth_err xs i = (if i < length xs then Inr (xs ! i) else Inl IndexError)"

lemma nth_err_in [simp]: "i < length xs \<Longrightarrow> nth_err xs i = Inr (xs ! i)"
  by (simp add: nth_err_def)

definition list_insert :: "nat \<Rightarrow> 'a \<Rightarrow> 'a list \<Rightarrow> 'a list" where
  "list_insert i x xs = take i xs @ x # drop i xs"

definition list_remove_at :: "nat \<Rightarrow> 'a list \<Rightarrow> 'a list" where
  "list_remove_at i xs = take i xs @ drop (Suc i) xs"

definition py_slice :: "nat \<Rightarrow> nat \<Rightarrow> 'a list \<Rightarrow> 'a list" where
  "py_slice i j xs = take (j - i) (drop i xs)"

lemma length_list_insert [simp]: "length (list_insert i x xs) = Suc (length xs)"
  by (simp add: list_insert_def)

lemma set_list_insert [simp]: "set (list_insert i x xs) = insert x (set xs)"
proof -
  have "set (take i xs) \<union> set (drop i xs) = set xs"
    by (metis append_take_drop_id set_append)
  then show ?thesis by (auto simp: list_insert_def)
qed

lemma length_list_remove_at [simp]:
  "i < length xs \<Longrightarrow> length (list_remove_at i xs) = length xs - 1"
  by (simp add: list_remove_at_def)

lemma map_list_insert: "map f (list_insert i x xs) = list_insert i (f x) (map f xs)"
  by (simp add: list_insert_def take_map drop_map)

lemma map_list_remove_at: "map f (list_remove_at i xs) = list_remove_at i (map f xs)"
  by (simp add: list_remove_at_def take_map drop_map)

section \<open>Dictionaries\<close>

type_synonym ('k, 'v) dict = "('k \<times> 'v) list"

abbreviation dict_get :: "('k, 'v) dict \<Rightarrow> 'k \<Rightarrow> 'v option" where
  "dict_get d k \<equiv> map_of d k"

abbreviation dict_set :: "'k \<Rightarrow> 'v \<Rightarrow> ('k, 'v) dict \<Rightarrow> ('k, 'v) dict" where
  "dict_set k v d \<equiv> AList.update k v d"

abbreviation dict_del :: "'k \<Rightarrow> ('k, 'v) dict \<Rightarrow> ('k, 'v) dict" where
  "dict_del k d \<equiv> AList.delete k d"

abbreviation dict_keys :: "('k, 'v) dict \<Rightarrow> 'k list" where
  "dict_keys d \<equiv> map fst d"

definition dict_wf :: "('k, 'v) dict \<Rightarrow> bool" where
  "dict_wf d \<longleftrightarrow> distinct (dict_keys d)"

definition dict_sorted_items :: "('k::linorder, 'v::linorder) dict \<Rightarrow> ('k \<times> 'v) list" where
  "dict_sorted_items d = sort d"

lemma dict_get_set [dict_simps]:
  "dict_get (dict_set k v d) k' = (if k' = k then Some v else dict_get d k')"
  by (simp add: update_conv')

lemma dict_get_del [dict_simps]:
  "dict_get (dict_del k d) k' = (if k' = k then None else dict_get d k')"
  by (simp add: delete_conv')

lemma dict_wf_empty [simp]: "dict_wf []"
  by (simp add: dict_wf_def)

lemma dict_wf_set [simp, intro]: "dict_wf d \<Longrightarrow> dict_wf (dict_set k v d)"
  by (simp add: dict_wf_def distinct_update)

lemma dict_wf_del [simp, intro]: "dict_wf d \<Longrightarrow> dict_wf (dict_del k d)"
  by (simp add: dict_wf_def distinct_delete)

lemma dict_get_iff: "dict_wf d \<Longrightarrow> dict_get d k = Some v \<longleftrightarrow> (k, v) \<in> set d"
  by (simp add: dict_wf_def)

lemma map_of_same_set:
  assumes "distinct (map fst xs)" "distinct (map fst ys)" "set xs = set ys"
  shows "map_of xs = map_of ys"
  using assms by (metis map_of_inject_set)

lemma distinct_sort_items: "dict_wf d \<Longrightarrow> distinct (map fst (dict_sorted_items d))"
proof -
  assume "dict_wf d"
  then have d: "distinct (map fst d)" by (simp add: dict_wf_def)
  have "mset (map fst (sort d)) = mset (map fst d)"
    by (simp only: mset_map mset_sort)
  then show ?thesis using d
    by (metis dict_sorted_items_def mset_eq_imp_distinct_iff)
qed

lemma set_sorted_items [simp]: "set (dict_sorted_items d) = set d"
  by (simp add: dict_sorted_items_def)

lemma length_sorted_items [simp]: "length (dict_sorted_items d) = length d"
  by (simp add: dict_sorted_items_def)

lemma map_of_sorted_items: "dict_wf d \<Longrightarrow> map_of (dict_sorted_items d) = map_of d"
  by (rule map_of_same_set) (auto simp: distinct_sort_items dict_wf_def)

lemma sorted_keys_sorted_items: "sorted (map fst (dict_sorted_items d))"
proof -
  have "sorted_wrt (\<lambda>p q. fst p \<le> fst q) (sort d)"
    by (rule sorted_wrt_mono_rel [where P = "(\<le>)"])
      (auto simp: less_eq_prod_def less_imp_le)
  then show ?thesis
    by (simp add: dict_sorted_items_def sorted_map)
qed

lemma strict_sorted_items:
  "dict_wf d \<Longrightarrow> sorted_wrt (<) (map fst (dict_sorted_items d))"
  by (simp add: strict_sorted_iff distinct_sort_items sorted_keys_sorted_items)

section \<open>Binary search\<close>

text \<open>
  The loop of \<open>bisect\<close>: while \<open>lo < hi\<close>, look at the middle element and go right when
  \<open>right\<close> holds of it. \<open>bisect_left\<close> goes right on \<open>a[mid] < x\<close>, \<open>bisect_right\<close> on
  \<open>not (x < a[mid])\<close>.
\<close>

function bisect_loop :: "('a \<Rightarrow> bool) \<Rightarrow> 'a list \<Rightarrow> nat \<Rightarrow> nat \<Rightarrow> nat" where
  "bisect_loop right a lo hi =
     (if lo < hi then
        let mid = (lo + hi) div 2 in
        if right (a ! mid) then bisect_loop right a (Suc mid) hi
        else bisect_loop right a lo mid
      else lo)"
  by pat_completeness auto
termination
  by (relation "measure (\<lambda>(right, a, lo, hi). hi - lo)") auto

declare bisect_loop.simps [simp del]

definition bisect_left :: "'a::linorder list \<Rightarrow> 'a \<Rightarrow> nat" where
  "bisect_left a x = bisect_loop (\<lambda>y. y < x) a 0 (length a)"

definition bisect_right :: "'a::linorder list \<Rightarrow> 'a \<Rightarrow> nat" where
  "bisect_right a x = bisect_loop (\<lambda>y. \<not> x < y) a 0 (length a)"

lemma bisect_loop_le: "lo \<le> hi \<Longrightarrow> bisect_loop right a lo hi \<le> hi"
proof (induction right a lo hi rule: bisect_loop.induct)
  case (1 right a lo hi)
  let ?m = "(lo + hi) div 2"
  show ?case
  proof (cases "lo < hi")
    case True
    then have "Suc ?m \<le> hi" "lo \<le> ?m" "?m \<le> hi" by auto
    with True "1.IH" show ?thesis
      by (subst bisect_loop.simps) (fastforce simp: Let_def)
  next
    case False
    with "1.prems" show ?thesis by (subst bisect_loop.simps) simp
  qed
qed

lemma bisect_left_le [simp]: "bisect_left a x \<le> length a"
  by (simp add: bisect_left_def bisect_loop_le)

lemma bisect_right_le [simp]: "bisect_right a x \<le> length a"
  by (simp add: bisect_right_def bisect_loop_le)

lemma bisect_loop_partition:
  assumes "lo \<le> hi" "hi \<le> length a"
    and "\<And>i j. i < j \<Longrightarrow> j < length a \<Longrightarrow> right (a ! j) \<Longrightarrow> right (a ! i)"
    and "\<And>i. i < lo \<Longrightarrow> right (a ! i)"
    and "\<And>i. hi \<le> i \<Longrightarrow> i < length a \<Longrightarrow> \<not> right (a ! i)"
  shows "bisect_loop right a lo hi = length (takeWhile right a)"
  using assms
proof (induction right a lo hi rule: bisect_loop.induct)
  case (1 right a lo hi)
  note mono = "1.prems"(3) and left = "1.prems"(4) and rite = "1.prems"(5)
  let ?m = "(lo + hi) div 2"
  show ?case
  proof (cases "lo < hi")
    case True
    then have m: "lo \<le> ?m" "?m < hi" "?m < length a" using "1.prems"(2) by auto
    show ?thesis
    proof (cases "right (a ! ?m)")
      case right: True
      have "right (a ! i)" if "i < Suc ?m" for i
        using that right mono [of i ?m] m(3) by (cases "i = ?m") auto
      then have "bisect_loop right a (Suc ?m) hi = length (takeWhile right a)"
        using "1.IH"(1) [OF True refl right] "1.prems"(2) m mono rite by simp
      with True right show ?thesis by (subst bisect_loop.simps) (simp add: Let_def)
    next
      case wrong: False
      have "\<not> right (a ! i)" if "?m \<le> i" "i < length a" for i
        using that wrong mono [of ?m i] by (cases "i = ?m") auto
      then have "bisect_loop right a lo ?m = length (takeWhile right a)"
        using "1.IH"(2) [OF True refl wrong] m mono left by simp
      with True wrong show ?thesis by (subst bisect_loop.simps) (simp add: Let_def)
    qed
  next
    case False
    with "1.prems"(1) have eq: "lo = hi" by simp
    have "length (takeWhile right a) = lo"
    proof (rule antisym)
      show "length (takeWhile right a) \<le> lo"
        using rite [of lo] eq set_takeWhileD [of "a ! lo" right a]
        by (metis (no_types, lifting) le_refl length_takeWhile_le linorder_not_le nth_mem
            order_less_le_trans takeWhile_nth)
      show "lo \<le> length (takeWhile right a)"
        using left "1.prems"(2) eq
        by (metis linorder_not_le nth_length_takeWhile order_less_le_trans)
    qed
    with False show ?thesis by (subst bisect_loop.simps) simp
  qed
qed

lemma sorted_nth_less: "i < j \<Longrightarrow> j < length a \<Longrightarrow> sorted a \<Longrightarrow> a ! i \<le> a ! j"
  by (simp add: sorted_nth_mono)

lemma bisect_left_sorted:
  "sorted a \<Longrightarrow> bisect_left a x = length (takeWhile (\<lambda>y. y < x) a)"
  unfolding bisect_left_def
  by (rule bisect_loop_partition)
    (auto dest: sorted_nth_less intro: order.strict_trans1)

lemma bisect_right_sorted:
  "sorted a \<Longrightarrow> bisect_right a x = length (takeWhile (\<lambda>y. y \<le> x) a)"
  unfolding bisect_right_def not_less
  by (rule bisect_loop_partition)
    (auto dest: sorted_nth_less intro: order.trans)

end
