(* ===== verification/MemTable.thy ===== *)
theory MemTable
  imports Py_Base
begin

text \<open>
  \<open>memtable.py\<close>: the in-memory write buffer of the LSM engine.

  The record \<open>memtable\<close> has the fields of the class (the lock apart): the dictionary
  \<open>_data\<close>, the running byte count \<open>_size_bytes\<close>, the flush threshold \<open>_size_limit\<close> and the
  write counter. The invariant \<open>mt_inv\<close> says that the dictionary has distinct keys and that
  the running count is exactly the number of characters stored; every operation keeps it.
\<close>

section \<open>State and operations\<close>

definition TOMBSTONE :: pystr where
  "TOMBSTONE = str ''__DELETED__''"

record memtable =
  mt_data :: "(pystr, pystr) dict"
  mt_size_bytes :: int
  mt_size_limit :: int
  mt_write_count :: nat

definition memtable_new :: "int \<Rightarrow> memtable" where
  "memtable_new limit =
     \<lparr>mt_data = [], mt_size_bytes = 0, mt_size_limit = limit, mt_write_count = 0\<rparr>"

definition mt_set :: "memtable \<Rightarrow> pystr \<Rightarrow> pystr \<Rightarrow> memtable" where
  "mt_set m key value =
     (let size = (case dict_get (mt_data m) key of
                    Some old \<Rightarrow> mt_size_bytes m - (int (length key) + int (length old))
                  | None \<Rightarrow> mt_size_bytes m)
      in m\<lparr>mt_data := dict_set key value (mt_data m),
           mt_size_bytes := size + (int (length key) + int (length value)),
           mt_write_count := mt_write_count m + 1\<rparr>)"

definition mt_delete :: "memtable \<Rightarrow> pystr \<Rightarrow> memtable" where
  "mt_delete m key =
     (let size = (case dict_get (mt_data m) key of
                    Some old \<Rightarrow> mt_size_bytes m - (int (length key) + int (length old))
                  | None \<Rightarrow> mt_size_bytes m)
      in m\<lparr>mt_data := dict_set key TOMBSTONE (mt_data m),
           mt_size_bytes := size + (int (length key) + int (length TOMBSTONE)),
           mt_write_count := mt_write_count m + 1\<rparr>)"

definition mt_get :: "memtable \<Rightarrow> pystr \<Rightarrow> pystr option" where
  "mt_get m key = dict_get (mt_data m) key"

text \<open>The loop of \<open>scan\<close> over \<open>sorted(self._data.keys())\<close>: skip below, stop above.\<close>

fun mt_scan_loop :: "(pystr, pystr) dict \<Rightarrow> pystr \<Rightarrow> pystr \<Rightarrow> pystr list \<Rightarrow> (pystr \<times> pystr) list" where
  "mt_scan_loop d start_key end_key [] = []"
| "mt_scan_loop d start_key end_key (key # keys) =
     (if key < start_key then mt_scan_loop d start_key end_key keys
      else if end_key < key then []
      else (key, the (dict_get d key)) # mt_scan_loop d start_key end_key keys)"

definition mt_scan :: "memtable \<Rightarrow> pystr \<Rightarrow> pystr \<Rightarrow> (pystr \<times> pystr) list" where
  "mt_scan m start_key end_key =
     mt_scan_loop (mt_data m) start_key end_key (sort (dict_keys (mt_data m)))"

definition mt_items_sorted :: "memtable \<Rightarrow> (pystr \<times> pystr) list" where
  "mt_items_sorted m = dict_sorted_items (mt_data m)"

definition mt_should_flush :: "memtable \<Rightarrow> bool" where
  "mt_should_flush m \<longleftrightarrow> mt_size_bytes m \<ge> mt_size_limit m"

definition mt_entry_count :: "memtable \<Rightarrow> nat" where
  "mt_entry_count m = length (mt_data m)"

definition mt_clear :: "memtable \<Rightarrow> memtable" where
  "mt_clear m = m\<lparr>mt_data := [], mt_size_bytes := 0, mt_write_count := 0\<rparr>"

section \<open>The invariant\<close>

definition entry_size :: "pystr \<times> pystr \<Rightarrow> int" where
  "entry_size e = int (length (fst e)) + int (length (snd e))"

definition data_size :: "(pystr, pystr) dict \<Rightarrow> int" where
  "data_size d = (\<Sum>e\<leftarrow>d. entry_size e)"

definition mt_inv :: "memtable \<Rightarrow> bool" where
  "mt_inv m \<longleftrightarrow> dict_wf (mt_data m) \<and> mt_size_bytes m = data_size (mt_data m)"

lemma data_size_update:
  "data_size (dict_set k v d) =
     (case dict_get d k of Some old \<Rightarrow> data_size d - entry_size (k, old) | None \<Rightarrow> data_size d)
     + entry_size (k, v)"
  by (induction d) (auto simp: data_size_def entry_size_def split: option.splits)

lemma data_size_nonneg: "0 \<le> data_size d"
  by (induction d) (auto simp: data_size_def entry_size_def)

lemma mt_inv_new [inv_intros]: "mt_inv (memtable_new limit)"
  by (simp add: mt_inv_def memtable_new_def data_size_def)

lemma mt_inv_set [inv_intros]: "mt_inv m \<Longrightarrow> mt_inv (mt_set m k v)"
  by (auto simp: mt_inv_def mt_set_def Let_def data_size_update entry_size_def split: option.splits)

lemma mt_delete_eq_set: "mt_delete m k = mt_set m k TOMBSTONE"
  by (simp add: mt_delete_def mt_set_def)

lemma mt_inv_delete [inv_intros]: "mt_inv m \<Longrightarrow> mt_inv (mt_delete m k)"
  by (simp add: mt_delete_eq_set mt_inv_set)

lemma mt_inv_clear [inv_intros]: "mt_inv m \<Longrightarrow> mt_inv (mt_clear m)"
  by (simp add: mt_inv_def mt_clear_def data_size_def)

section \<open>Behaviour of the operations\<close>

lemma mt_get_set: "mt_get (mt_set m k v) k' = (if k' = k then Some v else mt_get m k')"
  by (simp add: mt_get_def mt_set_def Let_def dict_simps)

lemma mt_get_delete:
  "mt_get (mt_delete m k) k' = (if k' = k then Some TOMBSTONE else mt_get m k')"
  by (simp add: mt_delete_eq_set mt_get_set)

lemma mt_get_clear: "mt_get (mt_clear m) k = None"
  by (simp add: mt_get_def mt_clear_def)

lemma mt_limit_ops [simp]:
  "mt_size_limit (mt_set m k v) = mt_size_limit m"
  "mt_size_limit (mt_delete m k) = mt_size_limit m"
  "mt_size_limit (mt_clear m) = mt_size_limit m"
  by (simp_all add: mt_set_def mt_delete_def mt_clear_def Let_def)

text \<open>A pass that skips below and stops above is a filter, on strictly sorted items.\<close>

lemma mt_scan_loop_items:
  assumes "sorted_wrt (<) (map fst items)" "set items \<subseteq> set d" "distinct (map fst d)"
  shows "mt_scan_loop d lo hi (map fst items) = filter (\<lambda>(k, v). lo \<le> k \<and> k \<le> hi) items"
  using assms
proof (induction items)
  case Nil
  then show ?case by simp
next
  case (Cons e items)
  obtain k v where e: "e = (k, v)" by (cases e)
  from Cons.prems e have v: "dict_get d k = Some v" by simp
  have above: "filter (\<lambda>(k', v). lo \<le> k' \<and> k' \<le> hi) items = []" if "hi < k"
    using that Cons.prems(1) e by (fastforce simp: filter_empty_conv)
  show ?case using Cons e v above by (auto simp: not_less)
qed

lemma sort_keys_items: "sort (dict_keys d) = map fst (dict_sorted_items d)"
  for d :: "('k::linorder, 'v::linorder) dict"
proof (rule properties_for_sort)
  show "mset (map fst (dict_sorted_items d)) = mset (dict_keys d)"
    by (simp add: dict_sorted_items_def flip: mset_map)
      (metis mset_map mset_sort)
  show "sorted (map fst (dict_sorted_items d))"
    by (rule sorted_keys_sorted_items)
qed

lemma mt_scan_filter:
  assumes "mt_inv m"
  shows "mt_scan m lo hi = filter (\<lambda>(k, v). lo \<le> k \<and> k \<le> hi) (mt_items_sorted m)"
  using assms
  by (auto simp: mt_scan_def mt_items_sorted_def sort_keys_items mt_scan_loop_items
      strict_sorted_items mt_inv_def dict_wf_def)

lemma mt_items_map: "mt_inv m \<Longrightarrow> map_of (mt_items_sorted m) = mt_get m"
  by (auto simp: mt_items_sorted_def mt_inv_def map_of_sorted_items mt_get_def)

section \<open>Histories\<close>

datatype mt_op = MtSet pystr pystr | MtDelete pystr | MtClear

fun mt_step :: "memtable \<Rightarrow> mt_op \<Rightarrow> memtable" where
  "mt_step m (MtSet k v) = mt_set m k v"
| "mt_step m (MtDelete k) = mt_delete m k"
| "mt_step m MtClear = mt_clear m"

fun mt_run :: "memtable \<Rightarrow> mt_op list \<Rightarrow> memtable" where
  "mt_run m [] = m"
| "mt_run m (x # xs) = mt_run (mt_step m x) xs"

lemma mt_inv_run: "mt_inv m \<Longrightarrow> mt_inv (mt_run m ops)"
proof (induction ops arbitrary: m)
  case Nil
  then show ?case by simp
next
  case (Cons x ops)
  then show ?case by (cases x) (auto intro: inv_intros)
qed

text \<open>
  (C30) After any history of writes, deletes and clears, the running count \<open>_size_bytes\<close> of a
  MemTable is exactly the number of characters its keys and values hold.
\<close>

theorem memtable_run_exact:
  "mt_size_bytes (mt_run (memtable_new limit) ops) =
     data_size (mt_data (mt_run (memtable_new limit) ops))"
  using mt_inv_run [OF mt_inv_new] by (simp add: mt_inv_def)

end
