(* ===== verification/Py_Text.thy ===== *)
theory Py_Text
  imports Py_Base
begin

text \<open>
  Numbers as text: \<open>str(n)\<close> and \<open>int(s)\<close> in base ten, and the fixed-width lower-case
  hexadecimal of \<open>format(n, "016x")\<close>. Code points 48 to 57 are the digits, 97 to 102 the
  letters of base sixteen, 45 the minus sign. Also \<open>str.split\<close> on one character, \<open>int\<close> on text
  (for ASCII digits) and the zero-padded decimal of \<open>format(n, "06d")\<close>.
\<close>

section \<open>Decimal\<close>

function dec_digits :: "nat \<Rightarrow> pystr" where
  "dec_digits n = (if n < 10 then [48 + n] else dec_digits (n div 10) @ [48 + n mod 10])"
  by pat_completeness auto
termination
  by (relation "measure id") auto

declare dec_digits.simps [simp del]

definition str_of_nat :: "nat \<Rightarrow> pystr" where
  "str_of_nat n = dec_digits n"

definition str_of_int :: "int \<Rightarrow> pystr" where
  "str_of_int i = (if i < 0 then 45 # str_of_nat (nat (- i)) else str_of_nat (nat i))"

definition is_digit :: "nat \<Rightarrow> bool" where
  "is_digit c \<longleftrightarrow> 48 \<le> c \<and> c \<le> 57"

definition nat_of_digits :: "pystr \<Rightarrow> nat" where
  "nat_of_digits s = foldl (\<lambda>acc c. acc * 10 + (c - 48)) 0 s"

lemma dec_digits_digit: "list_all is_digit (dec_digits n)"
proof (induction n rule: dec_digits.induct)
  case (1 n)
  moreover have "is_digit (48 + n mod 10)" "n < 10 \<Longrightarrow> is_digit (48 + n)"
    by (auto simp: is_digit_def)
  ultimately show ?case by (subst dec_digits.simps) auto
qed

lemma dec_digits_nonempty [simp]: "dec_digits n \<noteq> []"
  by (subst dec_digits.simps) simp

lemma nat_of_dec_digits: "nat_of_digits (dec_digits n) = n"
proof (induction n rule: dec_digits.induct)
  case (1 n)
  then show ?case by (subst dec_digits.simps) (auto simp: nat_of_digits_def)
qed

lemma hd_dec_digits_pos: "0 < n \<Longrightarrow> hd (dec_digits n) \<noteq> 48"
proof (induction n rule: dec_digits.induct)
  case (1 n)
  then show ?case by (subst dec_digits.simps) (auto simp: hd_append)
qed

lemma dec_digits_0 [simp]: "dec_digits 0 = [48]"
  by (subst dec_digits.simps) simp

lemma str_of_int_nonempty [simp]: "str_of_int i \<noteq> []"
  by (simp add: str_of_int_def str_of_nat_def)

lemma str_of_int_ascii: "c \<in> set (str_of_int i) \<Longrightarrow> c < 128"
  using dec_digits_digit [of "nat i"] dec_digits_digit [of "nat (- i)"]
  by (auto simp: str_of_int_def str_of_nat_def list_all_iff is_digit_def split: if_splits)

section \<open>Hexadecimal\<close>

definition hex_digit :: "nat \<Rightarrow> nat" where
  "hex_digit d = (if d < 10 then 48 + d else 87 + d)"

definition hex_val :: "nat \<Rightarrow> nat option" where
  "hex_val c =
     (if 48 \<le> c \<and> c \<le> 57 then Some (c - 48)
      else if 97 \<le> c \<and> c \<le> 102 then Some (c - 87)
      else if 65 \<le> c \<and> c \<le> 70 then Some (c - 55)
      else None)"

fun hex_fixed :: "nat \<Rightarrow> nat \<Rightarrow> pystr" where
  "hex_fixed 0 n = []"
| "hex_fixed (Suc w) n = hex_digit (n div 16 ^ w mod 16) # hex_fixed w n"

fun hex_parse :: "nat \<Rightarrow> pystr \<Rightarrow> nat option" where
  "hex_parse acc [] = Some acc"
| "hex_parse acc (c # s) =
     (case hex_val c of None \<Rightarrow> None | Some d \<Rightarrow> hex_parse (acc * 16 + d) s)"

lemma hex_val_digit [simp]: "d < 16 \<Longrightarrow> hex_val (hex_digit d) = Some d"
  by (auto simp: hex_val_def hex_digit_def)

lemma hex_digit_mono: "d < e \<Longrightarrow> e < 16 \<Longrightarrow> hex_digit d < hex_digit e"
  by (auto simp: hex_digit_def)

lemma hex_digit_inj: "d < 16 \<Longrightarrow> e < 16 \<Longrightarrow> hex_digit d = hex_digit e \<longleftrightarrow> d = e"
  by (auto simp: hex_digit_def split: if_splits)

lemma length_hex_fixed [simp]: "length (hex_fixed w n) = w"
  by (induction w) auto

lemma hex_digit_ascii: "d < 16 \<Longrightarrow> 48 \<le> hex_digit d \<and> hex_digit d \<le> 102"
  by (auto simp: hex_digit_def)

lemma hex_fixed_ascii: "c \<in> set (hex_fixed w n) \<Longrightarrow> 48 \<le> c \<and> c \<le> 102"
  by (induction w) (auto simp: hex_digit_ascii)

lemma hex_parse_fixed_acc: "hex_parse acc (hex_fixed w n) = Some (acc * 16 ^ w + n mod 16 ^ w)"
proof (induction w arbitrary: acc)
  case 0
  then show ?case by simp
next
  case (Suc w)
  have "n mod (16 ^ w * 16) = 16 ^ w * (n div 16 ^ w mod 16) + n mod 16 ^ w"
    by (rule mod_mult2_eq)
  with Suc show ?case by (simp add: algebra_simps)
qed

lemma hex_parse_fixed: "n < 16 ^ w \<Longrightarrow> hex_parse 0 (hex_fixed w n) = Some n"
  by (simp add: hex_parse_fixed_acc)

text \<open>Fixed-width hexadecimal sorts as the numbers do.\<close>

lemma hex_fixed_less:
  "m < 16 ^ w \<Longrightarrow> n < 16 ^ w \<Longrightarrow> hex_fixed w m < hex_fixed w n \<longleftrightarrow> m < n"
proof (induction w arbitrary: m n)
  case 0
  then show ?case by simp
next
  case (Suc w)
  have mod16: "m div 16 ^ w < 16" "n div 16 ^ w < 16"
    using Suc.prems by (simp_all add: div_less_iff_less_mult mult.commute)
  have low: "hex_fixed w k = hex_fixed w (k mod 16 ^ w)" for k
  proof -
    have "hex_fixed v k = hex_fixed v (k mod 16 ^ w)" if "v \<le> w" for v
      using that
    proof (induction v)
      case (Suc v)
      have "k mod 16 ^ w div 16 ^ v mod 16 = k div 16 ^ v mod 16"
      proof -
        obtain d where d: "w = Suc v + d" using Suc.prems le_Suc_ex by blast
        have "16 ^ w = 16 ^ v * (16 * 16 ^ d :: nat)" by (simp add: d power_add)
        then have "k mod 16 ^ w div 16 ^ v = k div 16 ^ v mod (16 * 16 ^ d)"
          by (simp add: mod_mult2_eq)
        then show ?thesis by (simp add: mod_mult2_eq mod_mod_cancel)
      qed
      then show ?case using Suc by simp
    qed simp
    then show ?thesis by blast
  qed
  have split: "m = m div 16 ^ w * 16 ^ w + m mod 16 ^ w" "n = n div 16 ^ w * 16 ^ w + n mod 16 ^ w"
    by (simp_all only: div_mult_mod_eq)
  have IH: "hex_fixed w m < hex_fixed w n \<longleftrightarrow> m mod 16 ^ w < n mod 16 ^ w"
    using Suc.IH [of "m mod 16 ^ w" "n mod 16 ^ w"] low [of m] low [of n] by simp
  consider "m div 16 ^ w < n div 16 ^ w" | "m div 16 ^ w = n div 16 ^ w" | "n div 16 ^ w < m div 16 ^ w"
    by linarith
  then show ?case
  proof cases
    case 1
    then have "m < n" by (metis div_le_mono linorder_not_le)
    with 1 mod16 show ?thesis by (simp add: hex_digit_mono)
  next
    case 2
    then have "m < n \<longleftrightarrow> m mod 16 ^ w < n mod 16 ^ w" using split by (metis nat_add_left_cancel_less)
    with 2 IH show ?thesis by simp
  next
    case 3
    then have "n < m" by (metis div_le_mono linorder_not_le)
    with 3 mod16 show ?thesis using hex_digit_mono [OF 3 mod16(1)] by auto
  qed
qed

lemma hex_fixed_inj:
  "m < 16 ^ w \<Longrightarrow> n < 16 ^ w \<Longrightarrow> hex_fixed w m = hex_fixed w n \<longleftrightarrow> m = n"
  by (metis hex_parse_fixed option.inject)

section \<open>Splitting, parsing and zero padding\<close>

text \<open>\<open>s.split(c)\<close> for a single character.\<close>

fun py_split :: "nat \<Rightarrow> pystr \<Rightarrow> pystr list" where
  "py_split c [] = [[]]"
| "py_split c (d # s) =
     (if d = c then [] # py_split c s
      else case py_split c s of [] \<Rightarrow> [[d]] | p # ps \<Rightarrow> (d # p) # ps)"

definition is_space :: "nat \<Rightarrow> bool" where
  "is_space c \<longleftrightarrow> c = 32 \<or> (9 \<le> c \<and> c \<le> 13)"

definition py_strip :: "pystr \<Rightarrow> pystr" where
  "py_strip s = rev (dropWhile is_space (rev (dropWhile is_space s)))"

text \<open>\<open>int(s)\<close>: optional sign and at least one digit, blanks around them allowed.\<close>

definition py_int :: "pystr \<Rightarrow> int result" where
  "py_int s =
     (let t = py_strip s;
          (sgn, ds) = (case t of [] \<Rightarrow> (1, []) | c # r \<Rightarrow> if c = 45 then (-1, r) else if c = 43 then (1, r) else (1, t))
      in if ds \<noteq> [] \<and> list_all is_digit ds then Inr (sgn * int (nat_of_digits ds)) else Inl ValueError)"

definition zero_pad :: "nat \<Rightarrow> pystr \<Rightarrow> pystr" where
  "zero_pad w s = replicate (w - length s) 48 @ s"

lemma py_split_nonempty [simp]: "py_split c s \<noteq> []"
  by (cases s) (auto split: list.splits)

lemma py_split_no: "c \<notin> set s \<Longrightarrow> py_split c s = [s]"
  by (induction s) auto

lemma py_split_append: "c \<notin> set s \<Longrightarrow> py_split c (s @ c # t) = s # py_split c t"
  by (induction s) auto

lemma digit_not_space: "is_digit c \<Longrightarrow> \<not> is_space c"
  by (auto simp: is_digit_def is_space_def)

lemma py_int_digits:
  assumes "list_all is_digit s" "s \<noteq> []"
  shows "py_int s = Inr (int (nat_of_digits s))"
proof -
  have h: "hd s \<in> set s" "last s \<in> set s" using assms(2) by simp_all
  have "dropWhile is_space s = s" "dropWhile is_space (rev s) = rev s"
    using assms h digit_not_space
    by (auto simp: dropWhile_eq_self_iff list_all_iff hd_rev)
  then have "py_strip s = s" by (simp add: py_strip_def)
  moreover have "hd s \<noteq> 45" "hd s \<noteq> 43" using assms(1) h(1) by (auto simp: list_all_iff is_digit_def)
  ultimately show ?thesis using assms by (cases s) (simp_all add: py_int_def)
qed

lemma nat_of_digits_Cons: "nat_of_digits (c # s) = (c - 48) * 10 ^ length s + nat_of_digits s"
proof -
  have "foldl (\<lambda>acc c. acc * 10 + (c - 48)) a s = a * 10 ^ length s + nat_of_digits s" for a s
  proof (induction s arbitrary: a)
    case (Cons d s)
    show ?case using Cons [of "a * 10 + (d - 48)"] Cons [of "d - 48"]
      by (simp add: nat_of_digits_def algebra_simps)
  qed (simp add: nat_of_digits_def)
  from this [of "c - 48" s] show ?thesis by (simp add: nat_of_digits_def)
qed

lemma nat_of_digits_less: "list_all is_digit s \<Longrightarrow> nat_of_digits s < 10 ^ length s"
proof (induction s)
  case (Cons c s)
  have "(c - 48) * 10 ^ length s \<le> 9 * 10 ^ length s"
    using Cons.prems by (intro mult_right_mono) (auto simp: is_digit_def)
  moreover have "nat_of_digits s < 10 ^ length s" using Cons by simp
  ultimately have "(c - 48) * 10 ^ length s + nat_of_digits s < 9 * 10 ^ length s + 10 ^ length s" by linarith
  then show ?case by (simp add: nat_of_digits_Cons)
qed (simp add: nat_of_digits_def)

text \<open>Digit strings of one length sort as the numbers do.\<close>

lemma digits_less:
  "length s = length t \<Longrightarrow> list_all is_digit s \<Longrightarrow> list_all is_digit t \<Longrightarrow>
     s < t \<longleftrightarrow> nat_of_digits s < nat_of_digits t"
proof (induction s t rule: list_induct2)
  case (Cons c s d t)
  let ?p = "10 ^ length t :: nat"
  have b: "nat_of_digits s < ?p" "nat_of_digits t < ?p"
    using nat_of_digits_less [of s] nat_of_digits_less [of t] Cons by simp_all
  have less: "a * ?p + x < e * ?p + y" if "a < e" "x < ?p" for a e x y
  proof -
    have "(a + 1) * ?p \<le> e * ?p" using that(1) by (intro mult_right_mono) auto
    then show ?thesis using that(2) by simp
  qed
  consider "c < d" | "c = d" | "d < c" by linarith
  then show ?case
  proof cases
    case 1
    then have "c - 48 < d - 48" using Cons.prems by (auto simp: is_digit_def)
    from less [OF this b(1)] show ?thesis using 1 Cons.hyps by (simp add: nat_of_digits_Cons)
  next
    case 3
    then have "d - 48 < c - 48" using Cons.prems by (auto simp: is_digit_def)
    from less [OF this b(2), of "nat_of_digits s"] show ?thesis using 3 Cons.hyps by (simp add: nat_of_digits_Cons)
  qed (use Cons in \<open>simp add: nat_of_digits_Cons\<close>)
qed simp

lemma length_dec_digits: "n < 10 ^ w \<Longrightarrow> 0 < w \<Longrightarrow> length (dec_digits n) \<le> w"
proof (induction w arbitrary: n)
  case (Suc w)
  show ?case
  proof (cases "n < 10")
    case False
    then have "0 < w" using Suc.prems by (cases w) auto
    then have "length (dec_digits (n div 10)) \<le> w" using Suc by (simp add: div_less_iff_less_mult)
    then show ?thesis using False by (subst dec_digits.simps) simp
  qed (subst dec_digits.simps, simp)
qed simp

lemma nat_of_digits_zeros: "nat_of_digits (replicate n 48 @ s) = nat_of_digits s"
  by (induction n) (simp_all add: nat_of_digits_Cons)

lemma zero_pad_digits:
  "list_all is_digit (zero_pad w (str_of_nat n))" "zero_pad w (str_of_nat n) \<noteq> []"
  "nat_of_digits (zero_pad w (str_of_nat n)) = n"
  using dec_digits_digit [of n]
  by (auto simp: zero_pad_def str_of_nat_def nat_of_digits_zeros nat_of_dec_digits list_all_iff is_digit_def)

lemma zero_pad_less:
  assumes "m < 10 ^ w" "n < 10 ^ w" "0 < w"
  shows "zero_pad w (str_of_nat m) < zero_pad w (str_of_nat n) \<longleftrightarrow> m < n"
proof -
  have "length (zero_pad w (str_of_nat k)) = w" if "k < 10 ^ w" for k
    using length_dec_digits [OF that assms(3)] by (simp add: zero_pad_def str_of_nat_def)
  then show ?thesis
    using assms by (subst digits_less) (simp_all add: zero_pad_digits)
qed

end
