(* ===== verification/Py_Bytes.thy ===== *)
theory Py_Bytes
  imports Py_Base "HOL-Library.Word"
begin

text \<open>
  Byte strings and the encodings of the standard library the storage layer uses: big-endian
  \<open>struct.pack\<close>, \<open>str.encode("utf-8")\<close> with its strict decoder, and \<open>zlib.crc32\<close>.
  A byte is a natural number below 256, as an element of Python's \<open>bytes\<close> is.
\<close>

unbundle bit_operations_syntax

type_synonym bytes = "nat list"

definition bytes_wf :: "bytes \<Rightarrow> bool" where
  "bytes_wf bs \<longleftrightarrow> (\<forall>b\<in>set bs. b < 256)"

section \<open>struct.pack and struct.unpack, big-endian\<close>

fun be_bytes :: "nat \<Rightarrow> nat \<Rightarrow> bytes" where
  "be_bytes 0 n = []"
| "be_bytes (Suc w) n = (n div 256 ^ w) mod 256 # be_bytes w n"

definition pack_be :: "nat \<Rightarrow> nat \<Rightarrow> bytes result" where
  "pack_be w n = (if n < 256 ^ w then Inr (be_bytes w n) else Inl StructError)"

definition unpack_be :: "bytes \<Rightarrow> nat" where
  "unpack_be bs = foldl (\<lambda>acc b. acc * 256 + b) 0 bs"

lemma length_be_bytes [simp]: "length (be_bytes w n) = w"
  by (induction w) auto

lemma foldl_be_bytes:
  "foldl (\<lambda>acc b. acc * 256 + b) a (be_bytes w n) = a * 256 ^ w + n mod 256 ^ w"
proof (induction w arbitrary: a)
  case 0
  then show ?case by simp
next
  case (Suc w)
  have "n mod (256 ^ w * 256) = 256 ^ w * (n div 256 ^ w mod 256) + n mod 256 ^ w"
    by (rule mod_mult2_eq)
  with Suc show ?case by (simp add: algebra_simps)
qed

lemma unpack_pack: "pack_be w n = Inr bs \<Longrightarrow> unpack_be bs = n"
  by (auto simp: pack_be_def unpack_be_def foldl_be_bytes split: if_splits)

lemma pack_be_Inr: "pack_be w n = Inr bs \<longleftrightarrow> n < 256 ^ w \<and> bs = be_bytes w n"
  by (auto simp: pack_be_def)

lemma unpack_be_bytes: "n < 256 ^ w \<Longrightarrow> unpack_be (be_bytes w n) = n"
  by (simp add: unpack_be_def foldl_be_bytes)

lemma be_bytes_wf: "bytes_wf (be_bytes w n)"
  by (induction w) (auto simp: bytes_wf_def)

section \<open>UTF-8\<close>

definition is_scalar :: "nat \<Rightarrow> bool" where
  "is_scalar c \<longleftrightarrow> c < 0xD800 \<or> (0xE000 \<le> c \<and> c < 0x110000)"

definition utf8_char :: "nat \<Rightarrow> bytes" where
  "utf8_char c =
     (if c < 0x80 then [c]
      else if c < 0x800 then [0xC0 + c div 64, 0x80 + c mod 64]
      else if c < 0x10000 then [0xE0 + c div 4096, 0x80 + c div 64 mod 64, 0x80 + c mod 64]
      else [0xF0 + c div 262144, 0x80 + c div 4096 mod 64, 0x80 + c div 64 mod 64, 0x80 + c mod 64])"

definition utf8_encode :: "pystr \<Rightarrow> bytes result" where
  "utf8_encode s =
     (if list_all is_scalar s then Inr (concat (map utf8_char s)) else Inl UnicodeError)"

definition is_cont :: "nat \<Rightarrow> bool" where
  "is_cont b \<longleftrightarrow> 0x80 \<le> b \<and> b < 0xC0"

fun utf8_decode :: "bytes \<Rightarrow> pystr result" where
  "utf8_decode [] = Inr []"
| "utf8_decode (b # bs) =
     (if b < 0x80 then bindE (utf8_decode bs) (\<lambda>s. Inr (b # s))
      else if 0xC2 \<le> b \<and> b < 0xE0 then
        (case bs of
           b1 # r \<Rightarrow>
             if is_cont b1
             then bindE (utf8_decode r) (\<lambda>s. Inr (((b - 0xC0) * 64 + (b1 - 0x80)) # s))
             else Inl UnicodeError
         | _ \<Rightarrow> Inl UnicodeError)
      else if 0xE0 \<le> b \<and> b < 0xF0 then
        (case bs of
           b1 # b2 # r \<Rightarrow>
             let c = (b - 0xE0) * 4096 + (b1 - 0x80) * 64 + (b2 - 0x80) in
             if is_cont b1 \<and> is_cont b2 \<and> 0x800 \<le> c \<and> is_scalar c
             then bindE (utf8_decode r) (\<lambda>s. Inr (c # s))
             else Inl UnicodeError
         | _ \<Rightarrow> Inl UnicodeError)
      else if 0xF0 \<le> b \<and> b < 0xF5 then
        (case bs of
           b1 # b2 # b3 # r \<Rightarrow>
             let c = (b - 0xF0) * 262144 + (b1 - 0x80) * 4096 + (b2 - 0x80) * 64 + (b3 - 0x80) in
             if is_cont b1 \<and> is_cont b2 \<and> is_cont b3 \<and> 0x10000 \<le> c \<and> is_scalar c
             then bindE (utf8_decode r) (\<lambda>s. Inr (c # s))
             else Inl UnicodeError
         | _ \<Rightarrow> Inl UnicodeError)
      else Inl UnicodeError)"

lemma base64_digits:
  fixes c :: nat
  shows "c div 4096 * 4096 + c div 64 mod 64 * 64 + c mod 64 = c"
    and "c div 262144 * 262144 + c div 4096 mod 64 * 4096 + c div 64 mod 64 * 64 + c mod 64 = c"
proof -
  have d: "c div 4096 = c div 64 div 64" "c div 262144 = c div 4096 div 64"
    by (simp_all flip: div_mult2_eq)
  have e: "c div 64 * 64 + c mod 64 = c" "c div 64 div 64 * 64 + c div 64 mod 64 = c div 64"
    "c div 4096 div 64 * 64 + c div 4096 mod 64 = c div 4096"
    by simp_all
  show one: "c div 4096 * 4096 + c div 64 mod 64 * 64 + c mod 64 = c"
    unfolding d using e(1,2) by linarith
  show "c div 262144 * 262144 + c div 4096 mod 64 * 4096 + c div 64 mod 64 * 64 + c mod 64 = c"
    unfolding d(2) using e(3) one by linarith
qed

lemma utf8_decode_char:
  assumes "is_scalar c"
  shows "utf8_decode (utf8_char c @ bs) = bindE (utf8_decode bs) (\<lambda>s. Inr (c # s))"
proof -
  consider "c < 0x80" | "0x80 \<le> c" "c < 0x800" | "0x800 \<le> c" "c < 0x10000" | "0x10000 \<le> c"
    by linarith
  then show ?thesis
  proof cases
    case 1
    then show ?thesis by (simp add: utf8_char_def)
  next
    case 2
    then have "2 \<le> c div 64" "c div 64 \<le> 31" by auto
    moreover have "c div 64 * 64 + c mod 64 = c" by simp
    ultimately show ?thesis using 2 by (simp add: utf8_char_def is_cont_def div_less_iff_less_mult)
  next
    case 3
    then have "c div 4096 \<le> 15" by auto
    moreover note base64_digits(1) [of c]
    ultimately show ?thesis using 3 assms
      by (simp add: utf8_char_def is_cont_def Let_def div_less_iff_less_mult)
  next
    case 4
    then have "c < 0x110000" using assms by (simp add: is_scalar_def)
    moreover note base64_digits(2) [of c]
    ultimately show ?thesis using 4 assms
      by (simp add: utf8_char_def is_cont_def Let_def div_less_iff_less_mult)
  qed
qed

lemma utf8_roundtrip: "utf8_encode s = Inr bs \<Longrightarrow> utf8_decode bs = Inr s"
proof (induction s arbitrary: bs)
  case Nil
  then show ?case by (simp add: utf8_encode_def)
next
  case (Cons c s)
  then have "utf8_encode s = Inr (concat (map utf8_char s))" "is_scalar c"
    "bs = utf8_char c @ concat (map utf8_char s)"
    by (auto simp: utf8_encode_def split: if_splits)
  with Cons.IH show ?case by (simp add: utf8_decode_char)
qed

lemma utf8_char_ascii: "c < 128 \<Longrightarrow> utf8_char c = [c]"
  by (simp add: utf8_char_def)

lemma utf8_encode_ascii: "\<forall>c\<in>set s. c < 128 \<Longrightarrow> utf8_encode s = Inr s"
  by (induction s) (auto simp: utf8_encode_def utf8_char_ascii is_scalar_def split: if_splits)

lemma utf8_encode_Inr:
  "utf8_encode s = Inr bs \<longleftrightarrow> list_all is_scalar s \<and> bs = concat (map utf8_char s)"
  by (auto simp: utf8_encode_def)

section \<open>zlib.crc32\<close>

text \<open>
  The reflected CRC-32 of polynomial 0x04C11DB7: each byte is mixed into the low bits and
  shifted out bit by bit. The second argument of \<open>crc32\<close> is the running value, as in
  \<open>zlib.crc32(data, value)\<close>.
\<close>

definition crc_bit :: "32 word \<Rightarrow> 32 word" where
  "crc_bit c = (if c AND 1 = 1 then drop_bit 1 c XOR 0xEDB88320 else drop_bit 1 c)"

definition crc_byte :: "32 word \<Rightarrow> nat \<Rightarrow> 32 word" where
  "crc_byte c b = (crc_bit ^^ 8) (c XOR of_nat b)"

definition crc32_from :: "32 word \<Rightarrow> bytes \<Rightarrow> nat" where
  "crc32_from start data = unat (foldl crc_byte (start XOR 0xFFFFFFFF) data XOR 0xFFFFFFFF)"

definition crc32 :: "bytes \<Rightarrow> nat" where
  "crc32 data = crc32_from 0 data"

lemma crc32_bound: "crc32 data < 2 ^ 32"
  unfolding crc32_def crc32_from_def by (rule order.strict_trans2 [OF unsigned_less]) simp

lemma crc32_from_bound: "crc32_from start data < 2 ^ 32"
  unfolding crc32_from_def by (rule order.strict_trans2 [OF unsigned_less]) simp

text \<open>Evaluation of the CRC by the simplifier, one bit at a time.\<close>

lemma crc_byte_unroll:
  "crc_byte c b =
     crc_bit (crc_bit (crc_bit (crc_bit (crc_bit (crc_bit (crc_bit (crc_bit (c XOR of_nat b))))))))"
  by (simp add: crc_byte_def numeral_eq_Suc)

lemmas crc_eval = crc32_def crc32_from_def crc_byte_unroll crc_bit_def

text \<open>The check value of the CRC-32 standard, on the ASCII string \<open>123456789\<close>.\<close>

lemma crc32_check_value: "crc32 (str ''123456789'') = 0xCBF43926"
  by (simp add: crc_eval str_def)

end
