(* ===== verification/Py_Json.thy ===== *)
theory Py_Json
  imports Py_Text Py_Bytes
begin

text \<open>
  \<open>json.dumps\<close> and \<open>json.loads\<close> with their default options, on the values LiteDB stores:
  WAL entries, the sparse index of an SSTable, log records. \<open>dumps\<close> escapes everything outside
  printable ASCII (\<open>ensure_ascii\<close>) and separates with \<open>", "\<close> and \<open>": "\<close>; \<open>loads\<close> is the
  standard library's strict parser. A number with a fraction or an exponent is kept as its
  text (\<open>JFloat\<close>). The parser carries fuel; \<open>json_value_fuel\<close> shows that the fuel \<open>json_loads\<close>
  gives it is never exhausted, so \<open>JSONDecodeError\<close> is a syntax error and nothing else.
\<close>

section \<open>Values and printing\<close>

datatype json =
    JNull
  | JBool bool
  | JInt int
  | JFloat pystr
  | JStr pystr
  | JList "json list"
  | JObj "(pystr \<times> json) list"

definition u_escape :: "nat \<Rightarrow> pystr" where
  "u_escape c = 92 # 117 # hex_fixed 4 c"

definition json_esc :: "nat \<Rightarrow> pystr" where
  "json_esc c =
     (if c = 34 then [92, 34] else if c = 92 then [92, 92]
      else if c = 10 then [92, 110] else if c = 13 then [92, 114] else if c = 9 then [92, 116]
      else if c = 12 then [92, 102] else if c = 8 then [92, 98]
      else if 32 \<le> c \<and> c \<le> 126 then [c]
      else if c < 0x10000 then u_escape c
      else u_escape (0xD800 + (c - 0x10000) div 1024) @ u_escape (0xDC00 + (c - 0x10000) mod 1024))"

definition dumps_str :: "pystr \<Rightarrow> pystr" where
  "dumps_str s = 34 # concat (map json_esc s) @ [34]"

fun json_dumps :: "json \<Rightarrow> pystr"
  and dumps_elems :: "json list \<Rightarrow> pystr"
  and dumps_pairs :: "(pystr \<times> json) list \<Rightarrow> pystr" where
  "json_dumps JNull = str ''null''"
| "json_dumps (JBool b) = (if b then str ''true'' else str ''false'')"
| "json_dumps (JInt i) = str_of_int i"
| "json_dumps (JFloat t) = t"
| "json_dumps (JStr s) = dumps_str s"
| "json_dumps (JList vs) = 91 # dumps_elems vs @ [93]"
| "json_dumps (JObj ps) = 123 # dumps_pairs ps @ [125]"
| "dumps_elems [] = []"
| "dumps_elems [v] = json_dumps v"
| "dumps_elems (v # w # vs) = json_dumps v @ 44 # 32 # dumps_elems (w # vs)"
| "dumps_pairs [] = []"
| "dumps_pairs [(k, v)] = dumps_str k @ 58 # 32 # json_dumps v"
| "dumps_pairs ((k, v) # p # ps) =
     dumps_str k @ 58 # 32 # json_dumps v @ 44 # 32 # dumps_pairs (p # ps)"

section \<open>Parsing\<close>

fun skip_ws :: "pystr \<Rightarrow> pystr" where
  "skip_ws [] = []"
| "skip_ws (c # s) = (if c = 32 \<or> c = 9 \<or> c = 10 \<or> c = 13 then skip_ws s else c # s)"

definition hex4 :: "pystr \<Rightarrow> (nat \<times> pystr) option" where
  "hex4 s = (if length s < 4 then None
             else case hex_parse 0 (take 4 s) of None \<Rightarrow> None | Some n \<Rightarrow> Some (n, drop 4 s))"

lemma hex4_length: "hex4 s = Some (n, r) \<Longrightarrow> length s = length r + 4"
  by (auto simp: hex4_def split: if_splits option.splits)

definition simple_escape :: "nat \<Rightarrow> nat option" where
  "simple_escape e =
     (if e = 34 then Some 34 else if e = 92 then Some 92 else if e = 47 then Some 47
      else if e = 98 then Some 8 else if e = 102 then Some 12 else if e = 110 then Some 10
      else if e = 114 then Some 13 else if e = 116 then Some 9 else None)"

text \<open>The second half of a surrogate pair, when the text continues with one.\<close>

definition low_surrogate :: "pystr \<Rightarrow> (nat \<times> pystr) option" where
  "low_surrogate s =
     (if take 2 s = [92, 117] then
        (case hex4 (drop 2 s) of
           Some (n, r) \<Rightarrow> if 0xDC00 \<le> n \<and> n \<le> 0xDFFF then Some (n, r) else None
         | None \<Rightarrow> None)
      else None)"

lemma low_surrogate_length: "low_surrogate s = Some (n, r) \<Longrightarrow> length r < length s"
  by (auto simp: low_surrogate_def dest!: hex4_length split: if_splits option.splits)

text \<open>The characters of a string, after its opening quote, up to and with the closing one.\<close>

function (sequential) json_body :: "pystr \<Rightarrow> (pystr \<times> pystr) option" where
  "json_body [] = None"
| "json_body (c # s) =
     (if c = 34 then Some ([], s)
      else if c = 92 then
        (case s of
           [] \<Rightarrow> None
         | e # s' \<Rightarrow>
             if e = 117 then
               (case hex4 s' of
                  None \<Rightarrow> None
                | Some (n, r) \<Rightarrow>
                    (case (if 0xD800 \<le> n \<and> n \<le> 0xDBFF then low_surrogate r else None) of
                       Some (m, r') \<Rightarrow>
                         map_option (apfst (Cons (0x10000 + (n - 0xD800) * 1024 + (m - 0xDC00))))
                           (json_body r')
                     | None \<Rightarrow> map_option (apfst (Cons n)) (json_body r)))
             else (case simple_escape e of
                     None \<Rightarrow> None
                   | Some d \<Rightarrow> map_option (apfst (Cons d)) (json_body s')))
      else if c < 32 then None
      else map_option (apfst (Cons c)) (json_body s))"
  by pat_completeness auto
termination
  by (relation "measure length")
    (auto dest!: hex4_length low_surrogate_length split: if_splits)

definition json_int_part :: "pystr \<Rightarrow> pystr" where
  "json_int_part s =
     (let ds = takeWhile is_digit s in if take 1 ds = [48] then [48] else ds)"

definition json_frac :: "pystr \<Rightarrow> pystr" where
  "json_frac s =
     (let ds = takeWhile is_digit (drop 1 s)
      in if take 1 s = [46] \<and> ds \<noteq> [] then 46 # ds else [])"

definition json_exp :: "pystr \<Rightarrow> pystr" where
  "json_exp s =
     (let sign = (if take 1 (drop 1 s) \<in> {[43], [45]} then take 1 (drop 1 s) else []);
          ds = takeWhile is_digit (drop (1 + length sign) s)
      in if take 1 s \<in> {[101], [69]} \<and> ds \<noteq> [] then take 1 s @ sign @ ds else [])"

definition json_number :: "pystr \<Rightarrow> (json \<times> pystr) option" where
  "json_number s =
     (let neg = (take 1 s = [45]);
          s1 = (if neg then drop 1 s else s);
          ip = json_int_part s1;
          r1 = drop (length ip) s1;
          frac = json_frac r1;
          r2 = drop (length frac) r1;
          expo = json_exp r2;
          r3 = drop (length expo) r2
      in if ip = [] then None
         else if frac = [] \<and> expo = [] then
           Some (JInt (if neg then - int (nat_of_digits ip) else int (nat_of_digits ip)), r3)
         else Some (JFloat ((if neg then [45] else []) @ ip @ frac @ expo), r3))"

definition json_literal :: "pystr \<Rightarrow> (json \<times> pystr) option" where
  "json_literal s =
     (if take 4 s = str ''null'' then Some (JNull, drop 4 s)
      else if take 4 s = str ''true'' then Some (JBool True, drop 4 s)
      else if take 5 s = str ''false'' then Some (JBool False, drop 5 s)
      else if take 3 s = str ''NaN'' then Some (JFloat (str ''NaN''), drop 3 s)
      else if take 8 s = str ''Infinity'' then Some (JFloat (str ''Infinity''), drop 8 s)
      else if take 9 s = str ''-Infinity'' then Some (JFloat (str ''-Infinity''), drop 9 s)
      else None)"

definition dict_of_pairs :: "('k \<times> 'v) list \<Rightarrow> ('k, 'v) dict" where
  "dict_of_pairs ps = foldl (\<lambda>d (k, v). dict_set k v d) [] ps"

fun json_value :: "nat \<Rightarrow> pystr \<Rightarrow> (json \<times> pystr) option"
  and json_elems :: "nat \<Rightarrow> pystr \<Rightarrow> (json list \<times> pystr) option"
  and json_pairs :: "nat \<Rightarrow> pystr \<Rightarrow> ((pystr \<times> json) list \<times> pystr) option" where
  "json_value 0 s = None"
| "json_value (Suc n) s =
     (case s of
        [] \<Rightarrow> None
      | c # r \<Rightarrow>
          if c = 34 then map_option (apfst JStr) (json_body r)
          else if c = 123 then
            (if take 1 (skip_ws r) = [125] then Some (JObj [], drop 1 (skip_ws r))
             else map_option (apfst (JObj \<circ> dict_of_pairs)) (json_pairs n (skip_ws r)))
          else if c = 91 then
            (if take 1 (skip_ws r) = [93] then Some (JList [], drop 1 (skip_ws r))
             else map_option (apfst JList) (json_elems n (skip_ws r)))
          else (case json_literal s of Some x \<Rightarrow> Some x | None \<Rightarrow> json_number s))"
| "json_elems 0 s = None"
| "json_elems (Suc n) s =
     (case json_value n s of
        None \<Rightarrow> None
      | Some (v, r) \<Rightarrow>
          (case skip_ws r of
             [] \<Rightarrow> None
           | c # r' \<Rightarrow>
               if c = 93 then Some ([v], r')
               else if c = 44 then map_option (apfst (Cons v)) (json_elems n (skip_ws r'))
               else None))"
| "json_pairs 0 s = None"
| "json_pairs (Suc n) s =
     (if take 1 s = [34] then
        (case json_body (drop 1 s) of
           None \<Rightarrow> None
         | Some (k, r) \<Rightarrow>
             if take 1 (skip_ws r) = [58] then
               (case json_value n (skip_ws (drop 1 (skip_ws r))) of
                  None \<Rightarrow> None
                | Some (v, r2) \<Rightarrow>
                    (case skip_ws r2 of
                       [] \<Rightarrow> None
                     | c # r3 \<Rightarrow>
                         if c = 125 then Some ([(k, v)], r3)
                         else if c = 44 then map_option (apfst (Cons (k, v))) (json_pairs n (skip_ws r3))
                         else None))
             else None)
      else None)"

definition json_loads :: "pystr \<Rightarrow> json result" where
  "json_loads s =
     (case json_value (2 * length s + 2) (skip_ws s) of
        None \<Rightarrow> Inl JSONDecodeError
      | Some (v, r) \<Rightarrow> if skip_ws r = [] then Inr v else Inl JSONDecodeError)"

section \<open>The fuel is enough\<close>

lemma length_skip_ws: "length (skip_ws s) \<le> length s"
  by (induction s) auto

declare json_body.simps [simp del]

lemma json_body_length: "json_body s = Some (t, r) \<Longrightarrow> length r < length s"
proof (induction s arbitrary: t r rule: length_induct)
  case (1 s)
  have IH: "json_body s' = Some (t', r') \<Longrightarrow> length s' < length s \<longrightarrow> length r' < length s'" for s' t' r'
    using "1.IH" by blast
  show ?case
  proof (cases s)
    case Nil
    with "1.prems" show ?thesis by (simp add: json_body.simps)
  next
    case (Cons c s')
    with "1.prems" show ?thesis
    by (auto simp: json_body.simps split: if_splits list.splits option.splits prod.splits
        dest!: IH hex4_length low_surrogate_length)
  qed
qed

lemma take_eq_length: "take n s = t \<Longrightarrow> 0 < n \<Longrightarrow> t \<noteq> [] \<Longrightarrow> length (drop n s) < length s"
  by (cases s) auto

lemma json_literal_length: "json_literal s = Some (v, r) \<Longrightarrow> length r < length s"
  by (auto simp: json_literal_def str_def split: if_splits dest!: take_eq_length)

lemma json_int_part_nonempty: "json_int_part s \<noteq> [] \<Longrightarrow> s \<noteq> []"
  by (auto simp: json_int_part_def Let_def)

lemma json_number_length: "json_number s = Some (v, r) \<Longrightarrow> length r < length s"
proof -
  assume a: "json_number s = Some (v, r)"
  define s1 where "s1 = (if take 1 s = [45] then drop 1 s else s)"
  from a have "json_int_part s1 \<noteq> []"
    by (auto simp: json_number_def Let_def s1_def split: if_splits)
  moreover from this have "s1 \<noteq> []" by (rule json_int_part_nonempty)
  moreover have "length r \<le> length (drop (length (json_int_part s1)) s1)"
    using a unfolding json_number_def Let_def s1_def [symmetric] by (simp split: if_splits) auto
  moreover have "length s1 \<le> length s" by (simp add: s1_def)
  ultimately show ?thesis
    by (metis diff_less le_less_trans length_drop length_greater_0_conv less_le_trans)
qed

lemma json_value_length_step:
  assumes "\<And>s vs r. json_elems n s = Some (vs, r) \<Longrightarrow> length r < length s"
    and "\<And>s ps r. json_pairs n s = Some (ps, r) \<Longrightarrow> length r < length s"
    and "json_value (Suc n) s = Some (v, r)"
  shows "length r < length s"
proof (cases s)
  case (Cons c s')
  have ws: "length (skip_ws s') \<le> length s'" by (rule length_skip_ws)
  have "length r < length (c # s')" if "json_literal (c # s') = Some (v, r) \<or> json_number (c # s') = Some (v, r)"
    using that json_literal_length json_number_length by blast
  with assms(3) Cons ws show ?thesis
    by (auto split: if_splits option.splits dest!: assms(1,2) json_body_length)
qed (use assms(3) in simp)

lemma json_elems_length_step:
  assumes "\<And>s v r. json_value n s = Some (v, r) \<Longrightarrow> length r < length s"
    and "\<And>s vs r. json_elems n s = Some (vs, r) \<Longrightarrow> length r < length s"
    and "json_elems (Suc n) s = Some (vs, r)"
  shows "length r < length s"
proof -
  from assms(3) obtain v r1 where 1: "json_value n s = Some (v, r1)"
    by (auto split: option.splits)
  from assms(1) [OF 1] have l: "length r1 < length s" .
  obtain c r2 where 2: "skip_ws r1 = c # r2"
    using assms(3) 1 by (auto split: list.splits)
  have l2: "length r2 < length r1" using length_skip_ws [of r1] 2 by simp
  show ?thesis
    using assms(3) 1 2 l l2 length_skip_ws [of r2]
    by (fastforce split: if_splits dest: assms(2))
qed

lemma json_pairs_length_step:
  assumes "\<And>s v r. json_value n s = Some (v, r) \<Longrightarrow> length r < length s"
    and "\<And>s vs r. json_pairs n s = Some (vs, r) \<Longrightarrow> length r < length s"
    and "json_pairs (Suc n) s = Some (ps, r)"
  shows "length r < length s"
proof -
  from assms(3) obtain k r0 where 0: "json_body (drop 1 s) = Some (k, r0)"
    by (auto split: option.splits if_splits)
  have l0: "length r0 < length s" using json_body_length [OF 0] by simp
  from assms(3) 0 obtain v r1 where
    1: "json_value n (skip_ws (drop 1 (skip_ws r0))) = Some (v, r1)"
    by (auto split: option.splits if_splits)
  have l1: "length r1 < length r0"
    using assms(1) [OF 1] length_skip_ws [of "drop 1 (skip_ws r0)"] length_skip_ws [of r0] by simp
  obtain c r2 where 2: "skip_ws r1 = c # r2"
    using assms(3) 0 1 by (auto split: list.splits if_splits)
  have l2: "length r2 < length r1" using length_skip_ws [of r1] 2 by simp
  show ?thesis
    using assms(3) 0 1 2 l0 l1 l2 length_skip_ws [of r2]
    by (fastforce split: if_splits dest: assms(2))
qed

lemma json_parser_length:
  "(\<forall>s v r. json_value n s = Some (v, r) \<longrightarrow> length r < length s) \<and>
   (\<forall>s vs r. json_elems n s = Some (vs, r) \<longrightarrow> length r < length s) \<and>
   (\<forall>s ps r. json_pairs n s = Some (ps, r) \<longrightarrow> length r < length s)"
proof (induction n)
  case (Suc n)
  then show ?case
    using json_value_length_step [of n] json_elems_length_step [of n] json_pairs_length_step [of n]
    by blast
qed simp

lemma json_value_rest: "json_value n s = Some (v, r) \<Longrightarrow> length r < length s"
  using json_parser_length by blast

lemma json_elems_fuel_step:
  assumes V: "json_value (Suc n) s = json_value n s"
    and E: "\<And>t. length t < length s \<Longrightarrow> json_elems (Suc n) t = json_elems n t"
  shows "json_elems (Suc (Suc n)) s = json_elems (Suc n) s"
proof (cases "json_value n s")
  case (Some p)
  obtain v r where p: "p = (v, r)" by (cases p)
  from Some p have l: "length r < length s" by (simp add: json_value_rest)
  show ?thesis
  proof (cases "skip_ws r")
    case (Cons c r')
    have "length (skip_ws r') < length s"
      using l Cons length_skip_ws [of r] length_skip_ws [of r'] by simp
    then show ?thesis
      using E V Some p Cons by (simp only: json_elems.simps) simp
  qed (use V Some p in \<open>simp only: json_elems.simps option.case prod.case list.case\<close>)
qed (use V in \<open>simp only: json_elems.simps option.case\<close>)

lemma json_pairs_fuel_step:
  assumes V: "\<And>t. length t < length s \<Longrightarrow> json_value (Suc n) t = json_value n t"
    and E: "\<And>t. length t < length s \<Longrightarrow> json_pairs (Suc n) t = json_pairs n t"
  shows "json_pairs (Suc (Suc n)) s = json_pairs (Suc n) s"
proof (cases "json_body (drop 1 s)")
  case (Some p)
  obtain k r where p: "p = (k, r)" by (cases p)
  let ?t = "skip_ws (drop 1 (skip_ws r))"
  have l: "length r < length s" using json_body_length Some p by fastforce
  have lt: "length ?t < length s"
    using l length_skip_ws [of "drop 1 (skip_ws r)"] length_skip_ws [of r] by simp
  show ?thesis
  proof (cases "json_value n ?t")
    case (Some q)
    obtain v r1 where q: "q = (v, r1)" by (cases q)
    from Some q have l1: "length r1 < length s" using lt json_value_rest by fastforce
    show ?thesis
    proof (cases "skip_ws r1")
      case (Cons c r')
      have "length (skip_ws r') < length s"
        using l1 Cons length_skip_ws [of r1] length_skip_ws [of r'] by simp
      then show ?thesis
        using E V [OF lt] \<open>json_body (drop 1 s) = Some p\<close> p Some q Cons
        by (simp only: json_pairs.simps) simp
    qed (use V [OF lt] \<open>json_body (drop 1 s) = Some p\<close> p Some q in
        \<open>simp only: json_pairs.simps option.case prod.case list.case\<close>)
  qed (use V [OF lt] \<open>json_body (drop 1 s) = Some p\<close> p in
      \<open>simp only: json_pairs.simps option.case prod.case\<close>)
qed (simp only: json_pairs.simps option.case)

lemma json_value_fuel_step:
  assumes E: "\<And>t. length t < length s \<Longrightarrow> json_elems (Suc n) t = json_elems n t"
    and P: "\<And>t. length t < length s \<Longrightarrow> json_pairs (Suc n) t = json_pairs n t"
  shows "json_value (Suc (Suc n)) s = json_value (Suc n) s"
proof (cases s)
  case (Cons c r)
  have "length (skip_ws r) < length s" using Cons length_skip_ws [of r] by simp
  then show ?thesis using E P Cons by (simp only: json_value.simps list.case)
qed (simp only: json_value.simps list.case)

lemma json_fuel:
  "(\<forall>s. 2 * length s < n \<longrightarrow> json_value (Suc n) s = json_value n s) \<and>
   (\<forall>s. 2 * length s + 1 < n \<longrightarrow> json_elems (Suc n) s = json_elems n s) \<and>
   (\<forall>s. 2 * length s + 1 < n \<longrightarrow> json_pairs (Suc n) s = json_pairs n s)"
proof (induction n)
  case (Suc n)
  have "json_value (Suc (Suc n)) s = json_value (Suc n) s" if "2 * length s < Suc n" for s
    by (rule json_value_fuel_step) (use that Suc.IH in auto)
  moreover have "json_elems (Suc (Suc n)) s = json_elems (Suc n) s" if "2 * length s + 1 < Suc n" for s
    by (rule json_elems_fuel_step) (use that Suc.IH in auto)
  moreover have "json_pairs (Suc (Suc n)) s = json_pairs (Suc n) s" if "2 * length s + 1 < Suc n" for s
    by (rule json_pairs_fuel_step) (use that Suc.IH in auto)
  ultimately show ?case by blast
qed simp

lemma json_value_fuel:
  assumes "2 * length s < n" "n \<le> m"
  shows "json_value m s = json_value n s"
  using assms(2)
proof (induction rule: dec_induct)
  case (step k)
  then show ?case using json_fuel [of k] assms(1) by simp
qed simp

section \<open>Round trip\<close>

lemma hex4_fixed: "c < 0x10000 \<Longrightarrow> hex4 (hex_fixed 4 c @ r) = Some (c, r)"
  by (simp add: hex4_def hex_parse_fixed)

lemma json_body_u_escape:
  assumes "c < 0x10000" "\<not> (0xD800 \<le> c \<and> c \<le> 0xDBFF)"
  shows "json_body (u_escape c @ r) = map_option (apfst (Cons c)) (json_body r)"
  using assms by (auto simp: u_escape_def json_body.simps hex4_fixed)

lemma json_body_pair:
  assumes "hi < 0x400" "lo < 0x400"
  shows "json_body (u_escape (0xD800 + hi) @ u_escape (0xDC00 + lo) @ r) =
    map_option (apfst (Cons (0x10000 + hi * 1024 + lo))) (json_body r)"
proof -
  have "low_surrogate (u_escape (0xDC00 + lo) @ r) = Some (0xDC00 + lo, r)"
    using assms by (simp add: low_surrogate_def u_escape_def hex4_fixed)
  then show ?thesis using assms
    by (simp add: u_escape_def [of "0xD800 + hi"] json_body.simps(2) hex4_fixed)
qed

lemma json_body_simple:
  "simple_escape e = Some d \<Longrightarrow> e \<noteq> 117 \<Longrightarrow>
     json_body (92 # e # r) = map_option (apfst (Cons d)) (json_body r)"
  by (simp add: json_body.simps)

lemma json_body_plain:
  "32 \<le> c \<Longrightarrow> c \<noteq> 34 \<Longrightarrow> c \<noteq> 92 \<Longrightarrow> json_body (c # r) = map_option (apfst (Cons c)) (json_body r)"
  by (simp add: json_body.simps)

lemma json_body_esc:
  assumes "is_scalar c"
  shows "json_body (json_esc c @ r) = map_option (apfst (Cons c)) (json_body r)"
proof (cases "c < 0x10000")
  case True
  then have ns: "\<not> (0xD800 \<le> c \<and> c \<le> 0xDBFF)" using assms by (auto simp: is_scalar_def)
  show ?thesis
    using json_body_u_escape [OF True ns, of r] True
    by (simp add: json_esc_def json_body_simple json_body_plain simple_escape_def)
next
  case False
  let ?n = "c - 0x10000"
  have n: "?n < 0x100000" using assms False by (auto simp: is_scalar_def)
  have hi: "?n div 1024 < 0x400" using n by (simp add: div_less_iff_less_mult)
  have lo: "?n mod 1024 < 0x400" by simp
  have c: "0x10000 + ?n div 1024 * 1024 + ?n mod 1024 = c" using False by simp
  have "json_esc c = u_escape (0xD800 + ?n div 1024) @ u_escape (0xDC00 + ?n mod 1024)"
    using False by (simp add: json_esc_def)
  then show ?thesis using json_body_pair [OF hi lo, of r] c by simp
qed

lemma json_body_str:
  "list_all is_scalar s \<Longrightarrow> json_body (concat (map json_esc s) @ 34 # r) = Some (s, r)"
  by (induction s) (simp_all add: json_body.simps json_body_esc)

definition delim :: "pystr \<Rightarrow> bool" where
  "delim s \<longleftrightarrow> s = [] \<or> hd s \<in> {44, 93, 125}"

lemma delim_digits: "delim r \<Longrightarrow> list_all is_digit ds \<Longrightarrow> takeWhile is_digit (ds @ r) = ds"
  by (cases r) (auto simp: delim_def is_digit_def list_all_iff takeWhile_append)

lemma json_int_part_digits:
  assumes "delim r"
  shows "json_int_part (dec_digits n @ r) = dec_digits n"
proof (cases "n = 0")
  case True
  with assms show ?thesis
    by (cases r) (auto simp: json_int_part_def delim_def is_digit_def)
next
  case False
  then have "take 1 (dec_digits n) \<noteq> [48]"
    using hd_dec_digits_pos [of n] by (cases "dec_digits n") auto
  with assms show ?thesis by (simp add: json_int_part_def delim_digits dec_digits_digit)
qed

lemma json_frac_delim: "delim r \<Longrightarrow> json_frac r = []" "delim r \<Longrightarrow> json_exp r = []"
  by (cases r; auto simp: json_frac_def json_exp_def delim_def Let_def)+

lemma dec_digits_hd: "\<exists>d t. dec_digits n = d # t \<and> is_digit d"
  using dec_digits_digit [of n] by (cases "dec_digits n") (auto simp: list_all_iff)

lemma json_number_int:
  assumes "delim r"
  shows "json_number (str_of_int i @ r) = Some (JInt i, r)"
proof (cases "i < 0")
  case True
  with assms show ?thesis
    by (simp add: json_number_def str_of_int_def str_of_nat_def json_int_part_digits
        json_frac_delim nat_of_dec_digits)
next
  case False
  have "take 1 (dec_digits (nat i) @ r) \<noteq> [45]"
    using dec_digits_hd [of "nat i"] by (auto simp: is_digit_def)
  with False assms show ?thesis
    by (simp add: json_number_def str_of_int_def str_of_nat_def json_int_part_digits
        json_frac_delim nat_of_dec_digits)
qed

lemma json_literal_int: "json_literal (str_of_int i @ r) = None"
proof -
  obtain d t where d: "dec_digits (nat i) = d # t" "is_digit d" using dec_digits_hd by blast
  obtain e u where e: "dec_digits (nat (- i)) = e # u" "is_digit e" using dec_digits_hd by blast
  show ?thesis using d e
    by (auto simp: json_literal_def str_of_int_def str_of_nat_def str_def is_digit_def)
qed

lemma str_of_int_hd: "\<exists>c t. str_of_int i = c # t \<and> (is_digit c \<or> c = 45)"
  using dec_digits_hd [of "nat i"] by (auto simp: str_of_int_def str_of_nat_def)

fun json_ok :: "json \<Rightarrow> bool" where
  "json_ok (JFloat t) = False"
| "json_ok (JStr s) = list_all is_scalar s"
| "json_ok (JList vs) = list_all json_ok vs"
| "json_ok (JObj ps) = (distinct (map fst ps) \<and> list_all (\<lambda>(k, v). list_all is_scalar k \<and> json_ok v) ps)"
| "json_ok _ = True"

lemma dumps_hd:
  "json_ok v \<Longrightarrow> \<exists>c t. json_dumps v = c # t \<and> c \<notin> {32, 9, 10, 13, 44, 93, 125}"
proof (cases v)
  case (JInt i)
  then show ?thesis using str_of_int_hd [of i] by (auto simp: is_digit_def)
qed (auto simp: str_def dumps_str_def)

lemma skip_ws_dumps: "json_ok v \<Longrightarrow> skip_ws (json_dumps v @ r) = json_dumps v @ r"
  using dumps_hd by force

lemma json_value_other:
  "c \<notin> {34, 123, 91} \<Longrightarrow> json_value (Suc n) (c # s) =
     (case json_literal (c # s) of Some x \<Rightarrow> Some x | None \<Rightarrow> json_number (c # s))"
  by simp

lemma json_value_int:
  assumes "delim r"
  shows "json_value (Suc n) (str_of_int i @ r) = Some (JInt i, r)"
proof -
  obtain c t where c: "str_of_int i @ r = c # t" "is_digit c \<or> c = 45"
    using str_of_int_hd [of i] by auto
  have "json_value (Suc n) (c # t) =
      (case json_literal (c # t) of Some x \<Rightarrow> Some x | None \<Rightarrow> json_number (c # t))"
    by (rule json_value_other) (use c(2) in \<open>auto simp: is_digit_def\<close>)
  then show ?thesis
    by (simp only: c(1) [symmetric] json_literal_int json_number_int [OF assms] option.case)
qed

lemma json_value_str:
  "list_all is_scalar s \<Longrightarrow> json_value (Suc n) (dumps_str s @ r) = Some (JStr s, r)"
  by (simp add: dumps_str_def json_body_str)

lemma dict_of_pairs_distinct:
  assumes "distinct (map fst ps)"
  shows "dict_of_pairs ps = ps"
proof -
  have "foldl (\<lambda>d (k, v). dict_set k v d) acc ps = acc @ ps"
    if "distinct (map fst (acc @ ps))" for acc :: "('a \<times> 'b) list" and ps
    using that
  proof (induction ps arbitrary: acc)
    case (Cons p ps)
    obtain k v where p: "p = (k, v)" by (cases p)
    have "k \<notin> set (map fst acc)" using Cons.prems p by auto
    then have "dict_set k v acc = acc @ [(k, v)]"
      by (induction acc) auto
    with Cons p show ?case by simp
  qed simp
  with assms show ?thesis by (simp add: dict_of_pairs_def)
qed

lemma json_elems_last:
  assumes "json_value n (t @ 93 # r) = Some (v, 93 # r)"
  shows "json_elems (Suc n) (t @ 93 # r) = Some ([v], r)"
  using assms by simp

lemma json_elems_more:
  assumes "json_value n (t @ 44 # 32 # u) = Some (v, 44 # 32 # u)" "skip_ws u = u"
    "json_elems n u = Some (vs, r)"
  shows "json_elems (Suc n) (t @ 44 # 32 # u) = Some (v # vs, r)"
  using assms by simp

lemma json_pairs_one:
  assumes "list_all is_scalar k" "skip_ws t = t" "json_value n t = Some (v, 125 # r)"
  shows "json_pairs (Suc n) (dumps_str k @ 58 # 32 # t) = Some ([(k, v)], r)"
  using assms by (simp add: dumps_str_def json_body_str)

lemma json_pairs_more:
  assumes "list_all is_scalar k" "skip_ws t = t" "json_value n t = Some (v, 44 # 32 # u)"
    "skip_ws u = u" "json_pairs n u = Some (ps, r)"
  shows "json_pairs (Suc n) (dumps_str k @ 58 # 32 # t) = Some ((k, v) # ps, r)"
  using assms by (simp add: dumps_str_def json_body_str)

lemma json_value_list:
  assumes "skip_ws t = t" "take 1 t \<noteq> [93]" "json_elems n t = Some (vs, r)"
  shows "json_value (Suc n) (91 # t) = Some (JList vs, r)"
  using assms by simp

lemma json_value_obj:
  assumes "skip_ws t = t" "take 1 t \<noteq> [125]" "json_pairs n t = Some (ps, r)" "distinct (map fst ps)"
  shows "json_value (Suc n) (123 # t) = Some (JObj ps, r)"
  using assms by (simp add: dict_of_pairs_distinct)

lemma dumps_elems_hd:
  "vs \<noteq> [] \<Longrightarrow> list_all json_ok vs \<Longrightarrow>
     \<exists>c t. dumps_elems vs = c # t \<and> c \<notin> {32, 9, 10, 13, 44, 93, 125}"
  by (cases vs rule: dumps_elems.cases) (auto dest!: dumps_hd)

lemma dumps_pairs_hd: "ps \<noteq> [] \<Longrightarrow> \<exists>t. dumps_pairs ps = 34 # t"
  by (cases ps rule: dumps_pairs.cases) (auto simp: dumps_str_def)

lemma delim_simps [simp]: "delim []" "delim (44 # s)" "delim (93 # s)" "delim (125 # s)"
  by (auto simp: delim_def)

abbreviation pair_ok :: "pystr \<times> json \<Rightarrow> bool" where
  "pair_ok \<equiv> \<lambda>(k, v). list_all is_scalar k \<and> json_ok v"

lemma json_roundtrip_mutual:
  "json_ok v \<Longrightarrow> delim r \<Longrightarrow> 2 * length (json_dumps v) \<le> n \<Longrightarrow>
     json_value (Suc n) (json_dumps v @ r) = Some (v, r)"
  "vs \<noteq> [] \<Longrightarrow> list_all json_ok vs \<Longrightarrow> 2 * length (dumps_elems vs) + 1 \<le> n \<Longrightarrow>
     json_elems (Suc n) (dumps_elems vs @ 93 # r) = Some (vs, r)"
  "ps \<noteq> [] \<Longrightarrow> list_all pair_ok ps \<Longrightarrow> 2 * length (dumps_pairs ps) + 1 \<le> n \<Longrightarrow>
     json_pairs (Suc n) (dumps_pairs ps @ 125 # r) = Some (ps, r)"
proof (induction v and vs and ps arbitrary: n r and n r and n r
    rule: json_dumps_dumps_elems_dumps_pairs.induct)
  case 1
  then show ?case by (simp add: json_literal_def str_def)
next
  case (2 b)
  then show ?case by (simp add: json_literal_def str_def)
next
  case (3 i)
  then show ?case using json_value_int by (simp del: json_value.simps)
next
  case (4 t)
  then show ?case by simp
next
  case (5 s)
  then show ?case using json_value_str by (simp del: json_value.simps)
next
  case (6 vs)
  show ?case
  proof (cases "vs = []")
    case False
    obtain m where n: "n = Suc m" using "6.prems" by (cases n) auto
    obtain c t where c: "dumps_elems vs = c # t" "c \<notin> {32, 9, 10, 13, 44, 93, 125}"
      using dumps_elems_hd [OF False] "6.prems" by auto
    have "json_elems n (dumps_elems vs @ 93 # r) = Some (vs, r)"
      unfolding n using "6.IH" [OF False, of m r] "6.prems" n by simp
    with c show ?thesis
      using json_value_list [of "dumps_elems vs @ 93 # r" n vs r] by (auto simp del: json_value.simps)
  qed simp
next
  case (7 ps)
  show ?case
  proof (cases "ps = []")
    case False
    obtain m where n: "n = Suc m" using "7.prems" by (cases n) auto
    obtain t where c: "dumps_pairs ps = 34 # t"
      using dumps_pairs_hd [OF False] by auto
    have "json_pairs n (dumps_pairs ps @ 125 # r) = Some (ps, r)"
      unfolding n using "7.IH" [OF False, of m r] "7.prems" n by simp
    with c "7.prems" show ?thesis
      using json_value_obj [of "dumps_pairs ps @ 125 # r" n ps r] by (simp del: json_value.simps)
  qed simp
next
  case 8
  then show ?case by simp
next
  case (9 v)
  obtain m where n: "n = Suc m" using "9.prems" by (cases n) auto
  have "json_value n (json_dumps v @ 93 # r) = Some (v, 93 # r)"
    unfolding n using "9.IH" [of "93 # r" m] "9.prems" n by (simp del: json_value.simps)
  then show ?case using json_elems_last by (simp del: json_elems.simps)
next
  case (10 v w vs)
  obtain m where n: "n = Suc m" using "10.prems" by (cases n) auto
  let ?u = "dumps_elems (w # vs) @ 93 # r"
  have v: "json_value n (json_dumps v @ 44 # 32 # ?u) = Some (v, 44 # 32 # ?u)"
    unfolding n using "10.IH"(1) [of "44 # 32 # ?u" m] "10.prems" n by (simp del: json_value.simps)
  have e: "json_elems n ?u = Some (w # vs, r)"
    unfolding n using "10.IH"(2) [of m r] "10.prems" n by (simp del: json_elems.simps)
  have "skip_ws ?u = ?u" using dumps_elems_hd [of "w # vs"] "10.prems" by auto
  then show ?case using json_elems_more [OF v _ e] by (simp del: json_elems.simps)
next
  case 11
  then show ?case by simp
next
  case (12 k v)
  obtain m where n: "n = Suc m" using "12.prems" by (cases n) auto
  have v: "json_value n (json_dumps v @ 125 # r) = Some (v, 125 # r)"
    unfolding n using "12.IH" [of "125 # r" m] "12.prems" n by (simp del: json_value.simps)
  have ws: "skip_ws (json_dumps v @ 125 # r) = json_dumps v @ 125 # r"
    using skip_ws_dumps "12.prems" by simp
  show ?case using json_pairs_one [OF _ ws v] "12.prems" by (simp del: json_pairs.simps)
next
  case (13 k v p ps)
  obtain m where n: "n = Suc m" using "13.prems" by (cases n) auto
  let ?u = "dumps_pairs (p # ps) @ 125 # r"
  have v: "json_value n (json_dumps v @ 44 # 32 # ?u) = Some (v, 44 # 32 # ?u)"
    unfolding n using "13.IH"(1) [of "44 # 32 # ?u" m] "13.prems" n by (simp del: json_value.simps)
  have e: "json_pairs n ?u = Some (p # ps, r)"
    unfolding n using "13.IH"(2) [of m r] "13.prems" n by (simp del: json_pairs.simps)
  have ws: "skip_ws (json_dumps v @ 44 # 32 # ?u) = json_dumps v @ 44 # 32 # ?u"
    using skip_ws_dumps "13.prems" by simp
  have wu: "skip_ws ?u = ?u" using dumps_pairs_hd [of "p # ps"] by auto
  show ?case using json_pairs_more [OF _ ws v wu e] "13.prems" by (simp del: json_pairs.simps)
qed

lemma json_roundtrip: "json_ok v \<Longrightarrow> json_loads (json_dumps v) = Inr v"
  using json_roundtrip_mutual(1) [of v "[]" "2 * length (json_dumps v) + 1"] skip_ws_dumps [of v "[]"]
  by (simp add: json_loads_def del: json_value.simps)

lemma json_esc_ascii: "x \<in> set (json_esc c) \<Longrightarrow> x < 128"
  by (auto simp: json_esc_def u_escape_def split: if_splits dest!: hex_fixed_ascii)

lemma dumps_str_ascii: "x \<in> set (dumps_str s) \<Longrightarrow> x < 128"
  by (auto simp: dumps_str_def dest: json_esc_ascii)

lemma dumps_ascii_mutual:
  "json_ok v \<Longrightarrow> x \<in> set (json_dumps v) \<Longrightarrow> x < 128"
  "list_all json_ok vs \<Longrightarrow> x \<in> set (dumps_elems vs) \<Longrightarrow> x < 128"
  "list_all pair_ok ps \<Longrightarrow> x \<in> set (dumps_pairs ps) \<Longrightarrow> x < 128"
  by (induction v and vs and ps rule: json_dumps_dumps_elems_dumps_pairs.induct)
    (auto simp: str_def dest: str_of_int_ascii dumps_str_ascii split: if_splits)

lemma utf8_dumps: "json_ok v \<Longrightarrow> utf8_encode (json_dumps v) = Inr (json_dumps v)"
  by (rule utf8_encode_ascii) (blast dest: dumps_ascii_mutual(1))

lemma utf8_decode_dumps: "json_ok v \<Longrightarrow> utf8_decode (json_dumps v) = Inr (json_dumps v)"
  using utf8_dumps utf8_roundtrip by blast

end
