(* ===== verification/SSTable.thy ===== *)
theory SSTable
  imports Py_Json MemTable
begin

text \<open>
  \<open>sstable.py\<close>: the Bloom filter, and the immutable sorted table on disk.

  A table is the byte string of its file. \<open>sst_write\<close> is \<open>SSTableWriter.write\<close>: data block, sparse
  index (one key in sixteen, as JSON), Bloom filter and footer. \<open>sst_load\<close> is
  \<open>SSTableReader._load_metadata\<close>; \<open>sst_get\<close>, \<open>sst_scan\<close> and \<open>sst_iter_all\<close> read the file from a
  position, as the methods do with \<open>seek\<close>, \<open>tell\<close> and \<open>read\<close>.

  The lemmas: a key that was added is never reported absent by the filter; what is written is read
  back, entry by entry, from any entry boundary; and a point lookup through filter and sparse
  index returns exactly what the sorted items hold.
\<close>

section \<open>Bloom filter\<close>

record bloom =
  bf_bits :: bytes
  bf_size :: nat
  bf_num_hashes :: nat

definition bloom_new :: "nat \<Rightarrow> nat \<Rightarrow> bloom" where
  "bloom_new size_bits num_hashes =
     \<lparr>bf_bits = replicate (size_bits div 8 + 1) 0, bf_size = size_bits, bf_num_hashes = num_hashes\<rparr>"

definition bloom_seed :: "nat \<Rightarrow> 32 word" where
  "bloom_seed seed = of_nat (seed * 0x9e3779b9)"

definition hash_positions :: "bloom \<Rightarrow> pystr \<Rightarrow> nat list result" where
  "hash_positions bf key =
     bindE (utf8_encode key) (\<lambda>kb.
       if bf_size bf = 0 \<and> bf_num_hashes bf > 0 then Inl ZeroDivision
       else Inr (map (\<lambda>seed. crc32_from (bloom_seed seed) kb mod bf_size bf) [0..<bf_num_hashes bf]))"

definition set_bit_at :: "bytes \<Rightarrow> nat \<Rightarrow> bytes" where
  "set_bit_at bits pos = bits[pos div 8 := bits ! (pos div 8) OR 2 ^ (pos mod 8)]"

definition bloom_add :: "bloom \<Rightarrow> pystr \<Rightarrow> bloom result" where
  "bloom_add bf key =
     bindE (hash_positions bf key) (\<lambda>ps.
       if list_all (\<lambda>p. p div 8 < length (bf_bits bf)) ps
       then Inr (bf\<lparr>bf_bits := foldl set_bit_at (bf_bits bf) ps\<rparr>)
       else Inl IndexError)"

text \<open>The loop of \<open>might_contain\<close>: the first position whose bit is clear answers.\<close>

fun bits_all_set :: "bytes \<Rightarrow> nat list \<Rightarrow> bool result" where
  "bits_all_set bits [] = Inr True"
| "bits_all_set bits (p # ps) =
     (if p div 8 < length bits
      then if bit (bits ! (p div 8)) (p mod 8) then bits_all_set bits ps else Inr False
      else Inl IndexError)"

definition might_contain :: "bloom \<Rightarrow> pystr \<Rightarrow> bool result" where
  "might_contain bf key = bindE (hash_positions bf key) (\<lambda>ps. bits_all_set (bf_bits bf) ps)"

definition bloom_to_bytes :: "bloom \<Rightarrow> bytes result" where
  "bloom_to_bytes bf =
     bindE (pack_be 4 (bf_size bf)) (\<lambda>s.
     bindE (pack_be 4 (bf_num_hashes bf)) (\<lambda>n.
     Inr (s @ n @ bf_bits bf)))"

definition bloom_from_bytes :: "bytes \<Rightarrow> bloom result" where
  "bloom_from_bytes data =
     (if length data < 8 then Inl StructError
      else Inr \<lparr>bf_bits = drop 8 data, bf_size = unpack_be (take 4 data),
                bf_num_hashes = unpack_be (py_slice 4 8 data)\<rparr>)"

section \<open>Writer\<close>

definition MAGIC :: bytes where
  "MAGIC = str ''LITEDB01''"

definition INDEX_INTERVAL :: nat where
  "INDEX_INTERVAL = 16"

definition encode_entry :: "pystr \<Rightarrow> pystr \<Rightarrow> bytes result" where
  "encode_entry key value =
     bindE (utf8_encode key) (\<lambda>kb.
     bindE (utf8_encode value) (\<lambda>vb.
     bindE (pack_be 2 (length kb)) (\<lambda>kl.
     bindE (pack_be 4 (length vb)) (\<lambda>vl.
     Inr (kl @ kb @ vl @ vb)))))"

text \<open>The loop over \<open>enumerate(sorted_items)\<close>: file so far, sparse index, filter.\<close>

fun write_entries ::
  "nat \<Rightarrow> (pystr \<times> pystr) list \<Rightarrow> bytes \<Rightarrow> (pystr \<times> nat) list \<Rightarrow> bloom \<Rightarrow>
     (bytes \<times> (pystr \<times> nat) list \<times> bloom) result" where
  "write_entries i [] f idx bf = Inr (f, idx, bf)"
| "write_entries i ((key, value) # items) f idx bf =
     (let idx' = (if i mod INDEX_INTERVAL = 0 then idx @ [(key, length f)] else idx) in
      bindE (bloom_add bf key) (\<lambda>bf'.
      bindE (encode_entry key value) (\<lambda>e.
      write_entries (Suc i) items (f @ e) idx' bf')))"

definition index_json :: "(pystr \<times> nat) list \<Rightarrow> json" where
  "index_json idx = JList (map (\<lambda>(k, off). JList [JStr k, JInt (int off)]) idx)"

definition sst_write :: "(pystr \<times> pystr) list \<Rightarrow> bytes result" where
  "sst_write items =
     bindE (write_entries 0 items [] [] (bloom_new 10000 3)) (\<lambda>(data, idx, bf).
     bindE (utf8_encode (json_dumps (index_json idx))) (\<lambda>index_data.
     bindE (pack_be 4 (length index_data)) (\<lambda>index_len.
     bindE (bloom_to_bytes bf) (\<lambda>bloom_data.
     bindE (pack_be 4 (length bloom_data)) (\<lambda>bloom_len.
     bindE (pack_be 8 (length data)) (\<lambda>index_offset.
     bindE (pack_be 4 (length items)) (\<lambda>entry_count.
     bindE (pack_be 8 (length data + 4 + length index_data)) (\<lambda>bloom_offset.
     Inr (data @ index_len @ index_data @ bloom_len @ bloom_data @
          index_offset @ index_len @ entry_count @ bloom_offset @ MAGIC)))))))))"

section \<open>Reader\<close>

record reader =
  rd_index :: "(pystr \<times> nat) list"
  rd_bloom :: bloom
  rd_entry_count :: nat
  rd_index_offset :: nat
  rd_bloom_offset :: nat

definition FOOTER_SIZE :: nat where
  "FOOTER_SIZE = 8 + 4 + 4 + 8 + 8"

text \<open>
  The pairs of the index: each element of the JSON list is a key and an offset. (The source unpacks
  them when a lookup walks the index; here it is done once, when the index is loaded.)
\<close>

fun index_pairs :: "json list \<Rightarrow> (pystr \<times> nat) list result" where
  "index_pairs [] = Inr []"
| "index_pairs (j # js) =
     (case j of
        JList [JStr k, JInt off] \<Rightarrow>
          if off < 0 then Inl ValueError else bindE (index_pairs js) (\<lambda>r. Inr ((k, nat off) # r))
      | _ \<Rightarrow> Inl ValueError)"

definition index_of_json :: "json \<Rightarrow> (pystr \<times> nat) list result" where
  "index_of_json j = (case j of JList js \<Rightarrow> index_pairs js | _ \<Rightarrow> Inl TypeErr)"

text \<open>A block with a 4-byte length at a position of the file.\<close>

definition read_block :: "bytes \<Rightarrow> nat \<Rightarrow> bytes result" where
  "read_block f pos =
     (let lb = py_slice pos (pos + 4) f in
      if length lb < 4 then Inl StructError
      else Inr (take (unpack_be lb) (drop (pos + 4) f)))"

definition sst_load :: "bytes \<Rightarrow> reader result" where
  "sst_load f =
     (if length f < FOOTER_SIZE then Inl OSErr
      else
        let footer = drop (length f - FOOTER_SIZE) f in
        if drop 24 footer \<noteq> MAGIC then Inl ValueError
        else
          let index_offset = unpack_be (py_slice 0 8 footer);
              entry_count = unpack_be (py_slice 12 16 footer);
              bloom_offset = unpack_be (py_slice 16 24 footer) in
          bindE (read_block f index_offset) (\<lambda>index_data.
          bindE (utf8_decode index_data) (\<lambda>text.
          bindE (json_loads text) (\<lambda>j.
          bindE (index_of_json j) (\<lambda>idx.
          bindE (read_block f bloom_offset) (\<lambda>bloom_data.
          bindE (bloom_from_bytes bloom_data) (\<lambda>bf.
          Inr \<lparr>rd_index = idx, rd_bloom = bf, rd_entry_count = entry_count,
               rd_index_offset = index_offset, rd_bloom_offset = bloom_offset\<rparr>)))))))"

text \<open>
  \<open>_read_entry\<close> at position \<open>pos\<close>: the entry and the position after it; \<open>None\<close> when the file ends
  inside a length field.
\<close>

definition read_entry :: "bytes \<Rightarrow> nat \<Rightarrow> ((pystr \<times> pystr) \<times> nat) option result" where
  "read_entry f pos =
     (let kl = py_slice pos (pos + 2) f in
      if length kl < 2 then Inr None
      else
        let key_len = unpack_be kl;
            kb = take key_len (drop (pos + 2) f);
            p2 = pos + 2 + length kb in
        bindE (utf8_decode kb) (\<lambda>key.
        let vl = py_slice p2 (p2 + 4) f in
        if length vl < 4 then Inr None
        else
          let vb = take (unpack_be vl) (drop (p2 + 4) f) in
          bindE (utf8_decode vb) (\<lambda>value. Inr (Some ((key, value), p2 + 4 + length vb)))))"

lemma read_entry_advances: "read_entry f pos = Inr (Some (e, p)) \<Longrightarrow> pos < p"
  by (auto simp: read_entry_def Let_def split: if_splits)

text \<open>The choice of the start position: the last index key not above the searched one.\<close>

fun start_offset :: "(pystr \<times> nat) list \<Rightarrow> pystr \<Rightarrow> nat \<Rightarrow> nat" where
  "start_offset [] key off = off"
| "start_offset ((idx_key, idx_offset) # idx) key off =
     (if idx_key \<le> key then start_offset idx key idx_offset else off)"

function get_loop :: "bytes \<Rightarrow> nat \<Rightarrow> pystr \<Rightarrow> nat \<Rightarrow> pystr option result" where
  "get_loop f stop key pos =
     (if pos < stop then
        (case read_entry f pos of
           Inl err \<Rightarrow> Inl err
         | Inr None \<Rightarrow> Inr None
         | Inr (Some ((k, v), p)) \<Rightarrow>
             if k = key then Inr (Some v)
             else if key < k then Inr None
             else get_loop f stop key p)
      else Inr None)"
  by pat_completeness auto
termination
  by (relation "measure (\<lambda>(f, stop, key, pos). stop - pos)") (auto dest: read_entry_advances)

declare get_loop.simps [simp del]

definition sst_get :: "reader \<Rightarrow> bytes \<Rightarrow> pystr \<Rightarrow> pystr option result" where
  "sst_get rd f key =
     bindE (might_contain (rd_bloom rd) key) (\<lambda>b.
       if \<not> b then Inr None
       else get_loop f (rd_index_offset rd) key (start_offset (rd_index rd) key 0))"

function scan_loop ::
  "bytes \<Rightarrow> nat \<Rightarrow> pystr \<Rightarrow> pystr \<Rightarrow> nat \<Rightarrow> (pystr \<times> pystr) list result" where
  "scan_loop f stop start_key end_key pos =
     (if pos < stop then
        (case read_entry f pos of
           Inl err \<Rightarrow> Inl err
         | Inr None \<Rightarrow> Inr []
         | Inr (Some ((k, v), p)) \<Rightarrow>
             if k < start_key then scan_loop f stop start_key end_key p
             else if end_key < k then Inr []
             else bindE (scan_loop f stop start_key end_key p) (\<lambda>r. Inr ((k, v) # r)))
      else Inr [])"
  by pat_completeness auto
termination
  by (relation "measure (\<lambda>(f, stop, a, b, pos). stop - pos)") (auto dest: read_entry_advances)

declare scan_loop.simps [simp del]

definition sst_scan :: "reader \<Rightarrow> bytes \<Rightarrow> pystr \<Rightarrow> pystr \<Rightarrow> (pystr \<times> pystr) list result" where
  "sst_scan rd f start_key end_key =
     scan_loop f (rd_index_offset rd) start_key end_key (start_offset (rd_index rd) start_key 0)"

function iter_loop :: "bytes \<Rightarrow> nat \<Rightarrow> nat \<Rightarrow> (pystr \<times> pystr) list result" where
  "iter_loop f stop pos =
     (if pos < stop then
        (case read_entry f pos of
           Inl err \<Rightarrow> Inl err
         | Inr None \<Rightarrow> Inr []
         | Inr (Some (e, p)) \<Rightarrow> bindE (iter_loop f stop p) (\<lambda>r. Inr (e # r)))
      else Inr [])"
  by pat_completeness auto
termination
  by (relation "measure (\<lambda>(f, stop, pos). stop - pos)") (auto dest: read_entry_advances)

declare iter_loop.simps [simp del]

definition sst_iter_all :: "reader \<Rightarrow> bytes \<Rightarrow> (pystr \<times> pystr) list result" where
  "sst_iter_all rd f = iter_loop f (rd_index_offset rd) 0"

section \<open>The filter never denies a member\<close>

definition bloom_wf :: "bloom \<Rightarrow> bool" where
  "bloom_wf bf \<longleftrightarrow> 0 < bf_size bf \<and> length (bf_bits bf) = bf_size bf div 8 + 1"

definition pos_set :: "bytes \<Rightarrow> nat \<Rightarrow> bool" where
  "pos_set bits p \<longleftrightarrow> p div 8 < length bits \<and> bit (bits ! (p div 8)) (p mod 8)"

lemma bits_all_set_True: "bits_all_set bits ps = Inr True \<longleftrightarrow> (\<forall>p\<in>set ps. pos_set bits p)"
  by (induction ps) (auto simp: pos_set_def)

lemma bits_all_set_total:
  "\<forall>p\<in>set ps. p div 8 < length bits \<Longrightarrow> \<exists>b. bits_all_set bits ps = Inr b"
  by (induction ps) auto

lemma length_set_bit_at [simp]: "length (set_bit_at bits p) = length bits"
  by (simp add: set_bit_at_def)

lemma length_foldl_set_bit [simp]: "length (foldl set_bit_at bits ps) = length bits"
  by (induction ps arbitrary: bits) auto

lemma pos_set_own: "p div 8 < length bits \<Longrightarrow> pos_set (set_bit_at bits p) p"
  by (simp add: pos_set_def set_bit_at_def bit_or_iff bit_exp_iff)

lemma pos_set_mono: "pos_set bits q \<Longrightarrow> pos_set (set_bit_at bits p) q"
  by (cases "p div 8 = q div 8") (auto simp: pos_set_def set_bit_at_def bit_or_iff)

lemma pos_set_foldl:
  "pos_set bits q \<or> q \<in> set ps \<Longrightarrow> \<forall>p\<in>set ps. p div 8 < length bits \<Longrightarrow>
     pos_set (foldl set_bit_at bits ps) q"
proof (induction ps arbitrary: bits)
  case (Cons p ps)
  then have "pos_set (set_bit_at bits p) q \<or> q \<in> set ps"
    using pos_set_own pos_set_mono by auto
  then show ?case using Cons by simp
qed simp

lemma hash_positions_range:
  assumes "bloom_wf bf" "hash_positions bf key = Inr ps" "p \<in> set ps"
  shows "p div 8 < length (bf_bits bf)"
proof -
  have "p < bf_size bf" using assms by (auto simp: hash_positions_def bloom_wf_def split: if_splits)
  then show ?thesis using assms(1) by (simp add: bloom_wf_def div_le_mono less_Suc_eq_le)
qed

lemma bloom_add_ok:
  assumes wf: "bloom_wf bf" and add: "bloom_add bf key = Inr bf'"
  shows "bloom_wf bf'" "might_contain bf' key = Inr True"
    "might_contain bf k = Inr True \<Longrightarrow> might_contain bf' k = Inr True"
proof -
  obtain ps where ps: "hash_positions bf key = Inr ps" "\<forall>p\<in>set ps. p div 8 < length (bf_bits bf)"
    and bf': "bf' = bf\<lparr>bf_bits := foldl set_bit_at (bf_bits bf) ps\<rparr>"
    using add by (auto simp: bloom_add_def list_all_iff split: if_splits)
  have same: "hash_positions (bf\<lparr>bf_bits := bits\<rparr>) k' = hash_positions bf k'" for bits k'
    by (cases "utf8_encode k'") (simp_all add: hash_positions_def)
  show "bloom_wf bf'" using wf by (simp add: bf' bloom_wf_def)
  show "might_contain bf' key = Inr True"
    using ps by (auto simp: might_contain_def same bits_all_set_True bf' intro: pos_set_foldl)
  show "might_contain bf k = Inr True \<Longrightarrow> might_contain bf' k = Inr True"
    using ps by (auto simp: might_contain_def same bits_all_set_True bf' intro: pos_set_foldl)
qed

lemma might_contain_total:
  "bloom_wf bf \<Longrightarrow> list_all is_scalar key \<Longrightarrow> \<exists>b. might_contain bf key = Inr b"
  using hash_positions_range [of bf key]
  by (auto simp: might_contain_def hash_positions_def bloom_wf_def utf8_encode_def
      intro!: bits_all_set_total)

lemma bloom_bytes_roundtrip: "bloom_to_bytes bf = Inr bs \<Longrightarrow> bloom_from_bytes bs = Inr bf"
  by (auto simp: bloom_to_bytes_def bloom_from_bytes_def pack_be_Inr py_slice_def unpack_be_bytes)

lemma bloom_wf_new: "0 < n \<Longrightarrow> bloom_wf (bloom_new n k)"
  by (simp add: bloom_wf_def bloom_new_def)

section \<open>Entries on disk\<close>

fun item_ok :: "pystr \<times> pystr \<Rightarrow> bool" where
  "item_ok (k, v) \<longleftrightarrow>
     list_all is_scalar k \<and> list_all is_scalar v \<and>
     length (concat (map utf8_char k)) < 2 ^ 16 \<and> length (concat (map utf8_char v)) < 2 ^ 32"

fun enc :: "pystr \<times> pystr \<Rightarrow> bytes" where
  "enc (k, v) =
     be_bytes 2 (length (concat (map utf8_char k))) @ concat (map utf8_char k) @
     be_bytes 4 (length (concat (map utf8_char v))) @ concat (map utf8_char v)"

definition block :: "(pystr \<times> pystr) list \<Rightarrow> bytes" where
  "block items = concat (map enc items)"

lemma block_simps [simp]:
  "block [] = []" "block (e # es) = enc e @ block es" "block (es @ es') = block es @ block es'"
  by (simp_all add: block_def)

lemma encode_entry_Inr: "encode_entry k v = Inr e \<longleftrightarrow> item_ok (k, v) \<and> e = enc (k, v)"
  by (auto simp: encode_entry_def pack_be_Inr utf8_encode_Inr)

lemma py_slice_at: "i = length pre \<Longrightarrow> j = i + length xs \<Longrightarrow> py_slice i j (pre @ xs @ post) = xs"
  by (simp add: py_slice_def)

lemma take_drop_at: "i = length pre \<Longrightarrow> n = length xs \<Longrightarrow> take n (drop i (pre @ xs @ post)) = xs"
  by simp

lemma read_entry_raw:
  assumes "length kl = 2" "unpack_be kl = length kb" "utf8_decode kb = Inr k"
    and "length vl = 4" "unpack_be vl = length vb" "utf8_decode vb = Inr v"
  shows "read_entry (pre @ kl @ kb @ vl @ vb @ post) (length pre) =
    Inr (Some ((k, v), length pre + (2 + length kb + 4 + length vb)))"
proof -
  let ?f = "pre @ kl @ kb @ vl @ vb @ post" and ?p = "length pre"
  have kl: "py_slice ?p (?p + 2) ?f = kl"
    using assms(1) by (intro py_slice_at) simp_all
  have kb: "take (length kb) (drop (?p + 2) ?f) = kb"
    using take_drop_at [of "?p + 2" "pre @ kl" "length kb" kb "vl @ vb @ post"] assms(1) by simp
  have vl: "py_slice (?p + 2 + length kb) (?p + 2 + length kb + 4) ?f = vl"
    using py_slice_at [of "?p + 2 + length kb" "pre @ kl @ kb" "?p + 2 + length kb + 4" vl "vb @ post"]
      assms(1,4) by simp
  have vb: "take (length vb) (drop (?p + 2 + length kb + 4) ?f) = vb"
    using take_drop_at [of "?p + 2 + length kb + 4" "pre @ kl @ kb @ vl" "length vb" vb post]
      assms(1,4) by simp
  show ?thesis
    unfolding read_entry_def Let_def kl assms kb vl vb bindE_simps by simp
qed

lemma read_entry_enc:
  assumes "item_ok e"
  shows "read_entry (pre @ enc e @ post) (length pre) = Inr (Some (e, length pre + length (enc e)))"
proof -
  obtain k v where e: "e = (k, v)" by (cases e)
  have "utf8_decode (concat (map utf8_char k)) = Inr k" "utf8_decode (concat (map utf8_char v)) = Inr v"
    using assms by (auto simp: e utf8_encode_Inr intro: utf8_roundtrip)
  then show ?thesis
    using read_entry_raw [OF length_be_bytes unpack_be_bytes _ length_be_bytes unpack_be_bytes] assms
    by (simp add: e del: length_concat)
qed

lemma length_enc_pos: "0 < length (enc e)"
  by (cases e) simp

fun get_items :: "pystr \<Rightarrow> (pystr \<times> pystr) list \<Rightarrow> pystr option" where
  "get_items key [] = None"
| "get_items key ((k, v) # es) =
     (if k = key then Some v else if key < k then None else get_items key es)"

fun scan_items :: "pystr \<Rightarrow> pystr \<Rightarrow> (pystr \<times> pystr) list \<Rightarrow> (pystr \<times> pystr) list" where
  "scan_items a b [] = []"
| "scan_items a b ((k, v) # es) =
     (if k < a then scan_items a b es else if b < k then [] else (k, v) # scan_items a b es)"

lemma loops_read_items:
  assumes "list_all item_ok es"
  shows "get_loop (pre @ block es @ post) (length pre + length (block es)) key (length pre) =
           Inr (get_items key es)"
    and "scan_loop (pre @ block es @ post) (length pre + length (block es)) a b (length pre) =
           Inr (scan_items a b es)"
    and "iter_loop (pre @ block es @ post) (length pre + length (block es)) (length pre) = Inr es"
proof -
  have "get_loop (pre @ block es @ post) (length pre + length (block es)) key (length pre) =
           Inr (get_items key es) \<and>
        scan_loop (pre @ block es @ post) (length pre + length (block es)) a b (length pre) =
           Inr (scan_items a b es) \<and>
        iter_loop (pre @ block es @ post) (length pre + length (block es)) (length pre) = Inr es"
    using assms
  proof (induction es arbitrary: pre)
    case Nil
    then show ?case by (simp add: get_loop.simps scan_loop.simps iter_loop.simps)
  next
    case (Cons e es)
    then have r: "read_entry (pre @ enc e @ block es @ post) (length pre) =
        Inr (Some (e, length pre + length (enc e)))"
      by (intro read_entry_enc) simp
    have "list_all item_ok es" using Cons.prems by simp
    note IH = Cons.IH [of "pre @ enc e", OF this, simplified]
    obtain k v where e: "e = (k, v)" by (cases e)
    show ?case using IH r length_enc_pos [of e] unfolding e
      by (subst get_loop.simps, subst scan_loop.simps, subst iter_loop.simps)
        (auto simp add: add.assoc simp del: enc.simps)
  qed
  then show "get_loop (pre @ block es @ post) (length pre + length (block es)) key (length pre) =
           Inr (get_items key es)"
    and "scan_loop (pre @ block es @ post) (length pre + length (block es)) a b (length pre) =
           Inr (scan_items a b es)"
    and "iter_loop (pre @ block es @ post) (length pre + length (block es)) (length pre) = Inr es"
    by blast+
qed

lemma get_items_sorted:
  "sorted_wrt (<) (map fst es) \<Longrightarrow> get_items key es = map_of es key"
proof (induction key es rule: get_items.induct)
  case (2 key k v es)
  moreover have "map_of es key = None" if "key < k"
    using 2(2) that by (fastforce simp: map_of_eq_None_iff)
  ultimately show ?case by auto
qed simp

lemma scan_items_sorted:
  "sorted_wrt (<) (map fst es) \<Longrightarrow> scan_items a b es = filter (\<lambda>(k, v). a \<le> k \<and> k \<le> b) es"
proof (induction a b es rule: scan_items.induct)
  case (2 a b k v es)
  moreover have "filter (\<lambda>(k, v). a \<le> k \<and> k \<le> b) es = []" if "b < k"
    using 2(3) that by (fastforce simp: filter_empty_conv)
  ultimately show ?case by (auto simp: not_less not_le)
qed simp

section \<open>Sparse index\<close>

definition index_for :: "(pystr \<times> pystr) list \<Rightarrow> (pystr \<times> nat) list \<Rightarrow> bool" where
  "index_for items idx \<longleftrightarrow>
     (\<forall>(k, off)\<in>set idx. \<exists>j < length items. k = fst (items ! j) \<and> off = length (block (take j items)))"

lemma start_offset_boundary:
  assumes "sorted_wrt (<) (map fst items)" "index_for items idx"
    and "\<exists>j \<le> length items. off = length (block (take j items)) \<and> (\<forall>e\<in>set (take j items). fst e < key)"
  shows "\<exists>j \<le> length items. start_offset idx key off = length (block (take j items)) \<and>
           (\<forall>e\<in>set (take j items). fst e < key)"
  using assms(2,3)
proof (induction idx key off rule: start_offset.induct)
  case (2 k off' idx key off)
  then obtain j where j: "j < length items" "k = fst (items ! j)" "off' = length (block (take j items))"
    by (auto simp: index_for_def)
  have "fst e < k" if "e \<in> set (take j items)" for e
    using that assms(1) j by (auto simp: in_set_conv_nth sorted_wrt_iff_nth_less)
  then have "\<forall>e\<in>set (take j items). fst e < key" if "k \<le> key"
    using that by (meson order.strict_trans2)
  then have good: "\<exists>j\<le>length items. off' = length (block (take j items)) \<and>
      (\<forall>e\<in>set (take j items). fst e < key)" if "k \<le> key"
    using that j less_imp_le by blast
  have "index_for items idx" using 2(2) by (simp add: index_for_def)
  then show ?case using 2(1) [OF _ _ good] 2(3) by (cases "k \<le> key") auto
qed simp

lemma index_for_Cons:
  assumes "index_for items new"
  shows "index_for (e # items) (map (\<lambda>(k, off). (k, length (enc e) + off)) new)"
proof -
  have "\<exists>j < length (e # items). k = fst ((e # items) ! j) \<and>
      length (enc e) + off = length (block (take j (e # items)))" if new: "(k, off) \<in> set new" for k off
  proof -
    obtain j where "j < length items" "k = fst (items ! j)" "off = length (block (take j items))"
      using assms new by (auto simp: index_for_def)
    then show ?thesis by (intro exI [of _ "Suc j"]) simp
  qed
  then show ?thesis by (auto simp: index_for_def)
qed

lemma index_for_append: "index_for items (a @ b) \<longleftrightarrow> index_for items a \<and> index_for items b"
  by (simp add: index_for_def ball_Un)

lemma index_for_here: "index_for items []" "index_for (e # items) [(fst e, 0)]"
  by (auto simp: index_for_def)

lemma write_entries_ok:
  assumes "write_entries i items f idx bf = Inr (data, idx', bf')" "bloom_wf bf"
  shows "data = f @ block items \<and> list_all item_ok items \<and> bloom_wf bf' \<and>
    (\<forall>(k, v)\<in>set items. might_contain bf' k = Inr True) \<and>
    (\<forall>k. might_contain bf k = Inr True \<longrightarrow> might_contain bf' k = Inr True) \<and>
    (\<exists>new. idx' = idx @ map (\<lambda>(k, off). (k, length f + off)) new \<and> index_for items new)"
  using assms
proof (induction items arbitrary: i f idx bf)
  case Nil
  then show ?case by (auto simp: index_for_def)
next
  case (Cons e items)
  obtain key val where e: "e = (key, val)" by (cases e)
  let ?e = "(key, val)"
  let ?here = "if i mod INDEX_INTERVAL = 0 then [(fst ?e, 0)] else []"
  let ?idx = "idx @ map (\<lambda>(k, off). (k, length f + off)) ?here"
  obtain bf1 where add: "bloom_add bf key = Inr bf1" and ok: "item_ok ?e"
    and rest: "write_entries (Suc i) items (f @ enc ?e) ?idx bf1 = Inr (data, idx', bf')"
    using Cons.prems(1) by (auto simp: e Let_def encode_entry_Inr simp del: item_ok.simps enc.simps split: if_splits)
  note bf1 = bloom_add_ok [OF Cons.prems(2) add]
  note IH = Cons.IH [OF rest bf1(1)]
  obtain new where new: "idx' = ?idx @ map (\<lambda>(k, off). (k, length (f @ enc ?e) + off)) new"
    "index_for items new" using IH by blast
  let ?new = "?here @ map (\<lambda>(k, off). (k, length (enc ?e) + off)) new"
  have "index_for (?e # items) ?new"
    using index_for_Cons [OF new(2), of ?e] index_for_here(2) [of ?e items]
    by (simp add: index_for_append index_for_here(1) del: enc.simps)
  moreover have "idx' = idx @ map (\<lambda>(k, off). (k, length f + off)) ?new"
    by (simp add: new(1) comp_def case_prod_beta add.assoc del: enc.simps)
  ultimately have "\<exists>new. idx' = idx @ map (\<lambda>(k, off). (k, length f + off)) new \<and>
      index_for (?e # items) new" by blast
  then show ?case using IH bf1 ok by (auto simp: e simp del: enc.simps item_ok.simps)
qed

lemma index_json_ok:
  assumes "index_for items idx" "list_all item_ok items"
  shows "json_ok (index_json idx)"
proof -
  have "list_all is_scalar k" if "(k, off) \<in> set idx" for k off
  proof -
    obtain j where "j < length items" "k = fst (items ! j)" using assms(1) \<open>(k, off) \<in> set idx\<close>
      by (auto simp: index_for_def)
    then have "item_ok (k, snd (items ! j))" using assms(2) by (auto simp: list_all_length)
    then show ?thesis by simp
  qed
  then show ?thesis by (auto simp: index_json_def list_all_iff [of json_ok])
qed

lemma index_of_index_json: "index_of_json (index_json idx) = Inr idx"
proof -
  have "index_pairs (map (\<lambda>(k, off). JList [JStr k, JInt (int off)]) idx) = Inr idx"
    by (induction idx) auto
  then show ?thesis by (simp add: index_of_json_def index_json_def)
qed

lemma start_offset_split:
  assumes "sorted_wrt (<) (map fst items)" "index_for items idx"
  shows "\<exists>es1 es2. items = es1 @ es2 \<and> start_offset idx key 0 = length (block es1) \<and>
    (\<forall>e\<in>set es1. fst e < key)"
proof -
  have "\<exists>j \<le> length items. 0 = length (block (take j items)) \<and> (\<forall>e\<in>set (take j items). fst e < key)"
    by (rule exI [of _ 0]) simp
  then obtain j where "start_offset idx key 0 = length (block (take j items))"
    "\<forall>e\<in>set (take j items). fst e < key"
    using start_offset_boundary [OF assms] by blast
  then show ?thesis by (intro exI [of _ "take j items"] exI [of _ "drop j items"]) simp
qed

lemma read_block_at:
  "length bs < 2 ^ 32 \<Longrightarrow> pos = length pre \<Longrightarrow>
     read_block (pre @ be_bytes 4 (length bs) @ bs @ post) pos = Inr bs"
  by (simp add: read_block_def py_slice_def Let_def unpack_be_bytes)

lemma MAGIC_len: "length MAGIC = 8"
  by (simp add: MAGIC_def str_def)

lemma footer_fields:
  fixes a b c d :: nat and m :: bytes
  defines "foot \<equiv> be_bytes 8 a @ be_bytes 4 b @ be_bytes 4 c @ be_bytes 8 d @ m"
  assumes "length m = 8" "a < 256 ^ 8" "c < 256 ^ 4" "d < 256 ^ 8"
  shows "drop 24 foot = m" "unpack_be (py_slice 0 8 foot) = a" "unpack_be (py_slice 12 16 foot) = c"
    "unpack_be (py_slice 16 24 foot) = d"
  using assms(2-) unfolding foot_def
  by (simp_all add: py_slice_def unpack_be_bytes del: power_numeral)

lemma sst_write_load:
  assumes "sst_write items = Inr f"
  shows "\<exists>idx bf post off. f = block items @ post \<and> list_all item_ok items \<and> index_for items idx \<and>
    bloom_wf bf \<and> (\<forall>(k, v)\<in>set items. might_contain bf k = Inr True) \<and>
    sst_load f = Inr \<lparr>rd_index = idx, rd_bloom = bf, rd_entry_count = length items,
                      rd_index_offset = length (block items), rd_bloom_offset = off\<rparr>"
proof -
  obtain data idx bf ix bd where w: "write_entries 0 items [] [] (bloom_new 10000 3) = Inr (data, idx, bf)"
    and ix: "utf8_encode (json_dumps (index_json idx)) = Inr ix" and lix: "length ix < 2 ^ 32"
    and bd: "bloom_to_bytes bf = Inr bd" and lbd: "length bd < 2 ^ 32"
    and num: "length data < 256 ^ 8" "length items < 256 ^ 4" "length data + 4 + length ix < 256 ^ 8"
    and f: "f = data @ be_bytes 4 (length ix) @ ix @ be_bytes 4 (length bd) @ bd @ be_bytes 8 (length data) @
       be_bytes 4 (length ix) @ be_bytes 4 (length items) @ be_bytes 8 (length data + 4 + length ix) @ MAGIC"
    using assms by (auto simp: sst_write_def pack_be_Inr)
  have we: "data = block items" "list_all item_ok items" "bloom_wf bf" "index_for items idx"
    "\<forall>(k, v)\<in>set items. might_contain bf k = Inr True"
    using write_entries_ok [OF w bloom_wf_new] by (auto simp: map_idI)
  let ?foot = "be_bytes 8 (length data) @ be_bytes 4 (length ix) @ be_bytes 4 (length items) @
      be_bytes 8 (length data + 4 + length ix) @ MAGIC"
  have foot: "drop (length f - FOOTER_SIZE) f = ?foot" "FOOTER_SIZE \<le> length f"
    by (simp_all add: f FOOTER_SIZE_def MAGIC_len)
  have jok: "json_ok (index_json idx)" by (rule index_json_ok [OF we(4,2)])
  then have ix': "utf8_encode (json_dumps (index_json idx)) = Inr ix" using ix by simp
  have r1: "read_block f (length data) = Inr ix"
    unfolding f by (rule read_block_at [OF lix refl])
  have r2: "read_block f (length data + 4 + length ix) = Inr bd"
    using read_block_at [OF lbd, of "length data + 4 + length ix" "data @ be_bytes 4 (length ix) @ ix" ?foot]
    by (simp add: f)
  have "sst_load f = Inr \<lparr>rd_index = idx, rd_bloom = bf, rd_entry_count = length items,
      rd_index_offset = length data, rd_bloom_offset = length data + 4 + length ix\<rparr>"
    unfolding sst_load_def foot(1) Let_def footer_fields [OF MAGIC_len num] r1 r2 bindE_simps
      utf8_roundtrip [OF ix'] json_roundtrip [OF jok] index_of_index_json bloom_bytes_roundtrip [OF bd]
    using foot(2) by simp
  moreover have "f = block items @ drop (length data) f" by (simp add: f we(1))
  ultimately show ?thesis using we(2-5) unfolding we(1) by (intro exI conjI)
qed

lemma sst_written:
  assumes "sst_write items = Inr f" and sorted: "sorted_wrt (<) (map fst items)"
  shows "\<exists>rd. sst_load f = Inr rd \<and> rd_entry_count rd = length items \<and> sst_iter_all rd f = Inr items \<and>
    (\<forall>a b. sst_scan rd f a b = Inr (filter (\<lambda>(k, v). a \<le> k \<and> k \<le> b) items)) \<and>
    (\<forall>key. list_all is_scalar key \<longrightarrow> sst_get rd f key = Inr (map_of items key))"
proof -
  obtain idx bf post off where f: "f = block items @ post" and ok: "list_all item_ok items"
    and idx: "index_for items idx" and bf: "bloom_wf bf"
    and mem: "\<forall>(k, v)\<in>set items. might_contain bf k = Inr True"
    and load: "sst_load f = Inr \<lparr>rd_index = idx, rd_bloom = bf, rd_entry_count = length items,
                      rd_index_offset = length (block items), rd_bloom_offset = off\<rparr>"
    using sst_write_load [OF assms(1)] by (elim exE conjE) (rule that)
  have suffix: "sorted_wrt (<) (map fst es2)" "list_all item_ok es2" if "items = es1 @ es2" for es1 es2
    using sorted ok that by (auto simp: sorted_wrt_append)
  have get: "get_loop f (length (block items)) key (start_offset idx key 0) = Inr (map_of items key)" for key
  proof -
    obtain es1 es2 where es: "items = es1 @ es2" "start_offset idx key 0 = length (block es1)"
      "\<forall>e\<in>set es1. fst e < key" using start_offset_split [OF sorted idx] by blast
    then have "map_of es1 key = None" by (auto simp: map_of_eq_None_iff)
    then show ?thesis
      using loops_read_items(1) [of es2 "block es1" post key] suffix [OF es(1)]
      by (simp add: f es get_items_sorted map_add_def)
  qed
  have scan: "scan_loop f (length (block items)) a b (start_offset idx a 0) =
      Inr (filter (\<lambda>(k, v). a \<le> k \<and> k \<le> b) items)" for a b
  proof -
    obtain es1 es2 where es: "items = es1 @ es2" "start_offset idx a 0 = length (block es1)"
      "\<forall>e\<in>set es1. fst e < a" using start_offset_split [OF sorted idx] by blast
    then have "filter (\<lambda>(k, v). a \<le> k \<and> k \<le> b) es1 = []" by (fastforce simp: filter_empty_conv)
    then show ?thesis
      using loops_read_items(2) [of es2 "block es1" post a b] suffix [OF es(1)]
      by (simp add: f es scan_items_sorted)
  qed
  have iter: "iter_loop f (length (block items)) 0 = Inr items"
    using loops_read_items(3) [of items "[]" post] ok by (simp add: f)
  have absent: "map_of items key = None" if "might_contain bf key = Inr False" for key
  proof (rule ccontr)
    assume "map_of items key \<noteq> None"
    then obtain v where "(key, v) \<in> set items" by (auto dest: map_of_SomeD)
    then show False using mem that by auto
  qed
  let ?rd = "\<lparr>rd_index = idx, rd_bloom = bf, rd_entry_count = length items,
              rd_index_offset = length (block items), rd_bloom_offset = off\<rparr>"
  have lookup: "sst_get ?rd f key = Inr (map_of items key)"
    if sc: "list_all is_scalar key" for key
  proof -
    obtain b where "might_contain bf key = Inr b" using might_contain_total [OF bf sc] by blast
    then show ?thesis using absent [of key] by (cases b) (simp_all add: sst_get_def get)
  qed
  show ?thesis
    by (intro exI conjI, rule load) (simp_all add: lookup sst_scan_def sst_iter_all_def scan iter)
qed

text \<open>
  What a written table answers (C11). Reopening the file of a table of strictly ascending keys
  succeeds; the footer gives the number of entries, a full iteration gives the items, a range scan
  the items in the range, and a point lookup through Bloom filter and sparse index the value of
  every key that is there and nothing for any other.
\<close>
theorem sst_reads_what_was_written:
  assumes "sst_write items = Inr f" and sorted: "sorted_wrt (<) (map fst items)"
  shows "\<exists>rd. sst_load f = Inr rd \<and> rd_entry_count rd = length items \<and> sst_iter_all rd f = Inr items \<and>
    (\<forall>a b. sst_scan rd f a b = Inr (filter (\<lambda>(k, v). a \<le> k \<and> k \<le> b) items)) \<and>
    (\<forall>key. list_all is_scalar key \<longrightarrow> sst_get rd f key = Inr (map_of items key))"
  by (rule sst_written [OF assms])

section \<open>When a table can be written\<close>

text \<open>The sparse index as a function of the items.\<close>

fun sparse :: "nat \<Rightarrow> nat \<Rightarrow> (pystr \<times> pystr) list \<Rightarrow> (pystr \<times> nat) list" where
  "sparse i off [] = []"
| "sparse i off (e # es) =
     (if i mod INDEX_INTERVAL = 0 then [(fst e, off)] else []) @ sparse (Suc i) (off + length (enc e)) es"

lemma bloom_add_total:
  assumes "bloom_wf bf" "list_all is_scalar key"
  shows "\<exists>bf'. bloom_add bf key = Inr bf' \<and> length (bf_bits bf') = length (bf_bits bf) \<and>
    bf_size bf' = bf_size bf \<and> bf_num_hashes bf' = bf_num_hashes bf"
proof -
  obtain ps where ps: "hash_positions bf key = Inr ps"
    using assms by (auto simp: hash_positions_def utf8_encode_def bloom_wf_def)
  then have "list_all (\<lambda>p. p div 8 < length (bf_bits bf)) ps"
    using hash_positions_range [OF assms(1)] by (auto simp: list_all_iff)
  then show ?thesis by (simp add: bloom_add_def ps)
qed

lemma write_entries_total:
  "list_all item_ok items \<Longrightarrow> bloom_wf bf \<Longrightarrow>
     \<exists>bf'. write_entries i items f idx bf = Inr (f @ block items, idx @ sparse i (length f) items, bf') \<and>
       length (bf_bits bf') = length (bf_bits bf) \<and> bf_size bf' = bf_size bf \<and>
       bf_num_hashes bf' = bf_num_hashes bf"
proof (induction items arbitrary: i f idx bf)
  case (Cons e items)
  obtain key val where e: "e = (key, val)" by (cases e)
  have ok: "item_ok (key, val)" "list_all item_ok items" using Cons.prems by (auto simp: e)
  then obtain bf1 where add: "bloom_add bf key = Inr bf1"
    and same: "length (bf_bits bf1) = length (bf_bits bf)" "bf_size bf1 = bf_size bf"
      "bf_num_hashes bf1 = bf_num_hashes bf"
    using bloom_add_total [OF Cons.prems(2), of key] by auto
  have enc: "encode_entry key val = Inr (enc (key, val))" using ok by (simp only: encode_entry_Inr)
  show ?case
    using Cons.IH [OF ok(2) bloom_add_ok(1) [OF Cons.prems(2) add], of "Suc i" "f @ enc (key, val)"
        "if i mod INDEX_INTERVAL = 0 then idx @ [(key, length f)] else idx"] same
    by (simp add: e add enc Let_def del: enc.simps split: if_splits)
qed simp

lemma sst_write_total:
  assumes "list_all item_ok items" "length items < 2 ^ 32" "length (block items) < 2 ^ 63"
    and "length (json_dumps (index_json (sparse 0 0 items))) < 2 ^ 32"
    and "json_ok (index_json (sparse 0 0 items))"
  shows "\<exists>f. sst_write items = Inr f"
proof -
  obtain bf where w: "write_entries 0 items [] [] (bloom_new 10000 3) = Inr (block items, sparse 0 0 items, bf)"
    and bf: "length (bf_bits bf) = 1251" "bf_size bf = 10000" "bf_num_hashes bf = 3"
    using write_entries_total [OF assms(1) bloom_wf_new [of 10000 3], of 0 "[]" "[]"]
    by (auto simp: bloom_new_def)
  show ?thesis
    using assms(2-4) by (simp add: sst_write_def w utf8_dumps [OF assms(5)] bloom_to_bytes_def bf pack_be_def)
qed

text \<open>A table of three entries, written and looked up.\<close>

definition demo_items :: "(pystr \<times> pystr) list" where
  "demo_items = [(str ''a'', str ''1''), (str ''b'', TOMBSTONE), (str ''d'', [])]"

lemma demo_items_ok: "sorted_wrt (<) (map fst demo_items)" "list_all item_ok demo_items"
  "sparse 0 0 demo_items = [(str ''a'', 0)]"
  by (simp_all add: demo_items_def str_def TOMBSTONE_def is_scalar_def utf8_char_def INDEX_INTERVAL_def)

lemma demo_items_written: "\<exists>f. sst_write demo_items = Inr f"
  by (rule sst_write_total)
    (simp_all add: demo_items_ok, simp_all add: demo_items_def str_def is_scalar_def TOMBSTONE_def utf8_char_def
      index_json_def dumps_str_def json_esc_def str_of_int_def str_of_nat_def)

theorem sst_reads_what_was_written_witness:
  "\<exists>f rd. sst_write demo_items = Inr f \<and> sst_load f = Inr rd \<and>
     sst_get rd f (str ''b'') = Inr (Some TOMBSTONE) \<and> sst_get rd f (str ''c'') = Inr None"
proof -
  obtain f where f: "sst_write demo_items = Inr f" using demo_items_written by blast
  obtain rd where rd: "sst_load f = Inr rd"
    "\<And>key. list_all is_scalar key \<Longrightarrow> sst_get rd f key = Inr (map_of demo_items key)"
    using sst_reads_what_was_written [OF f demo_items_ok(1)] by blast
  have "sst_get rd f (str ''b'') = Inr (Some TOMBSTONE)" "sst_get rd f (str ''c'') = Inr None"
    by (subst rd(2), simp_all add: str_def is_scalar_def demo_items_def)+
  then show ?thesis using f rd(1) by blast
qed

end
