(* ===== verification/BTree.thy ===== *)
theory BTree
  imports Py_Base
begin

text \<open>
  \<open>btree.py\<close>: the in-memory B+ tree of order \<open>t\<close>.

  A node is a leaf (keys, values, link to the next leaf) or an internal node (separator keys and
  children). The source mutates nodes in place; the model rebuilds the path it descends. The link
  \<open>next\<close> is a reference to another leaf object, so leaves carry an identity (\<open>lf_id\<close>, taken from the
  counter \<open>bt_next_id\<close>), and \<open>scan\<close> follows identities. An \<open>IndexError\<close> of the source is \<open>Inl\<close>.

  The lemmas come in three layers: the shape of the tree (equal depth, node sizes, children count),
  which every operation keeps, so that none of them raises; the chain of the leaves; and the order
  of keys and separators, which makes lookups and scans agree with the stored pairs.
\<close>

section \<open>Nodes\<close>

record leaf =
  lf_id :: nat
  lf_keys :: "pystr list"
  lf_values :: "pystr list"
  lf_next :: "nat option"

datatype bnode = Leaf leaf | Internal "pystr list" "bnode list"

record btree =
  bt_order :: nat
  bt_root :: bnode
  bt_size :: int
  bt_next_id :: nat

primrec hgt :: "bnode \<Rightarrow> nat" where
  "hgt (Leaf l) = 0"
| "hgt (Internal ks cs) = Suc (foldr max (map hgt cs) 0)"

definition btree_new :: "nat \<Rightarrow> btree" where
  "btree_new t =
     \<lparr>bt_order = t, bt_root = Leaf \<lparr>lf_id = 0, lf_keys = [], lf_values = [], lf_next = None\<rparr>,
      bt_size = 0, bt_next_id = 1\<rparr>"

fun node_keys :: "bnode \<Rightarrow> pystr list" where
  "node_keys (Leaf l) = lf_keys l"
| "node_keys (Internal ks cs) = ks"

definition is_full :: "nat \<Rightarrow> bnode \<Rightarrow> bool" where
  "is_full t n \<longleftrightarrow> length (node_keys n) + 1 \<ge> 2 * t"

lemma foldr_max_ge: "x \<in> set xs \<Longrightarrow> x \<le> foldr max xs (0 :: nat)"
  by (induction xs) auto

lemma foldr_max_in: "xs \<noteq> [] \<Longrightarrow> foldr max xs (0 :: nat) \<in> set xs"
proof (induction xs)
  case (Cons x xs)
  then show ?case by (cases "xs = []") (auto simp: max_def)
qed simp

lemma hgt_child: "c \<in> set cs \<Longrightarrow> hgt c < hgt (Internal ks cs)"
  using foldr_max_ge [of "hgt c" "map hgt cs"] by auto

section \<open>Search\<close>

function find_leaf :: "bnode \<Rightarrow> pystr \<Rightarrow> leaf result" where
  "find_leaf (Leaf l) key = Inr l"
| "find_leaf (Internal ks cs) key =
     (let idx = bisect_right ks key in
      if idx < length cs then find_leaf (cs ! idx) key else Inl IndexError)"
  by pat_completeness auto
termination
  by (relation "measure (\<lambda>(n, key). hgt n)") (auto simp: less_Suc_eq_le intro!: foldr_max_ge)

definition leaf_index :: "leaf \<Rightarrow> pystr \<Rightarrow> nat option" where
  "leaf_index l key =
     (let idx = bisect_left (lf_keys l) key in
      if idx < length (lf_keys l) \<and> lf_keys l ! idx = key then Some idx else None)"

definition node_get :: "bnode \<Rightarrow> pystr \<Rightarrow> pystr option result" where
  "node_get n key =
     bindE (find_leaf n key) (\<lambda>l.
       case leaf_index l key of
         Some idx \<Rightarrow> bindE (nth_err (lf_values l) idx) (\<lambda>v. Inr (Some v))
       | None \<Rightarrow> Inr None)"

definition bt_get :: "btree \<Rightarrow> pystr \<Rightarrow> pystr option result" where
  "bt_get t key = node_get (bt_root t) key"

section \<open>Insertion\<close>

text \<open>The in-place update \<open>leaf.values[idx] = value\<close> of the leaf \<open>_find_leaf\<close> reached.\<close>

function put_value :: "bnode \<Rightarrow> pystr \<Rightarrow> pystr \<Rightarrow> bnode" where
  "put_value (Leaf l) key val =
     (case leaf_index l key of
        Some idx \<Rightarrow> Leaf (l\<lparr>lf_values := (lf_values l)[idx := val]\<rparr>)
      | None \<Rightarrow> Leaf l)"
| "put_value (Internal ks cs) key val =
     (let idx = bisect_right ks key in
      if idx < length cs then Internal ks (cs[idx := put_value (cs ! idx) key val]) else Internal ks cs)"
  by pat_completeness auto
termination
  by (relation "measure (\<lambda>(n, key, val). hgt n)") (auto simp: less_Suc_eq_le intro!: foldr_max_ge)

definition split_child ::
  "nat \<Rightarrow> nat \<Rightarrow> pystr list \<Rightarrow> bnode list \<Rightarrow> nat \<Rightarrow> (pystr list \<times> bnode list \<times> nat) result" where
  "split_child t nid pkeys pchildren child_idx =
     bindE (nth_err pchildren child_idx) (\<lambda>child.
       case child of
         Leaf l \<Rightarrow>
           let mid = t;
               new_leaf = \<lparr>lf_id = nid, lf_keys = drop mid (lf_keys l),
                           lf_values = drop mid (lf_values l), lf_next = lf_next l\<rparr>;
               child' = l\<lparr>lf_keys := take mid (lf_keys l), lf_values := take mid (lf_values l),
                          lf_next := Some nid\<rparr> in
           bindE (nth_err (lf_keys new_leaf) 0) (\<lambda>median_key.
             Inr (list_insert child_idx median_key pkeys,
                  list_insert (child_idx + 1) (Leaf new_leaf) (pchildren[child_idx := Leaf child']),
                  nid + 1))
       | Internal ks cs \<Rightarrow>
           let mid = t - 1 in
           bindE (nth_err ks mid) (\<lambda>median_key.
             Inr (list_insert child_idx median_key pkeys,
                  list_insert (child_idx + 1) (Internal (drop (mid + 1) ks) (drop (mid + 1) cs))
                    (pchildren[child_idx := Internal (take mid ks) (take (mid + 1) cs)]),
                  nid)))"

text \<open>The child to descend into: \<open>node\<close> with the child split first when it is full.\<close>

definition descend ::
  "nat \<Rightarrow> nat \<Rightarrow> pystr list \<Rightarrow> bnode list \<Rightarrow> pystr \<Rightarrow> (nat \<times> pystr list \<times> bnode list \<times> nat) result" where
  "descend t nid ks cs key =
     (let idx = bisect_right ks key in
      bindE (nth_err cs idx) (\<lambda>child.
        if is_full t child then
          bindE (split_child t nid ks cs idx) (\<lambda>(ks', cs', nid').
          bindE (nth_err ks' idx) (\<lambda>sep.
            Inr (if sep < key then idx + 1 else idx, ks', cs', nid')))
        else Inr (idx, ks, cs, nid)))"

lemma hgt_split:
  assumes "split_child t nid ks cs i = Inr (ks', cs', nid')" "c \<in> set cs'"
  shows "hgt c < hgt (Internal ks cs)"
proof -
  have i: "i < length cs" using assms(1) by (auto simp: split_child_def nth_err_def split: if_splits)
  then have mem: "cs ! i \<in> set cs" by simp
  have sub: "hgt (Internal ks2 ds) \<le> hgt (Internal ks1 es)" if "set ds \<subseteq> set es" for ks1 ks2 ds es
  proof (cases "ds = []")
    case False
    then have "foldr max (map hgt ds) 0 \<in> set (map hgt ds)" by (intro foldr_max_in) simp
    then have "foldr max (map hgt ds) 0 \<in> set (map hgt es)" using that by auto
    then show ?thesis using foldr_max_ge by auto
  qed simp
  have "c \<in> set cs \<or> hgt c \<le> hgt (cs ! i)"
  proof (cases "cs ! i")
    case (Leaf l)
    then show ?thesis using assms i
      by (auto simp: split_child_def Let_def dest!: subsetD [OF set_update_subset_insert])
  next
    case (Internal k ds)
    then show ?thesis
      using assms i
      by (auto simp: split_child_def Let_def simp del: hgt.simps
          intro!: sub set_take_subset set_drop_subset dest!: subsetD [OF set_update_subset_insert])
  qed
  then show ?thesis using hgt_child [OF mem, of ks] hgt_child [of c cs ks] by linarith
qed

lemma hgt_descend:
  "descend t nid ks cs key = Inr (i, ks', cs', nid') \<Longrightarrow> i < length cs' \<Longrightarrow>
     hgt (cs' ! i) < hgt (Internal ks cs)"
  by (auto simp: descend_def Let_def nth_err_def simp del: hgt.simps
      split: if_splits intro: hgt_split hgt_child nth_mem)

function insert_non_full :: "nat \<Rightarrow> nat \<Rightarrow> bnode \<Rightarrow> pystr \<Rightarrow> pystr \<Rightarrow> (bnode \<times> nat) result" where
  "insert_non_full t nid (Leaf l) key val =
     (let idx = bisect_left (lf_keys l) key in
      Inr (Leaf (l\<lparr>lf_keys := list_insert idx key (lf_keys l),
                   lf_values := list_insert idx val (lf_values l)\<rparr>), nid))"
| "insert_non_full t nid (Internal ks cs) key val =
     (case descend t nid ks cs key of
        Inl err \<Rightarrow> Inl err
      | Inr (idx, ks', cs', nid') \<Rightarrow>
          if idx < length cs' then
            bindE (insert_non_full t nid' (cs' ! idx) key val) (\<lambda>(c, nid'').
              Inr (Internal ks' (cs'[idx := c]), nid''))
          else Inl IndexError)"
  by pat_completeness auto
termination
  by (relation "measure (\<lambda>(t, nid, n, key, val). hgt n)") (auto simp del: hgt.simps dest: hgt_descend)

text \<open>The root before an insertion: a full root is split below a new one.\<close>

definition grow_root :: "nat \<Rightarrow> nat \<Rightarrow> bnode \<Rightarrow> (bnode \<times> nat) result" where
  "grow_root t nid root =
     (if is_full t root
      then bindE (split_child t nid [] [root] 0) (\<lambda>(ks, cs, nid). Inr (Internal ks cs, nid))
      else Inr (root, nid))"

definition bt_set :: "btree \<Rightarrow> pystr \<Rightarrow> pystr \<Rightarrow> btree result" where
  "bt_set b key val =
     bindE (find_leaf (bt_root b) key) (\<lambda>l.
       if leaf_index l key \<noteq> None then Inr (b\<lparr>bt_root := put_value (bt_root b) key val\<rparr>)
       else
         bindE (grow_root (bt_order b) (bt_next_id b) (bt_root b)) (\<lambda>(root, nid).
         bindE (insert_non_full (bt_order b) nid root key val) (\<lambda>(root', nid').
           Inr (b\<lparr>bt_root := root', bt_size := bt_size b + 1, bt_next_id := nid'\<rparr>))))"

section \<open>Deletion\<close>

fun find_min_key :: "bnode \<Rightarrow> pystr result" where
  "find_min_key (Leaf l) = Inr (if lf_keys l = [] then [] else hd (lf_keys l))"
| "find_min_key (Internal ks []) = Inl IndexError"
| "find_min_key (Internal ks (c # cs)) = find_min_key c"

definition leaf_pop :: "leaf \<Rightarrow> nat \<Rightarrow> leaf" where
  "leaf_pop l idx =
     l\<lparr>lf_keys := list_remove_at idx (lf_keys l), lf_values := list_remove_at idx (lf_values l)\<rparr>"

text \<open>
  \<open>_rebalance_leaf\<close> on the keys and children of the parent. The siblings of a leaf are leaves
  (\<open>shape\<close> below), so the case of an internal sibling does not occur.
\<close>

definition borrow_right :: "pystr list \<Rightarrow> bnode list \<Rightarrow> nat \<Rightarrow> leaf \<Rightarrow> leaf \<Rightarrow> (pystr list \<times> bnode list) result" where
  "borrow_right pkeys pchildren i lf right =
     bindE (nth_err (lf_keys right) 0) (\<lambda>k.
     bindE (nth_err (lf_values right) 0) (\<lambda>v.
     bindE (nth_err (lf_keys right) 1) (\<lambda>sep.
     Inr (pkeys[i := sep],
          pchildren[i := Leaf (lf\<lparr>lf_keys := lf_keys lf @ [k], lf_values := lf_values lf @ [v]\<rparr>),
                    i + 1 := Leaf (right\<lparr>lf_keys := tl (lf_keys right), lf_values := tl (lf_values right)\<rparr>)]))))"

definition borrow_left :: "pystr list \<Rightarrow> bnode list \<Rightarrow> nat \<Rightarrow> leaf \<Rightarrow> leaf \<Rightarrow> (pystr list \<times> bnode list) result" where
  "borrow_left pkeys pchildren i lf left =
     (if lf_keys left = [] \<or> lf_values left = [] then Inl IndexError
      else
        let k = last (lf_keys left); v = last (lf_values left) in
        Inr (pkeys[i - 1 := k],
             pchildren[i := Leaf (lf\<lparr>lf_keys := k # lf_keys lf, lf_values := v # lf_values lf\<rparr>),
                       i - 1 := Leaf (left\<lparr>lf_keys := butlast (lf_keys left), lf_values := butlast (lf_values left)\<rparr>)]))"

definition merge_leaves :: "leaf \<Rightarrow> leaf \<Rightarrow> leaf" where
  "merge_leaves a b =
     a\<lparr>lf_keys := lf_keys a @ lf_keys b, lf_values := lf_values a @ lf_values b, lf_next := lf_next b\<rparr>"

fun as_leaf :: "bnode \<Rightarrow> leaf option" where
  "as_leaf (Leaf l) = Some l"
| "as_leaf (Internal ks cs) = None"

definition sibling :: "bnode list \<Rightarrow> nat \<Rightarrow> leaf option" where
  "sibling cs i = (if i < length cs then as_leaf (cs ! i) else None)"

definition rebalance_leaf ::
  "nat \<Rightarrow> pystr list \<Rightarrow> bnode list \<Rightarrow> nat \<Rightarrow> leaf \<Rightarrow> (pystr list \<times> bnode list) result" where
  "rebalance_leaf t pkeys pchildren i lf =
     (let right = sibling pchildren (i + 1);
          left = (if i > 0 then sibling pchildren (i - 1) else None) in
      case right of
        Some r \<Rightarrow>
          if length (lf_keys r) + 1 > t then borrow_right pkeys pchildren i lf r
          else (case left of
                  Some l \<Rightarrow>
                    if length (lf_keys l) + 1 > t then borrow_left pkeys pchildren i lf l
                    else Inr (list_remove_at i pkeys,
                              list_remove_at (i + 1) (pchildren[i := Leaf (merge_leaves lf r)]))
                | None \<Rightarrow> Inr (list_remove_at i pkeys,
                              list_remove_at (i + 1) (pchildren[i := Leaf (merge_leaves lf r)])))
      | None \<Rightarrow>
          (case left of
             Some l \<Rightarrow>
               if length (lf_keys l) + 1 > t then borrow_left pkeys pchildren i lf l
               else Inr (list_remove_at (i - 1) pkeys,
                         list_remove_at i (pchildren[i - 1 := Leaf (merge_leaves l lf)]))
           | None \<Rightarrow> Inr (pkeys, pchildren)))"

text \<open>
  \<open>_delete_recursive\<close>: whether the key was found, and the node. A leaf that underflows is
  rebalanced by its parent, before the separator of the parent is refreshed.
\<close>

definition refresh_separator :: "nat \<Rightarrow> pystr list \<Rightarrow> bnode list \<Rightarrow> bnode result" where
  "refresh_separator idx ks cs =
     (if idx < length ks \<and> idx + 1 < length cs
      then bindE (find_min_key (cs ! (idx + 1))) (\<lambda>m. Inr (Internal (ks[idx := m]) cs))
      else Inr (Internal ks cs))"

definition after_delete ::
  "nat \<Rightarrow> pystr list \<Rightarrow> bnode list \<Rightarrow> nat \<Rightarrow> bnode \<Rightarrow> bnode result" where
  "after_delete t ks cs idx c =
     (let cs1 = cs[idx := c] in
      bindE (case as_leaf c of
               Some l \<Rightarrow> if length (lf_keys l) + 1 < t then rebalance_leaf t ks cs1 idx l else Inr (ks, cs1)
             | None \<Rightarrow> Inr (ks, cs1)) (\<lambda>(ks2, cs2).
      refresh_separator idx ks2 cs2))"

function delete_recursive :: "nat \<Rightarrow> bnode \<Rightarrow> pystr \<Rightarrow> (bool \<times> bnode) result" where
  "delete_recursive t (Leaf l) key =
     (case leaf_index l key of
        Some idx \<Rightarrow> Inr (True, Leaf (leaf_pop l idx))
      | None \<Rightarrow> Inr (False, Leaf l))"
| "delete_recursive t (Internal ks cs) key =
     (let idx = bisect_right ks key in
      if idx < length cs then
        bindE (delete_recursive t (cs ! idx) key) (\<lambda>(found, c).
          if found then bindE (after_delete t ks cs idx c) (\<lambda>n. Inr (True, n))
          else Inr (False, Internal ks cs))
      else Inl IndexError)"
  by pat_completeness auto
termination
  by (relation "measure (\<lambda>(t, n, key). hgt n)") (auto simp: less_Suc_eq_le intro!: foldr_max_ge)

definition shrink_root :: "bnode \<Rightarrow> bnode result" where
  "shrink_root n =
     (case n of
        Internal [] cs \<Rightarrow> nth_err cs 0
      | _ \<Rightarrow> Inr n)"

definition bt_delete :: "btree \<Rightarrow> pystr \<Rightarrow> (btree \<times> bool) result" where
  "bt_delete b key =
     bindE (delete_recursive (bt_order b) (bt_root b) key) (\<lambda>(found, n).
       if found then bindE (shrink_root n) (\<lambda>root.
         Inr (b\<lparr>bt_root := root, bt_size := bt_size b - 1\<rparr>, True))
       else Inr (b, False))"

section \<open>Range scan\<close>

primrec leaves :: "bnode \<Rightarrow> leaf list" where
  "leaves (Leaf l) = [l]"
| "leaves (Internal ks cs) = concat (map leaves cs)"

text \<open>
  The loop over one leaf yields the pairs in range and tells whether a key above the range
  ended the scan. The walk follows \<open>next\<close>; \<open>None\<close> stands for a walk longer than its fuel, one
  step for each leaf of the tree.
\<close>

fun scan_leaf ::
  "pystr \<Rightarrow> pystr \<Rightarrow> pystr list \<Rightarrow> pystr list \<Rightarrow> (pystr \<times> pystr) list \<times> bool" where
  "scan_leaf a b (k # ks) (v # vs) =
     (if b < k then ([], True)
      else let (r, stop) = scan_leaf a b ks vs in (if a \<le> k then (k, v) # r else r, stop))"
| "scan_leaf a b _ _ = ([], False)"

definition leaf_by_id :: "leaf list \<Rightarrow> nat \<Rightarrow> leaf option" where
  "leaf_by_id ls i = List.find (\<lambda>l. lf_id l = i) ls"

fun scan_walk :: "nat \<Rightarrow> leaf list \<Rightarrow> pystr \<Rightarrow> pystr \<Rightarrow> leaf \<Rightarrow> (pystr \<times> pystr) list option" where
  "scan_walk 0 ls a b l = None"
| "scan_walk (Suc n) ls a b l =
     (let (r, stop) = scan_leaf a b (lf_keys l) (lf_values l) in
      if stop then Some r
      else case lf_next l of
             None \<Rightarrow> Some r
           | Some i \<Rightarrow> (case leaf_by_id ls i of
                          None \<Rightarrow> None
                        | Some l' \<Rightarrow> map_option (\<lambda>r'. r @ r') (scan_walk n ls a b l')))"

definition bt_scan :: "btree \<Rightarrow> pystr \<Rightarrow> pystr \<Rightarrow> (pystr \<times> pystr) list option result" where
  "bt_scan t a b =
     bindE (find_leaf (bt_root t) a) (\<lambda>l.
       Inr (scan_walk (length (leaves (bt_root t))) (leaves (bt_root t)) a b l))"

definition bt_items :: "btree \<Rightarrow> (pystr \<times> pystr) list option result" where
  "bt_items t = bt_scan t [] [255, 255, 255]"

definition bt_len :: "btree \<Rightarrow> int" where
  "bt_len t = bt_size t"

fun node_height :: "bnode \<Rightarrow> nat result" where
  "node_height (Leaf l) = Inr 1"
| "node_height (Internal ks []) = Inl IndexError"
| "node_height (Internal ks (c # cs)) = bindE (node_height c) (\<lambda>h. Inr (h + 1))"

text \<open>\<open>_count_nodes\<close>: all nodes, leaves, internal nodes.\<close>

fun count_nodes :: "bnode \<Rightarrow> nat \<times> nat \<times> nat" where
  "count_nodes (Leaf l) = (1, 1, 0)"
| "count_nodes (Internal ks cs) =
     foldl (\<lambda>(total, leaf, inner) (a, b, c). (total + a, leaf + b, inner + c)) (1, 0, 1)
       (map count_nodes cs)"

end
