(* ===== verification/BTree_Shape.thy ===== *)
theory BTree_Shape
  imports BTree
begin

text \<open>
  The shape of the B+ tree: all leaves at one depth, one child more than separators, at most
  \<open>2 t - 1\<close> keys in a node. Insertion and deletion keep it, from any tree and for any key, and with
  it no list access of the source is out of range. A second part shows that the leaves stay
  linked in the order of the tree. Nothing here depends on the order of keys.
\<close>

section \<open>Shape: equal depth and node sizes\<close>

fun shape :: "nat \<Rightarrow> nat \<Rightarrow> bnode \<Rightarrow> bool" where
  "shape t h (Leaf l) \<longleftrightarrow>
     h = 0 \<and> length (lf_values l) = length (lf_keys l) \<and> length (lf_keys l) + 1 \<le> 2 * t"
| "shape t h (Internal ks cs) \<longleftrightarrow>
     0 < h \<and> length cs = Suc (length ks) \<and> length ks + 1 \<le> 2 * t \<and> (\<forall>c\<in>set cs. shape t (h - 1) c)"

text \<open>The two halves of a split node, the key between them, and the next identity.\<close>

fun halves :: "nat \<Rightarrow> nat \<Rightarrow> bnode \<Rightarrow> bnode \<times> pystr \<times> bnode \<times> nat" where
  "halves t nid (Leaf l) =
     (Leaf (l\<lparr>lf_keys := take t (lf_keys l), lf_values := take t (lf_values l), lf_next := Some nid\<rparr>),
      lf_keys l ! t,
      Leaf \<lparr>lf_id = nid, lf_keys = drop t (lf_keys l), lf_values = drop t (lf_values l), lf_next = lf_next l\<rparr>,
      nid + 1)"
| "halves t nid (Internal ks cs) =
     (Internal (take (t - 1) ks) (take t cs), ks ! (t - 1), Internal (drop t ks) (drop t cs), nid)"

lemma full_length: "shape t h c \<Longrightarrow> is_full t c \<Longrightarrow> length (node_keys c) + 1 = 2 * t"
  by (cases c) (auto simp: is_full_def)

lemma split_child_zip:
  assumes "2 \<le> t" "shape t h c" "is_full t c" "length ks1 = length cs1" "halves t nid c = (a, m, b, nid')"
  shows "split_child t nid (ks1 @ ks2) (cs1 @ c # cs2) (length cs1) = Inr (ks1 @ m # ks2, cs1 @ a # b # cs2, nid')"
proof (cases c)
  case (Leaf l)
  then have "t < length (lf_keys l)" using full_length [OF assms(2,3)] assms(1) by simp
  then show ?thesis using assms(4,5) Leaf
    by (auto simp: split_child_def Let_def list_insert_def nth_err_def nth_append)
next
  case (Internal k d)
  then have "t - 1 < length k" "Suc (t - 1) = t" using full_length [OF assms(2,3)] assms(1) by auto
  then show ?thesis using assms(4,5) Internal
    by (auto simp: split_child_def Let_def list_insert_def nth_err_def nth_append)
qed

lemma shape_halves:
  assumes "2 \<le> t" "shape t h c" "is_full t c" "halves t nid c = (a, m, b, nid')"
  shows "shape t h a" "shape t h b" "\<not> is_full t a" "\<not> is_full t b"
    "length (node_keys a) + 1 \<ge> t" "length (node_keys b) + 1 \<ge> t"
proof -
  have "shape t h a \<and> shape t h b \<and> \<not> is_full t a \<and> \<not> is_full t b \<and>
      length (node_keys a) + 1 \<ge> t \<and> length (node_keys b) + 1 \<ge> t"
  proof (cases c)
    case (Leaf l)
    then show ?thesis using full_length [OF assms(2,3)] assms by (auto simp: is_full_def)
  next
    case (Internal k d)
    then have "length k = 2 * t - 1" using full_length [OF assms(2,3)] by simp
    then show ?thesis using Internal assms
      by (auto simp: is_full_def dest!: in_set_takeD in_set_dropD)
  qed
  then show "shape t h a" "shape t h b" "\<not> is_full t a" "\<not> is_full t b"
    "length (node_keys a) + 1 \<ge> t" "length (node_keys b) + 1 \<ge> t" by blast+
qed

text \<open>The focus of a descent: the child chosen by \<open>bisect_right\<close>, with what is left and right of it.\<close>

lemma focus:
  assumes "length cs = Suc (length ks)"
  obtains ks1 ks2 cs1 c cs2 where "ks = ks1 @ ks2" "cs = cs1 @ c # cs2" "length ks1 = length cs1"
    "length ks2 = length cs2" "bisect_right ks key = length cs1" "cs ! bisect_right ks key = c"
proof -
  let ?i = "bisect_right ks key"
  have i: "?i \<le> length ks" by (rule bisect_right_le)
  then have "cs = take ?i cs @ cs ! ?i # drop (Suc ?i) cs"
    using assms i by (intro id_take_nth_drop) linarith
  then show ?thesis using that [of "take ?i ks" "drop ?i ks" "take ?i cs" "cs ! ?i" "drop (Suc ?i) cs"] i assms
    by simp
qed

lemma descend_cases:
  assumes t: "2 \<le> t" and sh: "shape t (Suc h) (Internal ks cs)"
  obtains (plain) ks1 ks2 cs1 c cs2 where "ks = ks1 @ ks2" "cs = cs1 @ c # cs2" "length ks1 = length cs1"
      "bisect_right ks key = length cs1" "\<not> is_full t c" "shape t h c"
      "descend t nid ks cs key = Inr (length cs1, ks1 @ ks2, cs1 @ c # cs2, nid)"
  | (left) ks1 ks2 cs1 c cs2 a m b nid' where "ks = ks1 @ ks2" "cs = cs1 @ c # cs2" "length ks1 = length cs1"
      "bisect_right ks key = length cs1" "is_full t c" "shape t h c" "halves t nid c = (a, m, b, nid')" "key \<le> m"
      "descend t nid ks cs key = Inr (length cs1, ks1 @ m # ks2, cs1 @ a # b # cs2, nid')"
  | (right) ks1 ks2 cs1 c cs2 a m b nid' where "ks = ks1 @ ks2" "cs = cs1 @ c # cs2" "length ks1 = length cs1"
      "bisect_right ks key = length cs1" "is_full t c" "shape t h c" "halves t nid c = (a, m, b, nid')" "m < key"
      "descend t nid ks cs key = Inr (length (cs1 @ [a]), ks1 @ m # ks2, (cs1 @ [a]) @ b # cs2, nid')"
proof -
  have "length cs = Suc (length ks)" using sh by simp
  then obtain ks1 ks2 cs1 c cs2 where f: "ks = ks1 @ ks2" "cs = cs1 @ c # cs2" "length ks1 = length cs1"
    "length ks2 = length cs2" "bisect_right ks key = length cs1" "cs ! bisect_right ks key = c"
    by (rule focus [where key = key])
  have c: "shape t h c" using sh f(2) by simp
  have nth: "nth_err cs (length cs1) = Inr c" by (simp add: f(2) nth_err_def)
  obtain a m b nid' where hv: "halves t nid c = (a, m, b, nid')" by (cases "halves t nid c")
  show ?thesis
  proof (cases "is_full t c")
    case True
    note sp = split_child_zip [OF t c True f(3) hv, of ks2 cs2]
    have d: "descend t nid ks cs key =
        Inr (if m < key then length cs1 + 1 else length cs1, ks1 @ m # ks2, cs1 @ a # b # cs2, nid')"
      unfolding descend_def Let_def f(5) nth bindE_simps using True sp f(1-3)
      by (simp add: nth_err_def nth_append)
    then show ?thesis using left [OF f(1-3,5) True c hv] right [OF f(1-3,5) True c hv]
      by (cases "m < key") auto
  next
    case False
    then have "descend t nid ks cs key = Inr (length cs1, ks1 @ ks2, cs1 @ c # cs2, nid)"
      unfolding descend_def Let_def f(5) nth bindE_simps by (simp add: f)
    then show ?thesis using plain [OF f(1-3,5) False c] by simp
  qed
qed

lemma list_update_focus [simp]: "(xs @ x # ys)[length xs := y] = xs @ y # ys"
  by (simp add: list_update_append)

lemma insert_step:
  "descend t nid ks cs key = Inr (length xs, ks', xs @ c # ys, nid') \<Longrightarrow>
     insert_non_full t nid (Internal ks cs) key val =
       bindE (insert_non_full t nid' c key val) (\<lambda>(c', nid''). Inr (Internal ks' (xs @ c' # ys), nid''))"
  by (simp add: case_prod_beta)

lemma insert_shape:
  assumes "2 \<le> t"
  shows "shape t h n \<Longrightarrow> \<not> is_full t n \<Longrightarrow>
    \<exists>n' nid'. insert_non_full t nid n key val = Inr (n', nid') \<and> shape t h n'"
proof (induction h arbitrary: n nid)
  case 0
  then obtain l where "n = Leaf l" by (cases n) auto
  then show ?case using 0 by (auto simp: is_full_def Let_def)
next
  case (Suc h)
  then obtain ks cs where n: "n = Internal ks cs" by (cases n) auto
  have sh: "shape t (Suc h) (Internal ks cs)" using Suc.prems n by simp
  have len: "length ks + 2 \<le> 2 * t" using Suc.prems n by (simp add: is_full_def)
  from assms sh show ?case
  proof (cases rule: descend_cases [where key = key and nid = nid])
    case (plain ks1 ks2 cs1 c cs2)
    obtain c' nid'' where "insert_non_full t nid c key val = Inr (c', nid'')" "shape t h c'"
      using Suc.IH [of c nid] plain by blast
    then show ?thesis unfolding n insert_step [OF plain(7)] using sh plain(1-3) by simp
  next
    case (left ks1 ks2 cs1 c cs2 a m b nid')
    note sh' = shape_halves [OF assms left(6,5,7)]
    obtain c' nid'' where "insert_non_full t nid' a key val = Inr (c', nid'')" "shape t h c'"
      using Suc.IH [OF sh'(1,3)] by blast
    then show ?thesis unfolding n insert_step [OF left(9)] using sh sh'(2) left(1-3) len by simp
  next
    case (right ks1 ks2 cs1 c cs2 a m b nid')
    note sh' = shape_halves [OF assms right(6,5,7)]
    obtain c' nid'' where "insert_non_full t nid' b key val = Inr (c', nid'')" "shape t h c'"
      using Suc.IH [OF sh'(2,4)] by blast
    then show ?thesis unfolding n insert_step [OF right(9)] using sh sh'(1) right(1-3) len by simp
  qed
qed

section \<open>Deletion keeps the shape\<close>

lemma find_min_total: "shape t h n \<Longrightarrow> \<exists>m. find_min_key n = Inr m"
proof (induction h arbitrary: n)
  case 0
  then show ?case by (cases n) auto
next
  case (Suc h)
  then obtain ks c cs where "n = Internal ks (c # cs)" by (cases n) (auto simp: length_Suc_conv)
  then show ?case using Suc by simp
qed

lemma leaf_index_Some:
  "leaf_index l key = Some i \<Longrightarrow> i < length (lf_keys l) \<and> lf_keys l ! i = key"
  by (auto simp: leaf_index_def Let_def split: if_splits)

text \<open>
  What rebalancing does, on the parent seen as left part, two adjacent leaves and right part: one
  pair moves from the right leaf to the left or back, or the two are merged.
\<close>

definition shift_left :: "leaf \<Rightarrow> leaf \<Rightarrow> leaf \<times> leaf" where
  "shift_left x y =
     (x\<lparr>lf_keys := lf_keys x @ [hd (lf_keys y)], lf_values := lf_values x @ [hd (lf_values y)]\<rparr>,
      y\<lparr>lf_keys := tl (lf_keys y), lf_values := tl (lf_values y)\<rparr>)"

definition shift_right :: "leaf \<Rightarrow> leaf \<Rightarrow> leaf \<times> leaf" where
  "shift_right x y =
     (x\<lparr>lf_keys := butlast (lf_keys x), lf_values := butlast (lf_values x)\<rparr>,
      y\<lparr>lf_keys := last (lf_keys x) # lf_keys y, lf_values := last (lf_values x) # lf_values y\<rparr>)"

lemma list_update_focus2 [simp]: "(xs @ x # y # ys)[Suc (length xs) := z] = xs @ x # z # ys"
  using list_update_focus [of "xs @ [x]" y ys z] by simp

lemma sibling_focus [simp]:
  "sibling (cs1 @ Leaf x # Leaf y # cs2) (Suc (length cs1)) = Some y"
  "sibling (cs1 @ c # cs2) (length cs1) = as_leaf c"
  by (simp_all add: sibling_def nth_append)

lemma list_remove_focus [simp]:
  "list_remove_at (length xs) (xs @ x # ys) = xs @ ys"
  "list_remove_at (Suc (length xs)) (xs @ x # y # ys) = xs @ x # ys"
  by (simp_all add: list_remove_at_def)

lemma focus_eq:
  "length xs = n \<Longrightarrow> (xs @ x # ys)[n := y] = xs @ y # ys"
  "length xs = n \<Longrightarrow> list_remove_at n (xs @ x # ys) = xs @ ys"
  by auto

lemma rebalance_borrow_right:
  assumes "2 \<le> t" "shape t 0 (Leaf r)" "t \<le> length (lf_keys r)" "length ks1 = length cs1"
  shows "rebalance_leaf t (ks1 @ s # ks2) (cs1 @ Leaf l # Leaf r # cs2) (length cs1) l =
    Inr (ks1 @ lf_keys r ! 1 # ks2,
         cs1 @ Leaf (fst (shift_left l r)) # Leaf (snd (shift_left l r)) # cs2)"
proof -
  have "lf_keys r \<noteq> []" "lf_values r \<noteq> []" "1 < length (lf_keys r)" using assms by auto
  then show ?thesis using assms
    by (simp add: rebalance_leaf_def borrow_right_def shift_left_def Let_def nth_err_def hd_conv_nth focus_eq)
qed

lemma rebalance_borrow_left:
  assumes "2 \<le> t" "shape t 0 (Leaf x)" "t \<le> length (lf_keys x)" "length ks1 = length cs1"
    and "\<And>r. sibling cs2 0 = Some r \<Longrightarrow> length (lf_keys r) < t"
  shows "rebalance_leaf t ((ks1 @ [s]) @ ks2) ((cs1 @ [Leaf x]) @ Leaf l # cs2) (length (cs1 @ [Leaf x])) l =
    Inr (ks1 @ last (lf_keys x) # ks2,
         cs1 @ Leaf (fst (shift_right x l)) # Leaf (snd (shift_right x l)) # cs2)"
proof -
  have ne: "lf_keys x \<noteq> []" "lf_values x \<noteq> []" using assms by auto
  have "sibling (cs1 @ Leaf x # Leaf l # cs2) (Suc (Suc (length cs1))) = sibling cs2 0"
    by (simp add: sibling_def nth_append)
  then show ?thesis using assms ne
    by (cases "sibling cs2 0") (auto simp: rebalance_leaf_def borrow_left_def shift_right_def Let_def focus_eq)
qed

lemma rebalance_merge_right:
  assumes "length (lf_keys r) < t" "length ks1 = length cs1"
    and "\<And>cs x. cs1 = cs @ [Leaf x] \<Longrightarrow> length (lf_keys x) < t"
  shows "rebalance_leaf t (ks1 @ s # ks2) (cs1 @ Leaf l # Leaf r # cs2) (length cs1) l =
    Inr (ks1 @ ks2, cs1 @ Leaf (merge_leaves l r) # cs2)"
proof -
  let ?cs = "cs1 @ Leaf l # Leaf r # cs2"
  let ?left = "if length cs1 > 0 then sibling ?cs (length cs1 - 1) else None"
  have "?left = None \<or> (\<exists>x. ?left = Some x \<and> length (lf_keys x) < t)"
  proof (cases cs1 rule: rev_cases)
    case (snoc cs c)
    then show ?thesis using assms(3) by (cases c) auto
  qed simp
  then show ?thesis using assms(1,2)
    unfolding rebalance_leaf_def Let_def by (elim disjE exE conjE) (simp_all add: focus_eq)
qed

lemma rebalance_merge_left:
  assumes "length (lf_keys x) < t" "length ks1 = length cs1"
  shows "rebalance_leaf t (ks1 @ [s]) ((cs1 @ [Leaf x]) @ [Leaf l]) (length (cs1 @ [Leaf x])) l =
    Inr (ks1, cs1 @ [Leaf (merge_leaves x l)])"
  using assms by (simp add: rebalance_leaf_def Let_def sibling_def nth_append focus_eq)

lemma rebalance_alone: "rebalance_leaf t [] [Leaf l] 0 l = Inr ([], [Leaf l])"
  by (simp add: rebalance_leaf_def Let_def sibling_def)

lemma rebalance_cases:
  assumes t: "2 \<le> t" and kc: "length ks1 = length cs1" "length ks2 = length cs2"
    and sh: "\<forall>c\<in>set (cs1 @ Leaf l # cs2). shape t 0 c"
    and low: "length (lf_keys l) + 1 < t"
  obtains
    (borrowR) r cs2' s ks2' where "cs2 = Leaf r # cs2'" "ks2 = s # ks2'" "length (lf_keys r) \<ge> t"
      "rebalance_leaf t (ks1 @ ks2) (cs1 @ Leaf l # cs2) (length cs1) l =
         Inr (ks1 @ lf_keys r ! 1 # ks2',
              cs1 @ Leaf (fst (shift_left l r)) # Leaf (snd (shift_left l r)) # cs2')"
  | (borrowL) x cs1' s ks1' where "cs1 = cs1' @ [Leaf x]" "ks1 = ks1' @ [s]" "length (lf_keys x) \<ge> t"
      "rebalance_leaf t (ks1 @ ks2) (cs1 @ Leaf l # cs2) (length cs1) l =
         Inr (ks1' @ last (lf_keys x) # ks2,
              cs1' @ Leaf (fst (shift_right x l)) # Leaf (snd (shift_right x l)) # cs2)"
  | (mergeR) r cs2' s ks2' where "cs2 = Leaf r # cs2'" "ks2 = s # ks2'" "length (lf_keys r) < t"
      "rebalance_leaf t (ks1 @ ks2) (cs1 @ Leaf l # cs2) (length cs1) l =
         Inr (ks1 @ ks2', cs1 @ Leaf (merge_leaves l r) # cs2')"
  | (mergeL) x cs1' s ks1' where "cs2 = []" "ks2 = []" "cs1 = cs1' @ [Leaf x]" "ks1 = ks1' @ [s]"
      "length (lf_keys x) < t"
      "rebalance_leaf t (ks1 @ ks2) (cs1 @ Leaf l # cs2) (length cs1) l =
         Inr (ks1', cs1' @ [Leaf (merge_leaves x l)])"
  | (alone) "cs1 = []" "cs2 = []" "ks1 = []" "ks2 = []"
      "rebalance_leaf t (ks1 @ ks2) (cs1 @ Leaf l # cs2) (length cs1) l = Inr ([], [Leaf l])"
proof -
  have leafc: "\<exists>x. c = Leaf x" if "c \<in> set cs1 \<or> c \<in> set cs2" for c
  proof -
    have "shape t 0 c" using sh that by auto
    then show ?thesis by (cases c) auto
  qed
  have right: "cs2 = [] \<and> ks2 = [] \<or> (\<exists>r cs2' s ks2'. cs2 = Leaf r # cs2' \<and> ks2 = s # ks2')"
    using kc(2) leafc by (cases cs2; cases ks2) fastforce+
  have left: "cs1 = [] \<and> ks1 = [] \<or> (\<exists>x cs1' s ks1'. cs1 = cs1' @ [Leaf x] \<and> ks1 = ks1' @ [s])"
    using kc(1) leafc by (cases cs1 rule: rev_cases; cases ks1 rule: rev_cases) fastforce+
  consider (R) r cs2' s ks2' where "cs2 = Leaf r # cs2'" "ks2 = s # ks2'" "t \<le> length (lf_keys r)"
    | (L) x cs1' s ks1' where "cs1 = cs1' @ [Leaf x]" "ks1 = ks1' @ [s]" "t \<le> length (lf_keys x)"
        "\<And>r. sibling cs2 0 = Some r \<Longrightarrow> length (lf_keys r) < t"
    | (MR) r cs2' s ks2' where "cs2 = Leaf r # cs2'" "ks2 = s # ks2'" "length (lf_keys r) < t"
        "\<And>cs x. cs1 = cs @ [Leaf x] \<Longrightarrow> length (lf_keys x) < t"
    | (LM) x cs1' s ks1' where "cs2 = []" "ks2 = []" "cs1 = cs1' @ [Leaf x]" "ks1 = ks1' @ [s]"
        "length (lf_keys x) < t"
    | (A) "cs1 = []" "cs2 = []" "ks1 = []" "ks2 = []"
    using left right by (fastforce simp: sibling_def not_le)
  then show ?thesis
  proof cases
    case (R r cs2' s ks2')
    then show ?thesis using borrowR rebalance_borrow_right [OF t _ R(3) kc(1)] sh by simp
  next
    case (L x cs1' s ks1')
    then show ?thesis using borrowL rebalance_borrow_left [OF t _ L(3) _ L(4), of ks1' cs1'] sh kc(1) by simp
  next
    case (MR r cs2' s ks2')
    then show ?thesis using mergeR rebalance_merge_right [OF MR(3) kc(1) MR(4)] by simp
  next
    case (LM x cs1' s ks1')
    then show ?thesis using mergeL rebalance_merge_left [OF LM(5), of ks1' cs1'] kc(1) by simp
  next
    case A
    then show ?thesis using alone rebalance_alone by simp
  qed
qed

text \<open>The separator after the focus becomes the first key of the child to its right.\<close>

definition min_key :: "bnode \<Rightarrow> pystr" where
  "min_key n = (case find_min_key n of Inr m \<Rightarrow> m | Inl _ \<Rightarrow> [])"

fun refresh :: "pystr list \<Rightarrow> bnode list \<Rightarrow> pystr list" where
  "refresh (s # ks) (c # cs) = min_key c # ks"
| "refresh ks cs = ks"

lemma length_refresh [simp]: "length (refresh ks cs) = length ks"
  by (cases "(ks, cs)" rule: refresh.cases) auto

lemma refresh_step:
  assumes "length ks1 = length cs1" "length ks2 = length cs2" "\<forall>d\<in>set cs2. shape t h d" "i = length cs1"
  shows "refresh_separator i (ks1 @ ks2) (cs1 @ c # cs2) =
    Inr (Internal (ks1 @ refresh ks2 cs2) (cs1 @ c # cs2))"
proof (cases cs2)
  case Nil
  then show ?thesis using assms by (simp add: refresh_separator_def)
next
  case (Cons d ds)
  then obtain s ks where "ks2 = s # ks" using assms(2) by (cases ks2) auto
  moreover obtain m where "find_min_key d = Inr m" using find_min_total assms(3) Cons by fastforce
  ultimately show ?thesis using assms Cons
    by (simp add: refresh_separator_def nth_append min_key_def focus_eq)
qed

lemma after_delete_cases:
  assumes t: "2 \<le> t" and kc: "length ks1 = length cs1" "length ks2 = length cs2"
    and sh: "shape t h c" "\<forall>d\<in>set (cs1 @ cs2). shape t h d"
  obtains
    (plain) "after_delete t (ks1 @ ks2) (cs1 @ c0 # cs2) (length cs1) c =
        Inr (Internal (ks1 @ refresh ks2 cs2) (cs1 @ c # cs2))"
      "\<And>l. c = Leaf l \<Longrightarrow> length (lf_keys l) + 1 < t \<Longrightarrow> ks1 = [] \<and> ks2 = []"
  | (borrowR) l r cs2' s ks2' where "c = Leaf l" "cs2 = Leaf r # cs2'" "ks2 = s # ks2'" "t \<le> length (lf_keys r)"
      "length (lf_keys l) + 1 < t" "after_delete t (ks1 @ ks2) (cs1 @ c0 # cs2) (length cs1) c =
        Inr (Internal (ks1 @ lf_keys r ! 1 # ks2')
               (cs1 @ Leaf (fst (shift_left l r)) # Leaf (snd (shift_left l r)) # cs2'))"
  | (borrowL) l x cs1' s ks1' where "c = Leaf l" "cs1 = cs1' @ [Leaf x]" "ks1 = ks1' @ [s]" "t \<le> length (lf_keys x)"
      "length (lf_keys l) + 1 < t" "after_delete t (ks1 @ ks2) (cs1 @ c0 # cs2) (length cs1) c =
        Inr (Internal (ks1' @ last (lf_keys x) # refresh ks2 cs2)
               (cs1' @ Leaf (fst (shift_right x l)) # Leaf (snd (shift_right x l)) # cs2))"
  | (mergeR) l r cs2' s ks2' where "c = Leaf l" "cs2 = Leaf r # cs2'" "ks2 = s # ks2'"
      "length (lf_keys l) + length (lf_keys r) + 1 \<le> 2 * t"
      "after_delete t (ks1 @ ks2) (cs1 @ c0 # cs2) (length cs1) c =
        Inr (Internal (ks1 @ refresh ks2' cs2') (cs1 @ Leaf (merge_leaves l r) # cs2'))"
  | (mergeL) l x cs1' s ks1' where "c = Leaf l" "cs2 = []" "ks2 = []" "cs1 = cs1' @ [Leaf x]" "ks1 = ks1' @ [s]"
      "length (lf_keys x) + length (lf_keys l) + 1 \<le> 2 * t"
      "after_delete t (ks1 @ ks2) (cs1 @ c0 # cs2) (length cs1) c =
        Inr (Internal ks1' (cs1' @ [Leaf (merge_leaves x l)]))"
proof (cases "\<exists>l. c = Leaf l \<and> length (lf_keys l) + 1 < t")
  case False
  then have "after_delete t (ks1 @ ks2) (cs1 @ c0 # cs2) (length cs1) c =
        Inr (Internal (ks1 @ refresh ks2 cs2) (cs1 @ c # cs2))"
    using refresh_step [OF kc, of t h "length cs1" c] sh(2) by (cases c) (auto simp: after_delete_def)
  then show ?thesis using plain False by blast
next
  case True
  then obtain l where l: "c = Leaf l" "length (lf_keys l) + 1 < t" by blast
  then have h0: "h = 0" using sh(1) by simp
  have ad: "after_delete t (ks1 @ ks2) (cs1 @ c0 # cs2) (length cs1) c =
      bindE (rebalance_leaf t (ks1 @ ks2) (cs1 @ Leaf l # cs2) (length cs1) l)
        (\<lambda>(ks2, cs2). refresh_separator (length cs1) ks2 cs2)"
    using l by (simp add: after_delete_def)
  have "\<forall>d\<in>set (cs1 @ Leaf l # cs2). shape t 0 d" using sh l h0 by auto
  from t kc this l(2) show ?thesis
  proof (cases rule: rebalance_cases)
    case (borrowR r cs2' s ks2')
    then have "lf_keys r ! 1 = min_key (Leaf (snd (shift_left l r)))"
      using t by (cases "lf_keys r") (auto simp: shift_left_def min_key_def hd_conv_nth)
    then have sep: "refresh (lf_keys r ! 1 # ks2') (Leaf (snd (shift_left l r)) # cs2') = lf_keys r ! 1 # ks2'"
      by simp
    have sh2: "\<forall>d\<in>set (Leaf (snd (shift_left l r)) # cs2'). shape t 0 d"
      using sh h0 borrowR(1) by (auto simp: shift_left_def)
    have len: "length (lf_keys r ! 1 # ks2') = length (Leaf (snd (shift_left l r)) # cs2')"
      using kc(2) borrowR(1,2) by simp
    show ?thesis
      by (intro that(2) [OF l(1) borrowR(1-3) l(2)])
        (simp only: ad borrowR(4) bindE_simps prod.case refresh_step [OF kc(1) len sh2 refl] sep)
  next
    case (borrowL x cs1' s ks1')
    have "refresh_separator (length cs1) ((ks1' @ [last (lf_keys x)]) @ ks2)
        ((cs1' @ [Leaf (fst (shift_right x l))]) @ Leaf (snd (shift_right x l)) # cs2) =
      Inr (Internal ((ks1' @ [last (lf_keys x)]) @ refresh ks2 cs2)
        ((cs1' @ [Leaf (fst (shift_right x l))]) @ Leaf (snd (shift_right x l)) # cs2))"
      using kc sh(2) by (intro refresh_step [where t = t and h = h]) (auto simp: borrowL)
    then show ?thesis
      by (intro that(3) [OF l(1) borrowL(1-3) l(2)]) (simp add: ad borrowL(4))
  next
    case (mergeR r cs2' s ks2')
    have "refresh_separator (length cs1) (ks1 @ ks2') (cs1 @ Leaf (merge_leaves l r) # cs2') =
      Inr (Internal (ks1 @ refresh ks2' cs2') (cs1 @ Leaf (merge_leaves l r) # cs2'))"
      using kc sh(2) mergeR(1,2) by (intro refresh_step [where t = t and h = h]) auto
    then show ?thesis
      using l(2) mergeR(3) by (intro that(4) [OF l(1) mergeR(1,2)]) (simp_all add: ad mergeR(4))
  next
    case (mergeL x cs1' s ks1')
    have "refresh_separator (length cs1) ks1' (cs1' @ [Leaf (merge_leaves x l)]) =
        Inr (Internal ks1' (cs1' @ [Leaf (merge_leaves x l)]))"
      using kc(1) mergeL(3,4) by (simp add: refresh_separator_def)
    then show ?thesis
      using l(2) mergeL(5) by (intro that(5) [OF l(1) mergeL(1-4)]) (simp_all add: ad mergeL(6))
  next
    case alone
    then show ?thesis using that(1) ad by (simp add: refresh_separator_def l(1))
  qed
qed

lemma after_delete_shape:
  assumes "2 \<le> t" "length ks1 = length cs1" "length ks2 = length cs2"
    "shape t h c" "\<forall>d\<in>set (cs1 @ cs2). shape t h d" "length (ks1 @ ks2) + 1 \<le> 2 * t"
  shows "\<exists>n. after_delete t (ks1 @ ks2) (cs1 @ c0 # cs2) (length cs1) c = Inr n \<and> shape t (Suc h) n"
  using assms(1-5)
proof (cases rule: after_delete_cases [where ?c0.0 = c0])
  case plain
  then show ?thesis using assms by simp
next
  case (borrowR l r cs2' s ks2')
  show ?thesis using assms borrowR(1-5) unfolding borrowR(6) by (auto simp: shift_left_def)
next
  case (borrowL l x cs1' s ks1')
  show ?thesis using assms borrowL(1-5) unfolding borrowL(6) by (auto simp: shift_right_def)
next
  case (mergeR l r cs2' s ks2')
  show ?thesis using assms mergeR(1-4) unfolding mergeR(5) by (auto simp: merge_leaves_def)
next
  case (mergeL l x cs1' s ks1')
  show ?thesis using assms mergeL(1-6) unfolding mergeL(7) by (auto simp: merge_leaves_def)
qed

lemma shape_focus:
  assumes "shape t (Suc h) n"
  obtains ks1 ks2 cs1 c0 cs2 where "n = Internal (ks1 @ ks2) (cs1 @ c0 # cs2)" "length ks1 = length cs1"
    "length ks2 = length cs2" "bisect_right (ks1 @ ks2) key = length cs1" "shape t h c0"
    "\<forall>d\<in>set (cs1 @ cs2). shape t h d" "length (ks1 @ ks2) + 1 \<le> 2 * t"
proof -
  obtain ks cs where n: "n = Internal ks cs" using assms by (cases n) auto
  have "length cs = Suc (length ks)" using assms n by simp
  then obtain ks1 ks2 cs1 c0 cs2 where f: "ks = ks1 @ ks2" "cs = cs1 @ c0 # cs2" "length ks1 = length cs1"
    "length ks2 = length cs2" "bisect_right ks key = length cs1" "cs ! bisect_right ks key = c0"
    by (rule focus [where key = key])
  show ?thesis
    by (rule that [of ks1 ks2 cs1 c0 cs2]) (use assms f(3-5) in \<open>simp_all add: n f(1,2)\<close>)
qed

lemma delete_step:
  assumes "bisect_right (ks1 @ ks2) key = length cs1" "delete_recursive t c0 key = Inr (found, c)"
  shows "delete_recursive t (Internal (ks1 @ ks2) (cs1 @ c0 # cs2)) key =
    (if found then bindE (after_delete t (ks1 @ ks2) (cs1 @ c0 # cs2) (length cs1) c) (\<lambda>n. Inr (True, n))
     else Inr (False, Internal (ks1 @ ks2) (cs1 @ c0 # cs2)))"
  using assms by (simp add: Let_def)

lemma delete_shape:
  assumes "2 \<le> t"
  shows "shape t h n \<Longrightarrow>
    \<exists>found n'. delete_recursive t n key = Inr (found, n') \<and> shape t h n' \<and> (\<not> found \<longrightarrow> n' = n)"
proof (induction h arbitrary: n)
  case 0
  then obtain l where "n = Leaf l" by (cases n) auto
  then show ?case using 0 leaf_index_Some [of l key]
    by (cases "leaf_index l key") (simp_all add: leaf_pop_def ex_bool_eq, linarith)
next
  case (Suc h)
  obtain ks1 ks2 cs1 c0 cs2 where f: "n = Internal (ks1 @ ks2) (cs1 @ c0 # cs2)" "length ks1 = length cs1"
    "length ks2 = length cs2" "bisect_right (ks1 @ ks2) key = length cs1" "shape t h c0"
    "\<forall>d\<in>set (cs1 @ cs2). shape t h d" "length (ks1 @ ks2) + 1 \<le> 2 * t"
    by (rule shape_focus [OF Suc.prems, where key = key])
  obtain found c where c: "delete_recursive t c0 key = Inr (found, c)" "shape t h c"
    using Suc.IH [OF f(5)] by blast
  obtain n' where "after_delete t (ks1 @ ks2) (cs1 @ c0 # cs2) (length cs1) c = Inr n'" "shape t (Suc h) n'"
    using after_delete_shape [OF assms f(2,3) c(2) f(6,7)] by blast
  with delete_step [OF f(4) c(1), of cs2] Suc.prems show ?case
    by (cases found) (simp_all only: f(1) if_True if_False bindE_simps, blast+)
qed

section \<open>The chain of leaves\<close>

primrec first_id :: "nat option \<Rightarrow> leaf list \<Rightarrow> nat option" where
  "first_id nx [] = nx"
| "first_id nx (l # ls) = Some (lf_id l)"

primrec chained :: "nat option \<Rightarrow> leaf list \<Rightarrow> bool" where
  "chained nx [] \<longleftrightarrow> True"
| "chained nx (l # ls) \<longleftrightarrow> lf_next l = first_id nx ls \<and> chained nx ls"

lemma first_id_append [simp]: "first_id nx (xs @ ys) = first_id (first_id nx ys) xs"
  by (cases xs) auto

lemma chained_append [simp]: "chained nx (xs @ ys) \<longleftrightarrow> chained (first_id nx ys) xs \<and> chained nx ys"
  by (induction xs) auto

definition relink :: "leaf list \<Rightarrow> leaf list \<Rightarrow> bool" where
  "relink xs ys \<longleftrightarrow> (\<forall>nx. chained nx xs \<longrightarrow> chained nx ys \<and> first_id nx ys = first_id nx xs)"

lemma relink_refl: "relink xs xs"
  by (simp add: relink_def)

lemma relink_trans: "relink xs ys \<Longrightarrow> relink ys zs \<Longrightarrow> relink xs zs"
  by (simp add: relink_def)

lemma relink_cong: "relink xs ys \<Longrightarrow> relink (as @ xs @ bs) (as @ ys @ bs)"
  by (simp add: relink_def)

text \<open>The new leaves carry the identities handed out in between.\<close>

definition regrow :: "nat \<Rightarrow> leaf list \<Rightarrow> nat \<Rightarrow> leaf list \<Rightarrow> bool" where
  "regrow i xs j ys \<longleftrightarrow>
     relink xs ys \<and> i \<le> j \<and> mset (map lf_id ys) = mset (map lf_id xs) + mset [i..<j]"

lemma regrow_refl: "regrow i xs i xs"
  by (simp add: regrow_def relink_refl)

lemma regrow_trans:
  assumes "regrow i xs j ys" "regrow j ys k zs"
  shows "regrow i xs k zs"
proof -
  have "i \<le> j" "j \<le> k" using assms by (auto simp: regrow_def)
  then have "[i..<k] = [i..<j] @ [j..<k]" by (metis le_add_diff_inverse upt_add_eq_append)
  then show ?thesis using assms by (auto simp: regrow_def intro: relink_trans)
qed

lemma regrow_cong: "regrow i xs j ys \<Longrightarrow> regrow i (as @ xs @ bs) j (as @ ys @ bs)"
  by (simp add: regrow_def relink_cong)

lemma halves_leaves:
  assumes "halves t nid c = (a, m, b, nid')"
  shows "regrow nid (leaves c) nid' (leaves a @ leaves b)"
proof (cases c)
  case (Leaf l)
  then show ?thesis using assms by (auto simp: regrow_def relink_def)
next
  case (Internal ks cs)
  moreover have "concat (map leaves (take t cs)) @ concat (map leaves (drop t cs)) = concat (map leaves cs)"
    by (metis append_take_drop_id concat_append map_append)
  ultimately show ?thesis using assms by (auto simp: regrow_refl)
qed

lemma insert_leaves:
  assumes "2 \<le> t"
  shows "shape t h n \<Longrightarrow> insert_non_full t nid n key val = Inr (n', nid') \<Longrightarrow>
    regrow nid (leaves n) nid' (leaves n')"
proof (induction h arbitrary: n nid n' nid')
  case 0
  then obtain l where "n = Leaf l" by (cases n) auto
  then show ?case using 0 by (auto simp: Let_def regrow_def relink_def)
next
  case (Suc h)
  then obtain ks cs where n: "n = Internal ks cs" by (cases n) auto
  have sh: "shape t (Suc h) (Internal ks cs)" using Suc.prems n by simp
  from assms sh show ?case
  proof (cases rule: descend_cases [where key = key and nid = nid])
    case (plain ks1 ks2 cs1 c cs2)
    obtain c' where ins: "insert_non_full t nid c key val = Inr (c', nid')" "n' = Internal (ks1 @ ks2) (cs1 @ c' # cs2)"
      using Suc.prems(2) unfolding n insert_step [OF plain(7)] by auto
    show ?thesis using regrow_cong [OF Suc.IH [OF plain(6) ins(1)]] by (simp add: n plain(1,2) ins(2))
  next
    case (left ks1 ks2 cs1 c cs2 a m b nid1)
    note sh' = shape_halves [OF assms left(6,5,7)]
    obtain a' where ins: "insert_non_full t nid1 a key val = Inr (a', nid')"
      "n' = Internal (ks1 @ m # ks2) (cs1 @ a' # b # cs2)"
      using Suc.prems(2) unfolding n insert_step [OF left(9)] by auto
    have "regrow nid (leaves c) nid' (leaves a' @ leaves b)"
      using regrow_trans [OF halves_leaves [OF left(7)]]
        regrow_cong [OF Suc.IH [OF sh'(1) ins(1)], of "[]" "leaves b"] by simp
    from regrow_cong [OF this] show ?thesis by (simp add: n left(1,2) ins(2))
  next
    case (right ks1 ks2 cs1 c cs2 a m b nid1)
    note sh' = shape_halves [OF assms right(6,5,7)]
    obtain b' where ins: "insert_non_full t nid1 b key val = Inr (b', nid')"
      "n' = Internal (ks1 @ m # ks2) ((cs1 @ [a]) @ b' # cs2)"
      using Suc.prems(2) unfolding n insert_step [OF right(9)] by auto
    have "regrow nid (leaves c) nid' (leaves a @ leaves b')"
      using regrow_trans [OF halves_leaves [OF right(7)]]
        regrow_cong [OF Suc.IH [OF sh'(2) ins(1)], of "leaves a" "[]"] by simp
    from regrow_cong [OF this] show ?thesis by (simp add: n right(1,2) ins(2))
  qed
qed

text \<open>Deletion only drops leaves.\<close>

definition regrow_down :: "leaf list \<Rightarrow> leaf list \<Rightarrow> bool" where
  "regrow_down xs ys \<longleftrightarrow> relink xs ys \<and> mset (map lf_id ys) \<subseteq># mset (map lf_id xs)"

lemma regrow_down_cong: "regrow_down xs ys \<Longrightarrow> regrow_down (as @ xs @ bs) (as @ ys @ bs)"
  by (simp add: regrow_down_def relink_cong)

lemma regrow_down_trans: "regrow_down xs ys \<Longrightarrow> regrow_down ys zs \<Longrightarrow> regrow_down xs zs"
  unfolding regrow_down_def using relink_trans subset_mset.order_trans by blast

lemma regrow_down_moves:
  "regrow_down [x, y] [fst (shift_left x y), snd (shift_left x y)]"
  "regrow_down [x, y] [fst (shift_right x y), snd (shift_right x y)]"
  "regrow_down [x, y] [merge_leaves x y]"
  by (auto simp: regrow_down_def relink_def shift_left_def shift_right_def merge_leaves_def)

lemma after_delete_leaves:
  assumes "2 \<le> t" "length ks1 = length cs1" "length ks2 = length cs2"
    "shape t h c" "\<forall>d\<in>set (cs1 @ cs2). shape t h d"
    and "after_delete t (ks1 @ ks2) (cs1 @ c0 # cs2) (length cs1) c = Inr n"
  shows "regrow_down (leaves (Internal (ks1 @ ks2) (cs1 @ c # cs2))) (leaves n)"
  using assms(1-5)
proof (cases rule: after_delete_cases [where ?c0.0 = c0])
  case plain
  then show ?thesis using assms(6) by (auto simp: regrow_down_def relink_refl)
next
  case (borrowR l r cs2' s ks2')
  then show ?thesis using assms(6) regrow_down_cong [OF regrow_down_moves(1) [of l r]] by auto
next
  case (borrowL l x cs1' s ks1')
  then show ?thesis using assms(6) regrow_down_cong [OF regrow_down_moves(2) [of x l]] by auto
next
  case (mergeR l r cs2' s ks2')
  then show ?thesis using assms(6) regrow_down_cong [OF regrow_down_moves(3) [of l r]] by auto
next
  case (mergeL l x cs1' s ks1')
  then show ?thesis using assms(6) regrow_down_cong [OF regrow_down_moves(3) [of x l], of _ "[]"] by auto
qed

lemma delete_leaves:
  assumes "2 \<le> t"
  shows "shape t h n \<Longrightarrow> delete_recursive t n key = Inr (found, n') \<Longrightarrow>
    regrow_down (leaves n) (leaves n')"
proof (induction h arbitrary: n n' found)
  case 0
  then obtain l where "n = Leaf l" by (cases n) auto
  then show ?case using 0
    by (auto simp: regrow_down_def relink_def leaf_pop_def split: option.splits)
next
  case (Suc h)
  obtain ks1 ks2 cs1 c0 cs2 where f: "n = Internal (ks1 @ ks2) (cs1 @ c0 # cs2)" "length ks1 = length cs1"
    "length ks2 = length cs2" "bisect_right (ks1 @ ks2) key = length cs1" "shape t h c0"
    "\<forall>d\<in>set (cs1 @ cs2). shape t h d" "length (ks1 @ ks2) + 1 \<le> 2 * t"
    by (rule shape_focus [OF Suc.prems(1), where key = key])
  obtain fnd c where c: "delete_recursive t c0 key = Inr (fnd, c)" "shape t h c"
    using delete_shape [OF assms f(5)] by blast
  note res = Suc.prems(2) [unfolded f(1) delete_step [OF f(4) c(1)]]
  show ?case
  proof (cases fnd)
    case True
    then have "after_delete t (ks1 @ ks2) (cs1 @ c0 # cs2) (length cs1) c = Inr n'"
      using res by auto
    from after_delete_leaves [OF assms f(2,3) c(2) f(6) this]
      regrow_down_cong [OF Suc.IH [OF f(5) c(1)]]
    show ?thesis unfolding f(1) by (auto intro: regrow_down_trans)
  next
    case False
    then show ?thesis using res by (auto simp: f(1) regrow_down_def relink_refl)
  qed
qed

end
