(* ===== verification/BTree_Order.thy ===== *)
theory BTree_Order
  imports BTree_Shape
begin

text \<open>
  The order of keys and separators in the B+ tree, and what lookup, insertion and deletion do to
  the stored pairs of an ordered tree.
\<close>

section \<open>Order of keys and separators\<close>

definition at_least :: "pystr option \<Rightarrow> pystr \<Rightarrow> bool" where
  "at_least lo k \<longleftrightarrow> (case lo of None \<Rightarrow> True | Some b \<Rightarrow> b \<le> k)"

definition beyond :: "pystr option \<Rightarrow> pystr \<Rightarrow> bool" where
  "beyond lo k \<longleftrightarrow> (case lo of None \<Rightarrow> True | Some b \<Rightarrow> b < k)"

definition below :: "pystr \<Rightarrow> pystr option \<Rightarrow> bool" where
  "below k hi \<longleftrightarrow> (case hi of None \<Rightarrow> True | Some b \<Rightarrow> k < b)"

lemmas bound_defs = at_least_def beyond_def below_def

lemma bound_simps [simp]:
  "at_least None k" "beyond None k" "below k None"
  "at_least (Some b) k \<longleftrightarrow> b \<le> k" "beyond (Some b) k \<longleftrightarrow> b < k" "below k (Some b) \<longleftrightarrow> k < b"
  by (simp_all add: bound_defs)

lemma at_least_less: "at_least lo k \<Longrightarrow> k < j \<Longrightarrow> beyond lo j"
  by (auto simp: bound_defs split: option.splits)

lemma at_least_trans: "at_least lo k \<Longrightarrow> k \<le> j \<Longrightarrow> at_least lo j"
  by (auto simp: bound_defs split: option.splits)

lemma beyond_trans: "beyond lo k \<Longrightarrow> k \<le> j \<Longrightarrow> beyond lo j"
  by (auto simp: bound_defs split: option.splits)

lemma beyond_at_least: "beyond lo k \<Longrightarrow> at_least lo k"
  by (auto simp: bound_defs split: option.splits)

lemma below_trans: "below k hi \<Longrightarrow> j \<le> k \<Longrightarrow> below j hi"
  by (auto simp: bound_defs split: option.splits)

text \<open>
  Keys of a subtree lie in \<open>[lo, hi)\<close>, separators strictly inside, and each separator divides the
  children left and right of it.
\<close>

fun ordered :: "pystr option \<Rightarrow> pystr option \<Rightarrow> bnode \<Rightarrow> bool"
and ordered_list :: "pystr option \<Rightarrow> pystr option \<Rightarrow> pystr list \<Rightarrow> bnode list \<Rightarrow> bool" where
  "ordered lo hi (Leaf l) \<longleftrightarrow>
     sorted_wrt (<) (lf_keys l) \<and> (\<forall>k\<in>set (lf_keys l). at_least lo k \<and> below k hi)"
| "ordered lo hi (Internal ks cs) \<longleftrightarrow> ordered_list lo hi ks cs"
| "ordered_list lo hi [] (c # cs) \<longleftrightarrow> cs = [] \<and> ordered lo hi c"
| "ordered_list lo hi (k # ks) (c # cs) \<longleftrightarrow>
     beyond lo k \<and> below k hi \<and> ordered lo (Some k) c \<and> ordered_list (Some k) hi ks cs"
| "ordered_list lo hi ks [] \<longleftrightarrow> False"

text \<open>The same, split at a focus: left of it, the child, right of it.\<close>

fun ordered_pre :: "pystr option \<Rightarrow> pystr option \<Rightarrow> pystr list \<Rightarrow> bnode list \<Rightarrow> bool" where
  "ordered_pre lo hi (k # ks) (c # cs) \<longleftrightarrow>
     beyond lo k \<and> below k hi \<and> ordered lo (Some k) c \<and> ordered_pre (Some k) hi ks cs"
| "ordered_pre lo hi ks cs \<longleftrightarrow> ks = [] \<and> cs = []"

fun ordered_post :: "pystr option \<Rightarrow> pystr option \<Rightarrow> pystr list \<Rightarrow> bnode list \<Rightarrow> bool" where
  "ordered_post lo hi [] cs \<longleftrightarrow> cs = []"
| "ordered_post lo hi (k # ks) cs \<longleftrightarrow> beyond lo k \<and> below k hi \<and> ordered_list (Some k) hi ks cs"

primrec last_sep :: "pystr option \<Rightarrow> pystr list \<Rightarrow> pystr option" where
  "last_sep lo [] = lo"
| "last_sep lo (k # ks) = last_sep (Some k) ks"

primrec hd_sep :: "pystr option \<Rightarrow> pystr list \<Rightarrow> pystr option" where
  "hd_sep hi [] = hi"
| "hd_sep hi (k # ks) = Some k"

lemma ordered_list_pre:
  "length ks1 = length cs1 \<Longrightarrow>
     ordered_list lo hi (ks1 @ ks2) (cs1 @ cs2) \<longleftrightarrow>
       ordered_pre lo hi ks1 cs1 \<and> ordered_list (last_sep lo ks1) hi ks2 cs2"
  by (induction ks1 cs1 arbitrary: lo rule: list_induct2) auto

lemma ordered_list_post:
  "ordered_list lo hi ks (c # cs) \<longleftrightarrow> ordered lo (hd_sep hi ks) c \<and> ordered_post lo hi ks cs"
  by (cases ks) auto

lemma ordered_zip:
  "length ks1 = length cs1 \<Longrightarrow>
     ordered_list lo hi (ks1 @ ks2) (cs1 @ c # cs2) \<longleftrightarrow>
       ordered_pre lo hi ks1 cs1 \<and> ordered (last_sep lo ks1) (hd_sep hi ks2) c \<and>
       ordered_post (last_sep lo ks1) hi ks2 cs2"
  by (simp add: ordered_list_pre ordered_list_post)

lemma last_sep_snoc [simp]: "last_sep lo (ks @ [k]) = Some k"
  by (induction ks arbitrary: lo) auto

lemma ordered_pre_above:
  "ordered_pre lo hi ks cs \<Longrightarrow> beyond (last_sep lo ks) m \<Longrightarrow> beyond lo m \<and> (\<forall>k\<in>set ks. k < m)"
proof (induction lo hi ks cs rule: ordered_pre.induct)
  case (1 lo hi k ks c cs)
  then have "k < m" "\<forall>k\<in>set ks. k < m" by auto
  then show ?case using 1(2) beyond_trans [of lo k m] by auto
qed auto

lemma ordered_pre_tighten:
  "ordered_pre lo hi ks cs \<Longrightarrow> \<forall>k\<in>set ks. k < m \<Longrightarrow> ordered_pre lo (Some m) ks cs"
  by (induction lo hi ks cs rule: ordered_pre.induct) auto

lemma ordered_post_raise:
  "ordered_post lo hi ks cs \<Longrightarrow> below m (hd_sep hi ks) \<Longrightarrow> ordered_post (Some m) hi ks cs"
  by (cases ks) auto

lemma ordered_post_below: "ordered_post lo hi ks cs \<Longrightarrow> below m (hd_sep hi ks) \<Longrightarrow> below m hi"
  by (cases ks) (auto intro: below_trans less_imp_le)

lemma ordered_mono_hi:
  "ordered lo hi n \<Longrightarrow> (\<And>k. below k hi \<Longrightarrow> below k hi') \<Longrightarrow> ordered lo hi' n"
  "ordered_list lo hi ks cs \<Longrightarrow> (\<And>k. below k hi \<Longrightarrow> below k hi') \<Longrightarrow> ordered_list lo hi' ks cs"
  by (induction lo hi n and lo hi ks cs rule: ordered_ordered_list.induct) auto

subsection \<open>Contents\<close>

definition leaf_pairs :: "leaf \<Rightarrow> (pystr \<times> pystr) list" where
  "leaf_pairs l = zip (lf_keys l) (lf_values l)"

definition inorder :: "bnode \<Rightarrow> (pystr \<times> pystr) list" where
  "inorder n = concat (map leaf_pairs (leaves n))"

lemma inorder_simps [simp]:
  "inorder (Leaf l) = leaf_pairs l"
  "inorder (Internal ks []) = []"
  "inorder (Internal ks (c # cs)) = inorder c @ inorder (Internal ks cs)"
  "inorder (Internal ks (cs @ ds)) = inorder (Internal ks cs) @ inorder (Internal ks ds)"
  by (simp_all add: inorder_def)

lemma inorder_seps: "NO_MATCH [] ks \<Longrightarrow> inorder (Internal ks cs) = inorder (Internal [] cs)"
  by (simp add: inorder_def)

primrec seps :: "bnode \<Rightarrow> pystr set" where
  "seps (Leaf l) = {}"
| "seps (Internal ks cs) = set ks \<union> \<Union> (set (map seps cs))"

lemma ordered_inorder:
  "ordered lo hi n \<Longrightarrow> sorted_wrt (<) (map fst (inorder n)) \<and> (\<forall>p\<in>set (inorder n). at_least lo (fst p) \<and> below (fst p) hi)"
  "ordered_list lo hi ks cs \<Longrightarrow>
     sorted_wrt (<) (map fst (inorder (Internal [] cs))) \<and>
     (\<forall>p\<in>set (inorder (Internal [] cs)). at_least lo (fst p) \<and> below (fst p) hi)"
proof (induction lo hi n and lo hi ks cs rule: ordered_ordered_list.induct)
  case (1 lo hi l)
  have "sorted_wrt (<) (map fst (leaf_pairs l))"
    using 1 by (auto simp: leaf_pairs_def map_fst_zip_take intro: sorted_wrt_take)
  then show ?case using 1 by (auto simp: leaf_pairs_def dest: set_zip_leftD)
next
  case (4 lo hi k ks c cs)
  then have c: "sorted_wrt (<) (map fst (inorder c))"
      "\<forall>p\<in>set (inorder c). at_least lo (fst p) \<and> fst p < k"
    and cs: "sorted_wrt (<) (map fst (inorder (Internal [] cs)))"
      "\<forall>p\<in>set (inorder (Internal [] cs)). k \<le> fst p \<and> below (fst p) hi"
    by auto
  have "below (fst p) hi" if "p \<in> set (inorder c)" for p
    using c(2) that 4(3) below_trans [of k hi "fst p"] by auto
  moreover have "at_least lo (fst p)" if "p \<in> set (inorder (Internal [] cs))" for p
    using cs(2) that 4(3) at_least_trans [OF beyond_at_least, of lo k "fst p"] by auto
  ultimately show ?case using c cs by (fastforce simp: sorted_wrt_append)
qed (auto simp: inorder_seps)

lemma ordered_list_sorted:
  "ordered_list lo hi ks cs \<Longrightarrow> sorted_wrt (<) ks \<and> (\<forall>k\<in>set ks. beyond lo k \<and> below k hi)"
proof (induction ks arbitrary: lo cs)
  case (Cons k ks)
  then obtain c ds where cs: "cs = c # ds" by (cases cs) auto
  then have "sorted_wrt (<) ks" "\<forall>x\<in>set ks. k < x \<and> below x hi" using Cons.IH [of "Some k" ds] Cons.prems by auto
  then show ?case using Cons.prems cs by (auto intro: beyond_trans less_imp_le)
qed simp

lemma focus_bounds:
  assumes "ordered_list lo hi (ks1 @ ks2) cs" "bisect_right (ks1 @ ks2) key = length ks1"
    "at_least lo key" "below key hi"
  shows "at_least (last_sep lo ks1) key" "below key (hd_sep hi ks2)"
proof -
  have "sorted (ks1 @ ks2)" using ordered_list_sorted [OF assms(1)] strict_sorted_imp_sorted by blast
  then have len: "length (takeWhile (\<lambda>k. k \<le> key) (ks1 @ ks2)) = length ks1"
    using assms(2) by (simp add: bisect_right_sorted)
  then have tw: "takeWhile (\<lambda>k. k \<le> key) (ks1 @ ks2) = ks1"
    using takeWhile_eq_take [of "\<lambda>k. k \<le> key" "ks1 @ ks2"] by simp
  have "\<forall>k\<in>set ks1. k \<le> key" using set_takeWhileD [of _ "\<lambda>k. k \<le> key" "ks1 @ ks2"] tw by auto
  then show "at_least (last_sep lo ks1) key"
    using assms(3) by (cases ks1 rule: rev_cases) auto
  show "below key (hd_sep hi ks2)"
  proof (cases ks2)
    case (Cons k ks)
    then have "\<not> k \<le> key" using len nth_length_takeWhile [of "\<lambda>k. k \<le> key" "ks1 @ ks2"] by (simp add: nth_append)
    then show ?thesis using Cons by simp
  qed (use assms(4) in simp)
qed

lemma ordered_pre_inorder:
  assumes "ordered_pre lo hi ks cs" "p \<in> set (inorder (Internal [] cs))"
  shows "\<exists>k\<in>set ks. fst p < k"
  using assms
proof (induction lo hi ks cs rule: ordered_pre.induct)
  case (1 lo hi k ks c cs)
  then show ?case using ordered_inorder(1) [of lo "Some k" c] by auto
qed auto

lemma ordered_post_inorder:
  assumes "ordered_post lo hi ks cs" "p \<in> set (inorder (Internal [] cs))"
  shows "\<exists>k. hd_sep None ks = Some k \<and> k \<le> fst p"
  using assms ordered_inorder(2) by (cases ks) fastforce+

lemma focus_sides:
  assumes o: "ordered_list lo hi (ks1 @ ks2) (cs1 @ c # cs2)" and len: "length ks1 = length cs1"
    and i: "bisect_right (ks1 @ ks2) key = length ks1" and bd: "at_least lo key" "below key hi"
  shows "p \<in> set (inorder (Internal [] cs1)) \<Longrightarrow> fst p < key"
    "p \<in> set (inorder (Internal [] cs2)) \<Longrightarrow> key < fst p"
proof -
  note b = focus_bounds [OF o i bd]
  have z: "ordered_pre lo hi ks1 cs1" "ordered_post (last_sep lo ks1) hi ks2 cs2"
    using o ordered_zip [OF len] by auto
  show "fst p < key" if p: "p \<in> set (inorder (Internal [] cs1))"
  proof -
    obtain k where "k \<in> set ks1" "fst p < k" using ordered_pre_inorder [OF z(1) p] by blast
    moreover from this have "k \<le> key" using ordered_list_sorted [OF o] b(1)
      by (cases ks1 rule: rev_cases) (auto simp: sorted_wrt_append)
    ultimately show ?thesis by simp
  qed
  show "key < fst p" if p: "p \<in> set (inorder (Internal [] cs2))"
  proof -
    obtain k where "hd_sep None ks2 = Some k" "k \<le> fst p" using ordered_post_inorder [OF z(2) p] by blast
    then show ?thesis using b(2) by (cases ks2) auto
  qed
qed

text \<open>The leaf a search reaches: keys left of it are smaller, keys right of it larger.\<close>

lemma find_leaf_ok:
  assumes "shape t h n" "ordered lo hi n" "at_least lo key" "below key hi"
  shows "\<exists>pre l post. find_leaf n key = Inr l \<and> leaves n = pre @ l # post \<and> shape t 0 (Leaf l) \<and>
    sorted_wrt (<) (lf_keys l) \<and>
    (\<forall>p\<in>set (concat (map leaf_pairs pre)). fst p < key) \<and> (\<forall>p\<in>set (concat (map leaf_pairs post)). key < fst p)"
  using assms
proof (induction h arbitrary: n lo hi)
  case 0
  then obtain l where "n = Leaf l" by (cases n) auto
  then show ?case using 0 by (auto intro!: exI [of _ "[]"])
next
  case (Suc h)
  obtain ks1 ks2 cs1 c cs2 where f: "n = Internal (ks1 @ ks2) (cs1 @ c # cs2)" "length ks1 = length cs1"
    "length ks2 = length cs2" "bisect_right (ks1 @ ks2) key = length cs1" "shape t h c"
    "\<forall>d\<in>set (cs1 @ cs2). shape t h d" "length (ks1 @ ks2) + 1 \<le> 2 * t"
    by (rule shape_focus [OF Suc.prems(1), where key = key])
  have o: "ordered_list lo hi (ks1 @ ks2) (cs1 @ c # cs2)" using Suc.prems(2) f(1) by simp
  note b = focus_bounds [OF o f(4) [folded f(2)] Suc.prems(3,4)]
  have z: "ordered_pre lo hi ks1 cs1" "ordered (last_sep lo ks1) (hd_sep hi ks2) c"
    "ordered_post (last_sep lo ks1) hi ks2 cs2" using o ordered_zip [OF f(2)] by auto
  obtain pre l post where l: "find_leaf c key = Inr l" "leaves c = pre @ l # post" "shape t 0 (Leaf l)"
    "sorted_wrt (<) (lf_keys l)"
    "\<forall>p\<in>set (concat (map leaf_pairs pre)). fst p < key" "\<forall>p\<in>set (concat (map leaf_pairs post)). key < fst p"
    using Suc.IH [OF f(5) z(2) b] by blast
  have "find_leaf n key = Inr l" using l(1) f(4) by (simp add: f(1))
  moreover have "leaves n = (concat (map leaves cs1) @ pre) @ l # (post @ concat (map leaves cs2))"
    using l(2) by (simp add: f(1))
  moreover have "\<forall>p\<in>set (concat (map leaf_pairs (concat (map leaves cs1)))). fst p < key"
    "\<forall>p\<in>set (concat (map leaf_pairs (concat (map leaves cs2)))). key < fst p"
    using focus_sides [OF o f(2) f(4) [folded f(2)] Suc.prems(3,4)] by (simp_all add: inorder_def)
  ultimately show ?case using l(3-6)
    by (intro exI [of _ "concat (map leaves cs1) @ pre"] exI [of _ l] exI [of _ "post @ concat (map leaves cs2)"])
      (simp add: ball_Un)
qed

lemma leaf_index_pairs:
  assumes "sorted_wrt (<) (lf_keys l)" "length (lf_values l) = length (lf_keys l)"
  shows "leaf_index l key = Some i \<Longrightarrow> map_of (leaf_pairs l) key = Some (lf_values l ! i) \<and> i < length (lf_keys l)"
    "leaf_index l key = None \<Longrightarrow> key \<notin> set (lf_keys l)"
proof -
  assume "leaf_index l key = Some i"
  from leaf_index_Some [OF this] have i: "i < length (lf_keys l)" "lf_keys l ! i = key" by auto
  then have "(key, lf_values l ! i) \<in> set (leaf_pairs l)"
    using assms(2) by (auto simp: leaf_pairs_def set_zip)
  moreover have "distinct (map fst (leaf_pairs l))"
    using assms strict_sorted_iff by (auto simp: leaf_pairs_def)
  ultimately show "map_of (leaf_pairs l) key = Some (lf_values l ! i) \<and> i < length (lf_keys l)"
    using i by simp
next
  assume none: "leaf_index l key = None"
  have s: "sorted (lf_keys l)" using assms(1) strict_sorted_imp_sorted by blast
  show "key \<notin> set (lf_keys l)"
  proof
    assume "key \<in> set (lf_keys l)"
    then obtain xs ys where l: "lf_keys l = xs @ key # ys" by (meson split_list)
    then have "takeWhile (\<lambda>k. k < key) (lf_keys l) = xs" using assms(1) by (auto simp: sorted_wrt_append)
    then have "bisect_left (lf_keys l) key = length xs" using s by (simp add: bisect_left_sorted)
    then show False using none l by (simp add: leaf_index_def)
  qed
qed

lemma node_get_ok:
  assumes "shape t h n" "ordered None None n"
  shows "node_get n key = Inr (map_of (inorder n) key)"
proof -
  obtain pre l post where l: "find_leaf n key = Inr l" "leaves n = pre @ l # post" "shape t 0 (Leaf l)"
    "sorted_wrt (<) (lf_keys l)"
    "\<forall>p\<in>set (concat (map leaf_pairs pre)). fst p < key" "\<forall>p\<in>set (concat (map leaf_pairs post)). key < fst p"
    using find_leaf_ok [OF assms, of key] by auto
  have "map_of (concat (map leaf_pairs pre)) key = None" "map_of (concat (map leaf_pairs post)) key = None"
    using l(5,6) by (fastforce simp: map_of_eq_None_iff)+
  then have m: "map_of (inorder n) key = map_of (leaf_pairs l) key"
    by (simp add: inorder_def l(2) map_add_def split: option.split)
  show ?thesis
  proof (cases "leaf_index l key")
    case None
    then have "map_of (leaf_pairs l) key = None"
      using leaf_index_pairs(2) [OF l(4)] l(3) by (auto simp: map_of_eq_None_iff leaf_pairs_def dest: set_zip_leftD)
    then show ?thesis using None l(1) m by (simp add: node_get_def)
  next
    case (Some i)
    then show ?thesis using leaf_index_pairs(1) [OF l(4) _ Some] l(1,3) m by (simp add: node_get_def)
  qed
qed

subsection \<open>Insertion\<close>

lemma halves_ordered_leaf:
  assumes "2 \<le> t" "shape t h (Leaf l)" "is_full t (Leaf l)" "ordered lo hi (Leaf l)"
    "halves t nid (Leaf l) = (a, m, b, nid')"
  shows "beyond lo m \<and> below m hi \<and> ordered lo (Some m) a \<and> ordered (Some m) hi b \<and>
    set (inorder a) \<union> set (inorder b) = set (inorder (Leaf l)) \<and> m \<in> fst ` set (inorder (Leaf l)) \<and>
    seps a = {} \<and> seps b = {}"
proof -
  let ?ks = "lf_keys l"
  have t: "t < length ?ks" "0 < t" using full_length [OF assms(2,3)] assms(1) by auto
  have m: "m = ?ks ! t" using assms(5) by simp
  have s: "sorted_wrt (<) ?ks" and bd: "\<forall>k\<in>set ?ks. at_least lo k \<and> below k hi" using assms(4) by auto
  have mem: "m \<in> set ?ks" using t m by simp
  have left: "x < m" if "x \<in> set (take t ?ks)" for x
    using that s t m by (auto simp: in_set_conv_nth sorted_wrt_iff_nth_less)
  have right: "m \<le> x" if x: "x \<in> set (drop t ?ks)" for x
  proof -
    obtain j where "j < length ?ks - t" "x = ?ks ! (t + j)" using x t by (auto simp: in_set_conv_nth)
    then show ?thesis using s t m by (cases "j = 0") (auto simp: sorted_wrt_iff_nth_less less_imp_le)
  qed
  have "?ks ! 0 \<in> set (take t ?ks)" using t by (simp add: in_set_conv_nth) (metis nth_take)
  then have "beyond lo m" using left bd at_least_less in_set_takeD by metis
  moreover have "leaf_pairs l = take t (leaf_pairs l) @ drop t (leaf_pairs l)" by simp
  then have "set (leaf_pairs l) = set (take t (leaf_pairs l)) \<union> set (drop t (leaf_pairs l))"
    by (metis set_append)
  moreover have "m \<in> fst ` set (leaf_pairs l)"
  proof -
    have "map fst (leaf_pairs l) = ?ks" using assms(2) by (simp add: leaf_pairs_def)
    then show ?thesis using mem by (metis set_map)
  qed
  moreover have "\<forall>x\<in>set (take t ?ks). at_least lo x" "\<forall>x\<in>set (drop t ?ks). below x hi"
    using bd by (auto dest: in_set_takeD in_set_dropD)
  moreover have "a = Leaf (l\<lparr>lf_keys := take t ?ks, lf_values := take t (lf_values l), lf_next := Some nid\<rparr>)"
    "b = Leaf \<lparr>lf_id = nid, lf_keys = drop t ?ks, lf_values = drop t (lf_values l), lf_next = lf_next l\<rparr>"
    using assms(5) by simp_all
  ultimately show ?thesis using mem bd left right s
    by (simp add: leaf_pairs_def take_zip drop_zip sorted_wrt_take sorted_wrt_drop)
qed

lemma halves_ordered_internal:
  assumes "2 \<le> t" "shape t h (Internal ks cs)" "is_full t (Internal ks cs)" "ordered lo hi (Internal ks cs)"
    "halves t nid (Internal ks cs) = (a, m, b, nid')"
  shows "beyond lo m \<and> below m hi \<and> ordered lo (Some m) a \<and> ordered (Some m) hi b \<and>
    set (inorder a) \<union> set (inorder b) = set (inorder (Internal ks cs)) \<and> m \<in> seps (Internal ks cs) \<and>
    seps a \<union> seps b \<subseteq> seps (Internal ks cs)"
proof -
  have len: "length ks + 1 = 2 * t" "length cs = Suc (length ks)"
    using full_length [OF assms(2,3)] assms(2) by auto
  obtain ks1 ks2 cs1 c cs2 where ks: "ks = ks1 @ m # ks2" and cs: "cs = cs1 @ c # cs2"
    and l1: "length ks1 = length cs1" and a: "a = Internal ks1 (cs1 @ [c])" and b: "b = Internal ks2 cs2"
  proof
    show "ks = take (t - 1) ks @ m # drop t ks"
      using id_take_nth_drop [of "t - 1" ks] assms(1,5) len by simp
    show "cs = take (t - 1) cs @ cs ! (t - 1) # drop t cs"
      using id_take_nth_drop [of "t - 1" cs] assms(1) len by simp
    show "length (take (t - 1) ks) = length (take (t - 1) cs)" using len by simp
    show "a = Internal (take (t - 1) ks) (take (t - 1) cs @ [cs ! (t - 1)])"
      using take_Suc_conv_app_nth [of "t - 1" cs] assms(1,5) len by simp
    show "b = Internal (drop t ks) (drop t cs)" using assms(5) by simp
  qed
  have o: "ordered_pre lo hi ks1 cs1" "beyond (last_sep lo ks1) m" "below m hi"
    "ordered (last_sep lo ks1) (Some m) c" "ordered_list (Some m) hi ks2 cs2"
    using assms(4) unfolding ks cs ordered.simps ordered_list_pre [OF l1] by simp_all
  note ab = ordered_pre_above [OF o(1,2)]
  have "ordered_list lo (Some m) (ks1 @ []) (cs1 @ [c])"
    using ordered_pre_tighten [OF o(1)] ab o(4) by (simp only: ordered_list_pre [OF l1]) simp
  then show ?thesis using ab o(3,5) by (simp add: a b ks cs inorder_seps) blast
qed

lemma halves_ordered:
  assumes "2 \<le> t" "shape t h c" "is_full t c" "ordered lo hi c" "halves t nid c = (a, m, b, nid')"
  shows "beyond lo m" "below m hi" "ordered lo (Some m) a" "ordered (Some m) hi b"
    "set (inorder a) \<union> set (inorder b) = set (inorder c)" "m \<in> seps c \<union> fst ` set (inorder c)"
    "seps a \<union> seps b \<subseteq> seps c"
proof -
  have "beyond lo m \<and> below m hi \<and> ordered lo (Some m) a \<and> ordered (Some m) hi b \<and>
    set (inorder a) \<union> set (inorder b) = set (inorder c) \<and> m \<in> seps c \<union> fst ` set (inorder c) \<and>
    seps a \<union> seps b \<subseteq> seps c"
  proof (cases c)
    case (Leaf l)
    from halves_ordered_leaf [OF assms [unfolded Leaf]] show ?thesis by (simp add: Leaf)
  next
    case (Internal ks cs)
    from halves_ordered_internal [OF assms [unfolded Internal]] show ?thesis unfolding Internal by blast
  qed
  then show "beyond lo m" "below m hi" "ordered lo (Some m) a" "ordered (Some m) hi b"
    "set (inorder a) \<union> set (inorder b) = set (inorder c)" "m \<in> seps c \<union> fst ` set (inorder c)"
    "seps a \<union> seps b \<subseteq> seps c" by blast+
qed

lemma insert_leaf_ordered:
  assumes "ordered lo hi (Leaf l)" "shape t 0 (Leaf l)" "at_least lo key" "below key hi"
    "key \<notin> fst ` set (inorder (Leaf l))"
  shows "insert_non_full t nid (Leaf l) key val = Inr (n', nid') \<Longrightarrow>
    ordered lo hi n' \<and> set (inorder n') = insert (key, val) (set (inorder (Leaf l))) \<and> seps n' = {}"
proof -
  assume ins: "insert_non_full t nid (Leaf l) key val = Inr (n', nid')"
  let ?ks = "lf_keys l" and ?i = "bisect_left (lf_keys l) key"
  have s: "sorted_wrt (<) ?ks" using assms(1) by simp
  have len: "length (lf_values l) = length ?ks" using assms(2) by simp
  have i: "?i = length (takeWhile (\<lambda>k. k < key) ?ks)"
    using s strict_sorted_imp_sorted by (intro bisect_left_sorted) blast
  then have sp: "take ?i ?ks = takeWhile (\<lambda>k. k < key) ?ks" "drop ?i ?ks = dropWhile (\<lambda>k. k < key) ?ks"
    using takeWhile_eq_take [of "\<lambda>k. k < key" ?ks] dropWhile_eq_drop [of "\<lambda>k. k < key" ?ks] by simp_all
  have nk: "key \<notin> set ?ks"
  proof
    assume "key \<in> set ?ks"
    then have "key \<in> set (map fst (leaf_pairs l))" using len by (simp add: leaf_pairs_def)
    then show False using assms(5) unfolding set_map inorder_simps by blast
  qed
  have hi: "\<forall>x\<in>set (dropWhile (\<lambda>k. k < key) ?ks). key < x"
  proof (cases "dropWhile (\<lambda>k. k < key) ?ks")
    case (Cons y ys)
    have "\<not> y < key" using hd_dropWhile [of "\<lambda>k. k < key" ?ks] Cons by simp
    moreover have "y \<noteq> key" using nk set_dropWhileD [of y "\<lambda>k. k < key" ?ks] Cons by auto
    moreover have "sorted_wrt (<) (y # ys)" using sorted_wrt_drop [OF s, of ?i] Cons by (simp add: sp)
    ultimately show ?thesis using Cons by auto
  next
    case Nil
    show ?thesis unfolding Nil by simp
  qed
  have lo: "\<forall>x\<in>set (takeWhile (\<lambda>k. k < key) ?ks). x < key" by (auto dest: set_takeWhileD)
  have "sorted_wrt (<) (take ?i ?ks)" "sorted_wrt (<) (drop ?i ?ks)" using s sorted_wrt_take sorted_wrt_drop by blast+
  moreover have "\<forall>x\<in>set (take ?i ?ks). \<forall>y\<in>set (drop ?i ?ks). x < y"
    using lo hi unfolding sp by (meson order.strict_trans)
  ultimately have "sorted_wrt (<) (list_insert ?i key ?ks)"
    using lo [folded sp] hi [folded sp] unfolding list_insert_def by (simp add: sorted_wrt_append)
  moreover have "set (zip (list_insert ?i key ?ks) (list_insert ?i val (lf_values l))) =
      insert (key, val) (set (zip ?ks (lf_values l)))"
  proof -
    have "?i \<le> length ?ks" by (rule bisect_left_le)
    then have "zip (list_insert ?i key ?ks) (list_insert ?i val (lf_values l)) =
        list_insert ?i (key, val) (zip ?ks (lf_values l))"
      using len by (simp add: list_insert_def take_zip drop_zip)
    then show ?thesis by simp
  qed
  moreover have "n' = Leaf (l\<lparr>lf_keys := list_insert ?i key ?ks, lf_values := list_insert ?i val (lf_values l)\<rparr>)"
    using ins by (simp add: Let_def)
  ultimately show ?thesis using assms(1,3,4) by (simp add: leaf_pairs_def)
qed
lemma seps_focus [simp]:
  "seps (Internal (ks1 @ ks2) (cs1 @ c # cs2)) = set ks1 \<union> set ks2 \<union> \<Union> (seps ` set cs1) \<union> seps c \<union> \<Union> (seps ` set cs2)"
  by auto

lemma insert_ordered:
  assumes "2 \<le> t"
  shows "shape t h n \<Longrightarrow> ordered lo hi n \<Longrightarrow> at_least lo key \<Longrightarrow> below key hi \<Longrightarrow>
    key \<notin> fst ` set (inorder n) \<Longrightarrow> key \<notin> seps n \<Longrightarrow>
    insert_non_full t nid n key val = Inr (n', nid') \<Longrightarrow>
    ordered lo hi n' \<and> set (inorder n') = insert (key, val) (set (inorder n)) \<and>
    seps n' \<subseteq> seps n \<union> fst ` set (inorder n)"
proof (induction h arbitrary: n nid n' nid' lo hi)
  case 0
  then obtain l where "n = Leaf l" by (cases n) auto
  then show ?case using insert_leaf_ordered 0 by auto
next
  case (Suc h)
  then obtain ks cs where n: "n = Internal ks cs" by (cases n) auto
  have sh: "shape t (Suc h) (Internal ks cs)" and o: "ordered_list lo hi ks cs" using Suc.prems n by simp_all
  note bd = Suc.prems(3,4)
  from assms sh show ?case
  proof (cases rule: descend_cases [where key = key and nid = nid])
    case (plain ks1 ks2 cs1 c cs2)
    note b = focus_bounds [OF o [unfolded plain(1)] plain(4) [unfolded plain(1), folded plain(3)] bd]
    have z: "ordered_pre lo hi ks1 cs1" "ordered (last_sep lo ks1) (hd_sep hi ks2) c"
      "ordered_post (last_sep lo ks1) hi ks2 cs2" using o ordered_zip [OF plain(3)] plain(1,2) by auto
    obtain c' where ins: "insert_non_full t nid c key val = Inr (c', nid')"
      "n' = Internal (ks1 @ ks2) (cs1 @ c' # cs2)"
      using Suc.prems(7) unfolding n insert_step [OF plain(7)] by auto
    have "key \<notin> fst ` set (inorder c)" "key \<notin> seps c" using Suc.prems(5,6) by (auto simp: n plain(1,2))
    note IH = Suc.IH [OF plain(6) z(2) b this ins(1)]
    then show ?thesis using z ordered_zip [OF plain(3)]
      by (auto simp: n plain(1,2) ins(2) inorder_seps)
  next
    case (left ks1 ks2 cs1 c cs2 a m b nid1)
    note b = focus_bounds [OF o [unfolded left(1)] left(4) [unfolded left(1), folded left(3)] bd]
    have z: "ordered_pre lo hi ks1 cs1" "ordered (last_sep lo ks1) (hd_sep hi ks2) c"
      "ordered_post (last_sep lo ks1) hi ks2 cs2" using o ordered_zip [OF left(3)] left(1,2) by auto
    note hs = shape_halves [OF assms left(6,5,7)] and ho = halves_ordered [OF assms left(6,5) z(2) left(7)]
    obtain a' where ins: "insert_non_full t nid1 a key val = Inr (a', nid')"
      "n' = Internal (ks1 @ m # ks2) (cs1 @ a' # b # cs2)"
      using Suc.prems(7) unfolding n insert_step [OF left(9)] by auto
    have nk: "key \<notin> fst ` set (inorder c)" "key \<notin> seps c" using Suc.prems(5,6) by (auto simp: n left(1,2))
    then have "key \<notin> fst ` set (inorder a)" "key \<notin> seps a" "key < m"
      using ho(5-7) left(8) by (auto simp: order.order_iff_strict)
    from Suc.IH [OF hs(1) ho(3) b(1) _ this(1,2) ins(1)] this(3)
    have IH: "ordered (last_sep lo ks1) (Some m) a'" "set (inorder a') = insert (key, val) (set (inorder a))"
      "seps a' \<subseteq> seps a \<union> fst ` set (inorder a)" by simp_all
    have "ordered_list lo hi (ks1 @ m # ks2) (cs1 @ a' # b # cs2)"
      using z IH(1) ho(1,2,4) ordered_post_raise [OF z(3) ho(2)] ordered_post_below [OF z(3) ho(2)]
      by (simp add: ordered_zip [OF left(3)] ordered_list_post)
    moreover have "set (inorder n') = insert (key, val) (set (inorder n))"
      using IH(2) ho(5) by (auto simp: n left(1,2) ins(2) inorder_seps)
    moreover have "insert m (seps a' \<union> seps b) \<subseteq> seps c \<union> fst ` set (inorder c)"
      using IH(3) ho(6,7) unfolding ho(5) [symmetric] image_Un by blast
    then have "seps n' \<subseteq> seps n \<union> fst ` set (inorder n)"
      by (auto simp: n left(1,2) ins(2) inorder_seps image_Un)
    ultimately show ?thesis by (simp add: ins(2))
  next
    case (right ks1 ks2 cs1 c cs2 a m b nid1)
    note fb = focus_bounds [OF o [unfolded right(1)] right(4) [unfolded right(1), folded right(3)] bd]
    have z: "ordered_pre lo hi ks1 cs1" "ordered (last_sep lo ks1) (hd_sep hi ks2) c"
      "ordered_post (last_sep lo ks1) hi ks2 cs2" using o ordered_zip [OF right(3)] right(1,2) by auto
    note hs = shape_halves [OF assms right(6,5,7)] and ho = halves_ordered [OF assms right(6,5) z(2) right(7)]
    obtain b' where ins: "insert_non_full t nid1 b key val = Inr (b', nid')"
      "n' = Internal (ks1 @ m # ks2) (cs1 @ a # b' # cs2)"
      using Suc.prems(7) unfolding n insert_step [OF right(9)] by auto
    have nk: "key \<notin> fst ` set (inorder b)" "key \<notin> seps b"
      using Suc.prems(5,6) ho(5,7) by (auto simp: n right(1,2))
    from Suc.IH [OF hs(2) ho(4) _ fb(2) nk ins(1)] right(8)
    have IH: "ordered (Some m) (hd_sep hi ks2) b'" "set (inorder b') = insert (key, val) (set (inorder b))"
      "seps b' \<subseteq> seps b \<union> fst ` set (inorder b)" by simp_all
    have "ordered_list lo hi (ks1 @ m # ks2) (cs1 @ a # b' # cs2)"
      using z IH(1) ho(1-3) ordered_post_raise [OF z(3) ho(2)] ordered_post_below [OF z(3) ho(2)]
      by (simp add: ordered_zip [OF right(3)] ordered_list_post)
    moreover have "set (inorder n') = insert (key, val) (set (inorder n))"
      using IH(2) ho(5) by (auto simp: n right(1,2) ins(2) inorder_seps)
    moreover have "insert m (seps a \<union> seps b') \<subseteq> seps c \<union> fst ` set (inorder c)"
      using IH(3) ho(6,7) unfolding ho(5) [symmetric] image_Un by blast
    then have "seps n' \<subseteq> seps n \<union> fst ` set (inorder n)"
      by (auto simp: n right(1,2) ins(2) inorder_seps image_Un)
    ultimately show ?thesis by (simp add: ins(2))
  qed
qed
subsection \<open>Deletion\<close>

definition full_leaves :: "bnode \<Rightarrow> bool" where
  "full_leaves n \<longleftrightarrow> (\<forall>l\<in>set (leaves n). lf_keys l \<noteq> [])"

lemma full_leaves_simps [simp]:
  "full_leaves (Leaf l) \<longleftrightarrow> lf_keys l \<noteq> []"
  "full_leaves (Internal ks cs) \<longleftrightarrow> (\<forall>c\<in>set cs. full_leaves c)"
  by (auto simp: full_leaves_def)

text \<open>No leaf is empty and every internal node has a separator, so every leaf has a sibling.\<close>

fun stout :: "bnode \<Rightarrow> bool" where
  "stout (Leaf l) \<longleftrightarrow> lf_keys l \<noteq> []"
| "stout (Internal ks cs) \<longleftrightarrow> ks \<noteq> [] \<and> (\<forall>c\<in>set cs. stout c)"

lemma stout_full_leaves: "stout n \<Longrightarrow> full_leaves n"
  by (induction n) auto

lemma min_key_raise:
  "shape t h n \<Longrightarrow> ordered lo hi n \<Longrightarrow> full_leaves n \<Longrightarrow>
     ordered (Some (min_key n)) hi n \<and> min_key n \<in> fst ` set (inorder n)"
proof (induction h arbitrary: n hi)
  case 0
  then obtain l where n: "n = Leaf l" by (cases n) auto
  then obtain k ks where k: "lf_keys l = k # ks" using 0 by (cases "lf_keys l") auto
  then obtain v vs where "lf_values l = v # vs" using 0 n by (cases "lf_values l") auto
  then show ?case using 0 k by (auto simp: n min_key_def leaf_pairs_def intro: less_imp_le)
next
  case (Suc h)
  then obtain ks cs where n: "n = Internal ks cs" by (cases n) auto
  then obtain c ds where cs: "cs = c # ds" using Suc.prems by (cases cs) auto
  have m: "min_key n = min_key c" by (simp add: n cs min_key_def)
  have c: "shape t h c" "full_leaves c" using Suc.prems by (auto simp: n cs)
  show ?case
  proof (cases ks)
    case Nil
    then show ?thesis using Suc.IH [OF c(1) _ c(2)] Suc.prems m by (auto simp: n cs inorder_seps)
  next
    case (Cons k ks')
    then have "ordered lo (Some k) c" using Suc.prems by (simp add: n cs)
    from Suc.IH [OF c(1) this c(2)] have "ordered (Some (min_key c)) (Some k) c" "min_key c \<in> fst ` set (inorder c)"
      by auto
    moreover from this have "min_key c < k" using ordered_inorder(1) by fastforce
    ultimately show ?thesis using Suc.prems m Cons by (auto simp: n cs inorder_seps)
  qed
qed

lemma refresh_ordered:
  assumes "ordered_list lo hi ks (c # cs)" "\<forall>d\<in>set cs. shape t h d \<and> full_leaves d"
  shows "ordered_list lo hi (refresh ks cs) (c # cs)"
proof (cases "\<exists>k ks' d ds. ks = k # ks' \<and> cs = d # ds")
  case True
  then obtain k ks' d ds where e: "ks = k # ks'" "cs = d # ds" by blast
  have o: "beyond lo k" "ordered lo (Some k) c" "ordered (Some k) (hd_sep hi ks') d" "ordered_post (Some k) hi ks' ds"
    using assms(1) by (auto simp: e ordered_list_post)
  have d: "shape t h d" "full_leaves d" using assms(2) e by auto
  note r = min_key_raise [OF d(1) o(3) d(2)]
  then have b: "k \<le> min_key d" "below (min_key d) (hd_sep hi ks')"
    using ordered_inorder(1) [OF o(3)] by auto
  have "ordered lo (Some (min_key d)) c" using ordered_mono_hi(1) [OF o(2)] b(1) by auto
  then show ?thesis
    using o(1) b r ordered_post_raise [OF o(4) b(2)] ordered_post_below [OF o(4) b(2)] beyond_trans [OF o(1) b(1)]
    by (simp add: e ordered_list_post [of _ _ _ d])
next
  case False
  then show ?thesis using assms(1) by (cases "(ks, cs)" rule: refresh.cases) auto
qed

lemma shift_left_ordered:
  assumes "ordered lo (Some s) (Leaf x)" "ordered (Some s) hi (Leaf y)" "beyond lo s"
    "shape t 0 (Leaf x)" "shape t 0 (Leaf y)" "1 < length (lf_keys y)" "shift_left x y = (x1, y1)"
  shows "ordered lo (Some (lf_keys y ! 1)) (Leaf x1)" "ordered (Some (lf_keys y ! 1)) hi (Leaf y1)"
    "leaf_pairs x1 @ leaf_pairs y1 = leaf_pairs x @ leaf_pairs y" "lf_keys x1 \<noteq> []" "lf_keys y1 \<noteq> []"
    "s \<le> lf_keys y ! 1" "below (lf_keys y ! 1) hi"
proof -
  obtain k j ks where k: "lf_keys y = k # j # ks"
    using assms(6) by (cases "lf_keys y"; cases "tl (lf_keys y)") auto
  then obtain v w vs where v: "lf_values y = v # w # vs"
    using assms(5) by (cases "lf_values y"; cases "tl (lf_values y)") auto
  have x1: "lf_keys x1 = lf_keys x @ [k]" "lf_values x1 = lf_values x @ [v]"
    and y1: "lf_keys y1 = j # ks" "lf_values y1 = w # vs"
    using assms(7) by (auto simp: shift_left_def k v)
  have o: "k < j" "s \<le> k" "\<forall>i\<in>set (lf_keys x). i < s" "at_least lo k"
    using assms(1,2) at_least_trans [OF beyond_at_least [OF assms(3)]] by (auto simp: k)
  show "ordered lo (Some (lf_keys y ! 1)) (Leaf x1)"
    using assms(1) o by (fastforce simp: k x1 sorted_wrt_append)
  show "ordered (Some (lf_keys y ! 1)) hi (Leaf y1)"
    using assms(2) by (auto simp: k y1 intro: less_imp_le)
  show "leaf_pairs x1 @ leaf_pairs y1 = leaf_pairs x @ leaf_pairs y"
    using assms(4) by (simp add: leaf_pairs_def x1 y1 k v)
  show "lf_keys x1 \<noteq> []" "lf_keys y1 \<noteq> []" by (simp_all add: x1 y1)
  show "s \<le> lf_keys y ! 1" "below (lf_keys y ! 1) hi" using o assms(2) by (auto simp: k)
qed

lemma shift_right_ordered:
  assumes "ordered lo (Some s) (Leaf x)" "ordered (Some s) hi (Leaf y)" "below s hi"
    "shape t 0 (Leaf x)" "shape t 0 (Leaf y)" "1 < length (lf_keys x)" "shift_right x y = (x1, y1)"
  shows "ordered lo (Some (last (lf_keys x))) (Leaf x1)" "ordered (Some (last (lf_keys x))) hi (Leaf y1)"
    "leaf_pairs x1 @ leaf_pairs y1 = leaf_pairs x @ leaf_pairs y" "lf_keys x1 \<noteq> []" "lf_keys y1 \<noteq> []"
    "beyond lo (last (lf_keys x))" "last (lf_keys x) < s"
proof -
  obtain ks j k where k: "lf_keys x = ks @ [j, k]"
    using assms(6) by (cases "lf_keys x" rule: rev_cases; cases "butlast (lf_keys x)" rule: rev_cases) auto
  then obtain vs v where v: "lf_values x = vs @ [v]" "length vs = length (ks @ [j])"
    using assms(4) by (cases "lf_values x" rule: rev_cases) auto
  have x1: "lf_keys x1 = ks @ [j]" "lf_values x1 = vs"
    and y1: "lf_keys y1 = k # lf_keys y" "lf_values y1 = v # lf_values y"
    using assms(7) by (auto simp: shift_right_def k v butlast_append)
  have o: "j < k" "k < s" "at_least lo j" "\<forall>i\<in>set (lf_keys y). s \<le> i"
    using assms(1,2) by (auto simp: k sorted_wrt_append)
  show "ordered lo (Some (last (lf_keys x))) (Leaf x1)"
    using assms(1) by (fastforce simp: k x1 sorted_wrt_append)
  show "ordered (Some (last (lf_keys x))) hi (Leaf y1)"
    using assms(2) o below_trans [OF assms(3), of k] by (fastforce simp: k y1)
  show "leaf_pairs x1 @ leaf_pairs y1 = leaf_pairs x @ leaf_pairs y"
    using v(2) zip_append [of "ks @ [j]" vs "[k]" "[v]"] by (simp add: leaf_pairs_def x1 y1 k v)
  show "lf_keys x1 \<noteq> []" "lf_keys y1 \<noteq> []" by (simp_all add: x1 y1)
  show "beyond lo (last (lf_keys x))" "last (lf_keys x) < s" using o at_least_less [of lo j k] by (auto simp: k)
qed

lemma merge_ordered:
  assumes "ordered lo (Some s) (Leaf x)" "ordered (Some s) hi (Leaf y)" "beyond lo s" "below s hi" "shape t 0 (Leaf x)"
  shows "ordered lo hi (Leaf (merge_leaves x y))" "leaf_pairs (merge_leaves x y) = leaf_pairs x @ leaf_pairs y"
proof -
  have "below k hi" if "k < s" for k using below_trans [OF assms(4)] that by simp
  moreover have "at_least lo k" if "s \<le> k" for k using at_least_trans [OF beyond_at_least [OF assms(3)] that] .
  ultimately show "ordered lo hi (Leaf (merge_leaves x y))"
    using assms(1,2) by (fastforce simp: merge_leaves_def sorted_wrt_append)
  show "leaf_pairs (merge_leaves x y) = leaf_pairs x @ leaf_pairs y"
    using assms(5) by (simp add: merge_leaves_def leaf_pairs_def)
qed

lemma leaf_split:
  assumes "sorted_wrt (<) (lf_keys l)" "shape t 0 (Leaf l)" "leaf_index l key = Some i"
  obtains ks1 ks2 vs1 v vs2 where "lf_keys l = ks1 @ key # ks2" "length ks1 = i"
    "lf_values l = vs1 @ v # vs2" "length vs1 = i" "leaf_pairs l = zip ks1 vs1 @ (key, v) # zip ks2 vs2"
    "key \<notin> set ks1" "key \<notin> set ks2"
proof -
  have i: "i < length (lf_keys l)" "lf_keys l ! i = key" using leaf_index_Some [OF assms(3)] by auto
  then obtain ks1 ks2 where k: "lf_keys l = ks1 @ key # ks2" "length ks1 = i"
    by (metis id_take_nth_drop length_take less_imp_le min.absorb2)
  have len: "length (lf_values l) = length (lf_keys l)" using assms(2) by simp
  then have "lf_values l = take i (lf_values l) @ lf_values l ! i # drop (Suc i) (lf_values l)"
    using i by (intro id_take_nth_drop) simp
  then obtain vs1 v vs2 where v: "lf_values l = vs1 @ v # vs2" "length vs1 = i"
    using i len by (metis length_take less_imp_le min.absorb2)
  have "key \<notin> set ks1" "key \<notin> set ks2" using assms(1) by (auto simp: k sorted_wrt_append)
  then show ?thesis using that [OF k v] k v by (simp add: leaf_pairs_def)
qed

lemma leaf_pop_ordered:
  assumes "ordered lo hi (Leaf l)" "shape t 0 (Leaf l)" "leaf_index l key = Some i"
  shows "ordered lo hi (Leaf (leaf_pop l i))"
    "set (leaf_pairs (leaf_pop l i)) = {p \<in> set (leaf_pairs l). fst p \<noteq> key}"
    "key \<in> fst ` set (leaf_pairs l)"
proof -
  have "sorted_wrt (<) (lf_keys l)" using assms(1) by simp
  then obtain ks1 ks2 vs1 v vs2 where s: "lf_keys l = ks1 @ key # ks2" "length ks1 = i"
    "lf_values l = vs1 @ v # vs2" "length vs1 = i" "leaf_pairs l = zip ks1 vs1 @ (key, v) # zip ks2 vs2"
    "key \<notin> set ks1" "key \<notin> set ks2"
    using leaf_split assms(2,3) by metis
  have pop: "lf_keys (leaf_pop l i) = ks1 @ ks2" "lf_values (leaf_pop l i) = vs1 @ vs2"
    using s by (simp_all add: leaf_pop_def focus_eq)
  show "ordered lo hi (Leaf (leaf_pop l i))"
    using assms(1) by (simp add: pop s sorted_wrt_append)
  show "set (leaf_pairs (leaf_pop l i)) = {p \<in> set (leaf_pairs l). fst p \<noteq> key}"
    using s(2,4,6,7) by (auto simp: leaf_pairs_def [of "leaf_pop l i"] pop s(5) dest: set_zip_leftD)
  show "key \<in> fst ` set (leaf_pairs l)" by (simp add: s(5))
qed

lemma borrow_right_ordered:
  assumes o: "ordered_list lo hi (s # ks) (Leaf l # Leaf r # cs)" and x: "shift_left l r = (x1, y1)"
    and sh: "shape t 0 (Leaf l)" "shape t 0 (Leaf r)" "1 < length (lf_keys r)"
  shows "ordered_list lo hi (lf_keys r ! 1 # ks) (Leaf x1 # Leaf y1 # cs)"
    "leaf_pairs x1 @ leaf_pairs y1 = leaf_pairs l @ leaf_pairs r" "lf_keys x1 \<noteq> []" "lf_keys y1 \<noteq> []"
proof -
  have o2: "beyond lo s" "ordered lo (Some s) (Leaf l)" "ordered (Some s) (hd_sep hi ks) (Leaf r)"
    "ordered_post (Some s) hi ks cs"
    using o by (auto simp: ordered_list_post [of _ _ _ "Leaf r"])
  note m = shift_left_ordered [OF o2(2,3,1) sh x]
  show "ordered_list lo hi (lf_keys r ! 1 # ks) (Leaf x1 # Leaf y1 # cs)"
    using m(1,2) beyond_trans [OF o2(1) m(6)] ordered_post_raise [OF o2(4) m(7)] ordered_post_below [OF o2(4) m(7)]
    by (simp add: ordered_list_post [of _ _ _ "Leaf y1"] del: ordered.simps(1))
  show "leaf_pairs x1 @ leaf_pairs y1 = leaf_pairs l @ leaf_pairs r" "lf_keys x1 \<noteq> []" "lf_keys y1 \<noteq> []"
    by (rule m)+
qed

lemma borrow_left_ordered:
  assumes o: "ordered_list lo hi (s # ks) (Leaf x # Leaf l # cs)" and x: "shift_right x l = (x1, y1)"
    and sh: "shape t 0 (Leaf x)" "shape t 0 (Leaf l)" "1 < length (lf_keys x)"
  shows "ordered_list lo hi (last (lf_keys x) # ks) (Leaf x1 # Leaf y1 # cs)"
    "leaf_pairs x1 @ leaf_pairs y1 = leaf_pairs x @ leaf_pairs l" "lf_keys x1 \<noteq> []" "lf_keys y1 \<noteq> []"
proof -
  have o2: "below s hi" "ordered lo (Some s) (Leaf x)" "ordered (Some s) (hd_sep hi ks) (Leaf l)"
    "ordered_post (Some s) hi ks cs"
    using o by (auto simp: ordered_list_post [of _ _ _ "Leaf l"])
  have s: "below s (hd_sep hi ks)" using o2(1,4) by (cases ks) auto
  note m = shift_right_ordered [OF o2(2,3) s sh x]
  have b: "below (last (lf_keys x)) (hd_sep hi ks)" using below_trans [OF s] m(7) by simp
  show "ordered_list lo hi (last (lf_keys x) # ks) (Leaf x1 # Leaf y1 # cs)"
    using m(1,2,6) ordered_post_raise [OF o2(4) b] ordered_post_below [OF o2(4) b]
    by (simp add: ordered_list_post [of _ _ _ "Leaf y1"] del: ordered.simps(1))
  show "leaf_pairs x1 @ leaf_pairs y1 = leaf_pairs x @ leaf_pairs l" "lf_keys x1 \<noteq> []" "lf_keys y1 \<noteq> []"
    by (rule m)+
qed

lemma merge_list_ordered:
  assumes "ordered_list lo hi (s # ks) (Leaf l # Leaf r # cs)" "shape t 0 (Leaf l)"
  shows "ordered_list lo hi ks (Leaf (merge_leaves l r) # cs)"
    "leaf_pairs (merge_leaves l r) = leaf_pairs l @ leaf_pairs r"
proof -
  have o2: "beyond lo s" "below s hi" "ordered lo (Some s) (Leaf l)" "ordered (Some s) (hd_sep hi ks) (Leaf r)"
    "ordered_post (Some s) hi ks cs"
    using assms(1) by (auto simp: ordered_list_post [of _ _ _ "Leaf r"])
  have "below s (hd_sep hi ks)" using o2(2,5) by (cases ks) auto
  note m = merge_ordered [OF o2(3,4,1) this assms(2)]
  have "ordered_post lo hi ks cs" using o2(1,5) by (cases ks) (auto intro: beyond_trans less_imp_le)
  then show "ordered_list lo hi ks (Leaf (merge_leaves l r) # cs)"
    using m(1) by (simp add: ordered_list_post del: ordered.simps(1))
  show "leaf_pairs (merge_leaves l r) = leaf_pairs l @ leaf_pairs r" by (rule m(2))
qed

lemma after_delete_ordered:
  assumes t: "2 \<le> t" and kc: "length ks1 = length cs1" "length ks2 = length cs2" and ne: "ks1 @ ks2 \<noteq> []"
    and sh: "shape t h c" "\<forall>d\<in>set (cs1 @ cs2). shape t h d" and fl: "\<forall>d\<in>set (cs1 @ cs2). full_leaves d"
    and o: "ordered_list lo hi (ks1 @ ks2) (cs1 @ c # cs2)" and fc: "0 < h \<longrightarrow> full_leaves c"
    and ad: "after_delete t (ks1 @ ks2) (cs1 @ c0 # cs2) (length cs1) c = Inr n"
  shows "ordered lo hi n \<and> inorder n = inorder (Internal [] (cs1 @ c # cs2)) \<and> full_leaves n"
proof -
  have shfl: "\<forall>d\<in>set cs2. shape t h d \<and> full_leaves d" using sh(2) fl by simp
  have z: "ordered_pre lo hi ks1 cs1" "ordered_list (last_sep lo ks1) hi (refresh ks2 cs2) (c # cs2)"
    "ordered_list (last_sep lo ks1) hi ks2 (c # cs2)"
    using o refresh_ordered [OF _ shfl] by (simp_all add: ordered_list_pre [OF kc(1)])
  from t kc sh show ?thesis
  proof (cases rule: after_delete_cases [where ?c0.0 = c0])
    case plain
    then have n: "n = Internal (ks1 @ refresh ks2 cs2) (cs1 @ c # cs2)" using ad by simp
    have "full_leaves c"
    proof (cases c)
      case (Leaf l)
      then show ?thesis using plain(2) ne t by fastforce
    next
      case (Internal ks cs)
      then show ?thesis using fc sh(1) by auto
    qed
    then show ?thesis using z(1,2) fl by (auto simp: n ordered_list_pre [OF kc(1)] inorder_seps)
  next
    case (borrowR l r cs2' s ks2')
    obtain x1 y1 where x: "shift_left l r = (x1, y1)" by fastforce
    have "shape t 0 (Leaf l)" "shape t 0 (Leaf r)" "1 < length (lf_keys r)"
      using sh t borrowR(1,2,4) by auto
    note m = borrow_right_ordered [OF z(3) [unfolded borrowR(1-3)] x this]
    have "n = Internal (ks1 @ lf_keys r ! 1 # ks2') (cs1 @ Leaf x1 # Leaf y1 # cs2')" using ad borrowR(6) x by simp
    then show ?thesis using z(1) m fl
      by (auto simp: borrowR(1,2) ordered_list_pre [OF kc(1)] inorder_seps simp del: ordered.simps(1) ordered_list.simps)
  next
    case (borrowL l x cs1' s ks1')
    obtain x1 y1 where x: "shift_right x l = (x1, y1)" by fastforce
    have l1: "length ks1' = length cs1'" using kc(1) borrowL(2,3) by simp
    have o2: "ordered_pre lo hi ks1' cs1'" "ordered_list (last_sep lo ks1') hi (s # refresh ks2 cs2) (Leaf x # Leaf l # cs2)"
      using o z(2) by (auto simp: borrowL(1-3) ordered_list_pre [OF l1])
    have "shape t 0 (Leaf x)" "shape t 0 (Leaf l)" "1 < length (lf_keys x)" using sh t borrowL(1,2,4) by auto
    note m = borrow_left_ordered [OF o2(2) x this]
    have "n = Internal (ks1' @ last (lf_keys x) # refresh ks2 cs2) (cs1' @ Leaf x1 # Leaf y1 # cs2)"
      using ad borrowL(6) x by simp
    then show ?thesis using o2(1) m fl
      by (auto simp: borrowL(1,2) ordered_list_pre [OF l1] inorder_seps simp del: ordered.simps(1) ordered_list.simps)
  next
    case (mergeR l r cs2' s ks2')
    have "shape t 0 (Leaf l)" using sh(1) mergeR(1) by simp
    note m = merge_list_ordered [OF z(3) [unfolded mergeR(1-3)] this]
    have "ordered_list (last_sep lo ks1) hi (refresh ks2' cs2') (Leaf (merge_leaves l r) # cs2')"
      by (rule refresh_ordered [OF m(1), where t = t and h = h]) (use shfl mergeR(2) in auto)
    moreover have "n = Internal (ks1 @ refresh ks2' cs2') (cs1 @ Leaf (merge_leaves l r) # cs2')"
      using ad mergeR(5) by simp
    moreover have "lf_keys (merge_leaves l r) \<noteq> []" using fl mergeR(2) by (simp add: merge_leaves_def)
    ultimately show ?thesis using z(1) m(2) fl
      by (auto simp: mergeR(1,2) ordered_list_pre [OF kc(1)] inorder_seps simp del: ordered.simps(1) ordered_list.simps)
  next
    case (mergeL l x cs1' s ks1')
    have l1: "length ks1' = length cs1'" using kc(1) mergeL(4,5) by simp
    have o2: "ordered_pre lo hi ks1' cs1'" "ordered_list (last_sep lo ks1') hi [s] [Leaf x, Leaf l]"
      using o by (auto simp: mergeL(1-5) ordered_list_pre [OF l1])
    have x: "shape t 0 (Leaf x)" "lf_keys x \<noteq> []" using sh fl mergeL(1,4) by auto
    note m = merge_list_ordered [OF o2(2) x(1)]
    have n: "n = Internal ks1' (cs1' @ [Leaf (merge_leaves x l)])" using ad mergeL(7) by simp
    have "ordered_list lo hi (ks1' @ []) (cs1' @ [Leaf (merge_leaves x l)])"
      using o2(1) m(1) by (simp only: ordered_list_pre [OF l1])
    moreover have "lf_keys (merge_leaves x l) \<noteq> []" using x(2) by (simp add: merge_leaves_def)
    ultimately show ?thesis using m(2) fl by (auto simp: n mergeL(1,2,4) inorder_seps)
  qed
qed

lemma delete_ordered:
  assumes "2 \<le> t"
  shows "shape t h n \<Longrightarrow> ordered lo hi n \<Longrightarrow> at_least lo key \<Longrightarrow> below key hi \<Longrightarrow> (0 < h \<longrightarrow> stout n) \<Longrightarrow>
    delete_recursive t n key = Inr (found, n') \<Longrightarrow>
    ordered lo hi n' \<and> set (inorder n') = {p \<in> set (inorder n). fst p \<noteq> key} \<and>
    (found \<longleftrightarrow> key \<in> fst ` set (inorder n)) \<and> (0 < h \<longrightarrow> full_leaves n')"
proof (induction h arbitrary: n n' found lo hi)
  case 0
  then obtain l where n: "n = Leaf l" by (cases n) auto
  show ?case
  proof (cases "leaf_index l key")
    case None
    then have "key \<notin> set (lf_keys l)" using leaf_index_pairs(2) 0 n by auto
    then have "key \<notin> fst ` set (leaf_pairs l)" by (auto simp: leaf_pairs_def dest: set_zip_leftD)
    then show ?thesis using 0 None by (auto simp: n)
  next
    case (Some i)
    then show ?thesis using 0 leaf_pop_ordered [of lo hi l t key i] by (auto simp: n)
  qed
next
  case (Suc h)
  obtain ks1 ks2 cs1 c0 cs2 where f: "n = Internal (ks1 @ ks2) (cs1 @ c0 # cs2)" "length ks1 = length cs1"
    "length ks2 = length cs2" "bisect_right (ks1 @ ks2) key = length cs1" "shape t h c0"
    "\<forall>d\<in>set (cs1 @ cs2). shape t h d" "length (ks1 @ ks2) + 1 \<le> 2 * t"
    by (rule shape_focus [OF Suc.prems(1), where key = key])
  have o: "ordered_list lo hi (ks1 @ ks2) (cs1 @ c0 # cs2)" using Suc.prems(2) f(1) by simp
  note b = focus_bounds [OF o f(4) [folded f(2)] Suc.prems(3,4)]
  have z: "ordered_pre lo hi ks1 cs1" "ordered (last_sep lo ks1) (hd_sep hi ks2) c0"
    "ordered_post (last_sep lo ks1) hi ks2 cs2" using o ordered_zip [OF f(2)] by auto
  have st: "ks1 @ ks2 \<noteq> []" "stout c0" "\<forall>d\<in>set (cs1 @ cs2). full_leaves d"
    using Suc.prems(5) by (auto simp: f(1) intro: stout_full_leaves)
  obtain fnd c where c: "delete_recursive t c0 key = Inr (fnd, c)" "shape t h c"
    using delete_shape [OF assms f(5)] by blast
  have IH: "ordered (last_sep lo ks1) (hd_sep hi ks2) c" "set (inorder c) = {p \<in> set (inorder c0). fst p \<noteq> key}"
    "fnd \<longleftrightarrow> key \<in> fst ` set (inorder c0)" "0 < h \<longrightarrow> full_leaves c"
    using Suc.IH [OF f(5) z(2) b _ c(1)] st(2) by auto
  have rest: "fst p \<noteq> key" if "p \<in> set (inorder (Internal [] cs1)) \<or> p \<in> set (inorder (Internal [] cs2))" for p
    using focus_sides [OF o f(2) f(4) [folded f(2)] Suc.prems(3,4), of p] that by (elim disjE) simp_all
  note res = Suc.prems(6) [unfolded f(1) delete_step [OF f(4) c(1)]]
  have o': "ordered_list lo hi (ks1 @ ks2) (cs1 @ c # cs2)" using z IH(1) ordered_zip [OF f(2)] by blast
  show ?case
  proof (cases fnd)
    case True
    then have ad: "after_delete t (ks1 @ ks2) (cs1 @ c0 # cs2) (length cs1) c = Inr n'" "found" using res by auto
    note r = after_delete_ordered [OF assms f(2,3) st(1) c(2) f(6) st(3) o' IH(4) ad(1)]
    then show ?thesis using IH(2,3) True ad(2) rest by (auto simp: f(1) inorder_seps)
  next
    case False
    then have "n' = n" "\<not> found" using res f(1) by auto
    then show ?thesis using Suc.prems(2,5) IH(3) False rest by (auto simp: f(1) inorder_seps intro: stout_full_leaves)
  qed
qed
end
