(* ===== verification/StorageEngine.thy ===== *)
theory StorageEngine
  imports Py_Base
begin

text \<open>
  \<open>storage_engine.py\<close>: the interface between the engines and their clients, and its default
  \<open>write_batch\<close>, which applies the operations one after the other.

  The interface is the locale \<open>kv_store\<close>: an engine state with an invariant, the sorted pairs it
  stands for (\<open>view\<close>), lookup of the keys it can encode and range scan that agree with them, and one write that changes one
  key. A write may be subject to a guard, the condition under which the engine keeps its promise.
  The locale proves once what a batch of writes does; the engines interpret it.
\<close>

record write_op =
  wo_key :: pystr
  wo_value :: "pystr option"
  wo_is_delete :: bool

definition wo_put :: "pystr \<Rightarrow> pystr \<Rightarrow> write_op" where
  "wo_put key val = \<lparr>wo_key = key, wo_value = Some val, wo_is_delete = False\<rparr>"

definition wo_delete :: "pystr \<Rightarrow> write_op" where
  "wo_delete key = \<lparr>wo_key = key, wo_value = None, wo_is_delete = True\<rparr>"

definition apply_op ::
  "('s \<Rightarrow> pystr \<Rightarrow> pystr \<Rightarrow> 's result) \<Rightarrow> ('s \<Rightarrow> pystr \<Rightarrow> 's result) \<Rightarrow> 's \<Rightarrow> write_op \<Rightarrow> 's result" where
  "apply_op set_fn delete_fn s op =
     (if wo_is_delete op then delete_fn s (wo_key op)
      else case wo_value op of Some v \<Rightarrow> set_fn s (wo_key op) v | None \<Rightarrow> Inl TypeErr)"

text \<open>The default \<open>write_batch\<close>.\<close>

fun write_batch_seq ::
  "('s \<Rightarrow> pystr \<Rightarrow> pystr \<Rightarrow> 's result) \<Rightarrow> ('s \<Rightarrow> pystr \<Rightarrow> 's result) \<Rightarrow> 's \<Rightarrow> write_op list \<Rightarrow> 's result" where
  "write_batch_seq set_fn delete_fn s [] = Inr s"
| "write_batch_seq set_fn delete_fn s (op # ops) =
     bindE (apply_op set_fn delete_fn s op) (\<lambda>s'. write_batch_seq set_fn delete_fn s' ops)"

text \<open>What an operation does to the map an engine stands for.\<close>

definition op_effect :: "write_op \<Rightarrow> (pystr \<rightharpoonup> pystr) \<Rightarrow> (pystr \<rightharpoonup> pystr)" where
  "op_effect op m = m(wo_key op := (if wo_is_delete op then None else wo_value op))"

definition op_ok :: "write_op \<Rightarrow> bool" where
  "op_ok op \<longleftrightarrow> wo_is_delete op \<or> wo_value op \<noteq> None"

lemma op_ok_simps [simp]: "op_ok (wo_put k v)" "op_ok (wo_delete k)"
  by (simp_all add: op_ok_def wo_put_def wo_delete_def)

lemma op_effect_simps [simp]:
  "op_effect (wo_put k v) m = m(k \<mapsto> v)" "op_effect (wo_delete k) m = m(k := None)"
  by (simp_all add: op_effect_def wo_put_def wo_delete_def)

text \<open>The guards of a batch, each in the state its operation finds.\<close>

fun batch_guard ::
  "('s \<Rightarrow> write_op \<Rightarrow> bool) \<Rightarrow> ('s \<Rightarrow> write_op \<Rightarrow> 's result) \<Rightarrow> 's \<Rightarrow> write_op list \<Rightarrow> bool" where
  "batch_guard guard write s [] \<longleftrightarrow> True"
| "batch_guard guard write s (op # ops) \<longleftrightarrow>
     guard s op \<and> (case write s op of Inr s' \<Rightarrow> batch_guard guard write s' ops | Inl _ \<Rightarrow> False)"

text \<open>Two strictly sorted lists of pairs with the same map are equal.\<close>

lemma sorted_pairs_unique:
  fixes xs ys :: "('k :: linorder \<times> 'v) list"
  assumes "sorted_wrt (<) (map fst xs)" "sorted_wrt (<) (map fst ys)" "map_of xs = map_of ys"
  shows "xs = ys"
proof -
  have d: "distinct (map fst xs)" "distinct (map fst ys)" using assms(1,2) strict_sorted_iff by auto
  have e: "set xs = set ys"
    using assms(3) d by (metis map_of_eq_Some_iff subset_antisym subrelI)
  have "inj_on fst (set xs \<union> set ys)" using d(1) by (simp add: e [symmetric] distinct_map)
  then show ?thesis
    using assms(1,2) d e by (intro map_sorted_distinct_set_unique [of fst]) (auto simp: strict_sorted_iff)
qed

locale kv_store =
  fixes inv :: "'s \<Rightarrow> bool"
    and view :: "'s \<Rightarrow> (pystr \<times> pystr) list"
    and key_ok :: "pystr \<Rightarrow> bool"
    and get :: "'s \<Rightarrow> pystr \<Rightarrow> pystr option result"
    and scan :: "'s \<Rightarrow> pystr \<Rightarrow> pystr \<Rightarrow> (pystr \<times> pystr) list result"
    and guard :: "'s \<Rightarrow> write_op \<Rightarrow> bool"
    and set_fn :: "'s \<Rightarrow> pystr \<Rightarrow> pystr \<Rightarrow> 's result"
    and delete_fn :: "'s \<Rightarrow> pystr \<Rightarrow> 's result"
  assumes view_sorted: "inv s \<Longrightarrow> sorted_wrt (<) (map fst (view s))"
    and get_view: "inv s \<Longrightarrow> key_ok k \<Longrightarrow> get s k = Inr (map_of (view s) k)"
    and scan_view: "inv s \<Longrightarrow> scan s a b = Inr (filter (\<lambda>(k, v). a \<le> k \<and> k \<le> b) (view s))"
    and write_view: "inv s \<Longrightarrow> op_ok op \<Longrightarrow> guard s op \<Longrightarrow>
      \<exists>s'. apply_op set_fn delete_fn s op = Inr s' \<and> inv s' \<and> map_of (view s') = op_effect op (map_of (view s))"
begin

lemma batch_view:
  "inv s \<Longrightarrow> list_all op_ok ops \<Longrightarrow> batch_guard guard (apply_op set_fn delete_fn) s ops \<Longrightarrow>
     \<exists>s'. write_batch_seq set_fn delete_fn s ops = Inr s' \<and> inv s' \<and>
       map_of (view s') = fold op_effect ops (map_of (view s))"
proof (induction ops arbitrary: s)
  case (Cons op ops)
  then obtain s1 where s1: "apply_op set_fn delete_fn s op = Inr s1" "inv s1"
    "map_of (view s1) = op_effect op (map_of (view s))"
    using write_view [of s op] Cons.prems by auto
  then have "batch_guard guard (apply_op set_fn delete_fn) s1 ops" "list_all op_ok ops" using Cons.prems by simp_all
  then show ?case using Cons.IH [OF s1(2)] s1 by simp
qed simp

lemma get_after_batch:
  assumes "inv s" "list_all op_ok ops" "batch_guard guard (apply_op set_fn delete_fn) s ops"
    "write_batch_seq set_fn delete_fn s ops = Inr s'" "key_ok k"
  shows "get s' k = Inr (fold op_effect ops (map_of (view s)) k)"
  using batch_view [OF assms(1-3)] assms(4,5) get_view by auto

lemma scan_unique:
  assumes "inv s" "sorted_wrt (<) (map fst xs)" "map_of xs = map_of (view s)"
  shows "scan s a b = Inr (filter (\<lambda>(k, v). a \<le> k \<and> k \<le> b) xs)"
  using sorted_pairs_unique [OF assms(2) view_sorted [OF assms(1)] assms(3)] scan_view [OF assms(1)] by simp

end

end
