(* ===== verification/BTree_Map.thy ===== *)
theory BTree_Map
  imports BTree_Order StorageEngine
begin

text \<open>
  The operations of the tree object: what \<open>bt_set\<close>, \<open>bt_get\<close>, \<open>bt_delete\<close> and \<open>bt_scan\<close> do to the
  whole tree, as a finite map from keys to values.
\<close>

section \<open>Updating in place\<close>

lemma put_value_step:
  assumes "bisect_right (ks1 @ ks2) key = length cs1"
  shows "put_value (Internal (ks1 @ ks2) (cs1 @ c # cs2)) key val =
    Internal (ks1 @ ks2) (cs1 @ put_value c key val # cs2)"
  using assms by (simp add: Let_def)

lemma put_value_shape:
  "shape t h n \<Longrightarrow> shape t h (put_value n key val) \<and> regrow i (leaves n) i (leaves (put_value n key val)) \<and>
     seps (put_value n key val) = seps n \<and> (stout n \<longrightarrow> stout (put_value n key val))"
proof (induction h arbitrary: n)
  case 0
  then obtain l where "n = Leaf l" by (cases n) auto
  then show ?case using 0
    by (cases "leaf_index l key") (auto simp: regrow_def relink_def)
next
  case (Suc h)
  obtain ks1 ks2 cs1 c cs2 where f: "n = Internal (ks1 @ ks2) (cs1 @ c # cs2)" "length ks1 = length cs1"
    "length ks2 = length cs2" "bisect_right (ks1 @ ks2) key = length cs1" "shape t h c"
    "\<forall>d\<in>set (cs1 @ cs2). shape t h d" "length (ks1 @ ks2) + 1 \<le> 2 * t"
    by (rule shape_focus [OF Suc.prems, where key = key])
  note IH = Suc.IH [OF f(5)]
  have "regrow i (leaves n) i (leaves (Internal (ks1 @ ks2) (cs1 @ put_value c key val # cs2)))"
    using regrow_cong [of i "leaves c" i "leaves (put_value c key val)"] IH by (simp add: f(1))
  then show ?case using IH f(2,3,6,7) by (auto simp: f(1) put_value_step [OF f(4)] simp del: put_value.simps)
qed

lemma put_value_ordered:
  "shape t h n \<Longrightarrow> ordered lo hi n \<Longrightarrow> at_least lo key \<Longrightarrow> below key hi \<Longrightarrow> key \<in> fst ` set (inorder n) \<Longrightarrow>
     ordered lo hi (put_value n key val) \<and>
     set (inorder (put_value n key val)) = insert (key, val) {p \<in> set (inorder n). fst p \<noteq> key} \<and>
     map fst (inorder (put_value n key val)) = map fst (inorder n)"
proof (induction h arbitrary: n lo hi)
  case 0
  then obtain l where n: "n = Leaf l" by (cases n) auto
  have l: "sorted_wrt (<) (lf_keys l)" "length (lf_values l) = length (lf_keys l)" using 0 n by auto
  obtain i where i: "leaf_index l key = Some i"
    using leaf_index_pairs(2) [OF l] 0(5) n by (cases "leaf_index l key") (auto simp: leaf_pairs_def dest: set_zip_leftD)
  obtain ks1 ks2 vs1 v vs2 where s: "lf_keys l = ks1 @ key # ks2" "length ks1 = i"
    "lf_values l = vs1 @ v # vs2" "length vs1 = i" "leaf_pairs l = zip ks1 vs1 @ (key, v) # zip ks2 vs2"
    "key \<notin> set ks1" "key \<notin> set ks2"
    using leaf_split [OF l(1) _ i] 0(1) n by metis
  have "set (zip (lf_keys l) ((lf_values l)[i := val])) = insert (key, val) {p \<in> set (leaf_pairs l). fst p \<noteq> key}"
    using s(2,4,6,7) by (auto simp: s(1,3,5) focus_eq dest: set_zip_leftD)
  then show ?case using 0 i l by (simp add: n leaf_pairs_def)
next
  case (Suc h)
  obtain ks1 ks2 cs1 c cs2 where f: "n = Internal (ks1 @ ks2) (cs1 @ c # cs2)" "length ks1 = length cs1"
    "length ks2 = length cs2" "bisect_right (ks1 @ ks2) key = length cs1" "shape t h c"
    "\<forall>d\<in>set (cs1 @ cs2). shape t h d" "length (ks1 @ ks2) + 1 \<le> 2 * t"
    by (rule shape_focus [OF Suc.prems(1), where key = key])
  have o: "ordered_list lo hi (ks1 @ ks2) (cs1 @ c # cs2)" using Suc.prems(2) f(1) by simp
  note b = focus_bounds [OF o f(4) [folded f(2)] Suc.prems(3,4)]
  note sd = focus_sides [OF o f(2) f(4) [folded f(2)] Suc.prems(3,4)]
  have z: "ordered_pre lo hi ks1 cs1" "ordered (last_sep lo ks1) (hd_sep hi ks2) c"
    "ordered_post (last_sep lo ks1) hi ks2 cs2" using o ordered_zip [OF f(2)] by auto
  have rest: "fst p \<noteq> key" if "p \<in> set (inorder (Internal [] cs1)) \<or> p \<in> set (inorder (Internal [] cs2))" for p
    using sd [of p] that by (elim disjE) simp_all
  have "key \<in> fst ` set (inorder c)" using Suc.prems(5) rest by (auto simp: f(1) inorder_seps)
  note IH = Suc.IH [OF f(5) z(2) b this]
  show ?case using IH z rest unfolding f(1) put_value_step [OF f(4)]
    by (auto simp: ordered_zip [OF f(2)] inorder_seps simp del: put_value.simps)
qed

section \<open>Scans\<close>

lemma scan_leaf_sorted:
  "sorted_wrt (<) ks \<Longrightarrow> length vs = length ks \<Longrightarrow>
     scan_leaf a b ks vs = (filter (\<lambda>(k, v). a \<le> k \<and> k \<le> b) (zip ks vs), \<exists>k\<in>set ks. b < k)"
proof (induction a b ks vs rule: scan_leaf.induct)
  case (1 a b k ks v vs)
  have "filter (\<lambda>(k, v). a \<le> k \<and> k \<le> b) (zip ks vs) = []" if "b < k"
    using 1(2) that by (fastforce simp: filter_empty_conv dest: set_zip_leftD)
  then show ?case using 1 by (auto simp: not_less not_le)
qed auto

lemma leaf_by_id_mid:
  "distinct (map lf_id (pre @ l # post)) \<Longrightarrow> leaf_by_id (pre @ l # post) (lf_id l) = Some l"
  by (induction pre) (auto simp: leaf_by_id_def)

text \<open>The walk follows the chain to its end, or to the first leaf with a key above the range.\<close>

lemma scan_walk_total:
  "distinct (map lf_id ls) \<Longrightarrow> chained None ls \<Longrightarrow> ls = pre @ l # post \<Longrightarrow> length post < n \<Longrightarrow>
     \<exists>r. scan_walk n ls a b l = Some r"
proof (induction post arbitrary: n pre l)
  case Nil
  then obtain m where "n = Suc m" by (cases n) auto
  then show ?case using Nil by (auto simp: case_prod_beta)
next
  case (Cons l2 post)
  then obtain m where n: "n = Suc m" "length post < m" by (cases n) auto
  have "\<exists>r. scan_walk m ls a b l2 = Some r" using Cons.IH [of "pre @ [l]" l2 m] Cons.prems n by simp
  moreover have "leaf_by_id ls (lf_id l2) = Some l2" using leaf_by_id_mid [of "pre @ [l]" l2 post] Cons.prems by simp
  moreover have "lf_next l = Some (lf_id l2)" using Cons.prems(2) by (simp add: Cons.prems(3))
  ultimately show ?case by (auto simp: n case_prod_beta)
qed

lemma scan_walk_sorted:
  "distinct (map lf_id ls) \<Longrightarrow> chained None ls \<Longrightarrow> ls = pre @ l # post \<Longrightarrow> length post < n \<Longrightarrow>
     sorted_wrt (<) (map fst (concat (map leaf_pairs (l # post)))) \<Longrightarrow>
     \<forall>x\<in>set (l # post). length (lf_values x) = length (lf_keys x) \<Longrightarrow>
     scan_walk n ls a b l = Some (filter (\<lambda>(k, v). a \<le> k \<and> k \<le> b) (concat (map leaf_pairs (l # post))))"
proof (induction post arbitrary: n pre l)
  case Nil
  then obtain m where "n = Suc m" by (cases n) auto
  then show ?case using Nil scan_leaf_sorted [of "lf_keys l" "lf_values l" a b] by (auto simp: leaf_pairs_def)
next
  case (Cons l2 post)
  then obtain m where n: "n = Suc m" "length post < m" by (cases n) auto
  let ?rest = "concat (map leaf_pairs (l2 # post))" and ?p = "\<lambda>(k, v). a \<le> k \<and> k \<le> b"
  have len: "length (lf_values l) = length (lf_keys l)" using Cons.prems(6) by simp
  have "map fst (concat (map leaf_pairs (l # l2 # post))) = lf_keys l @ map fst ?rest"
    using len by (simp add: leaf_pairs_def [of l])
  then have "sorted_wrt (<) (lf_keys l @ map fst ?rest)" using Cons.prems(5) by (simp only:)
  then have s: "sorted_wrt (<) (lf_keys l)" "sorted_wrt (<) (map fst ?rest)"
    and le: "\<forall>k\<in>set (lf_keys l). \<forall>p\<in>set ?rest. k < fst p"
    unfolding sorted_wrt_append set_map by (blast, blast, blast)
  have IH: "scan_walk m ls a b l2 = Some (filter ?p ?rest)"
    using Cons.IH [of "pre @ [l]" l2 m] Cons.prems(1-4,6) n s(2) by simp
  have nx: "lf_next l = Some (lf_id l2)" "leaf_by_id ls (lf_id l2) = Some l2"
    using leaf_by_id_mid [of "pre @ [l]" l2 post] Cons.prems by auto
  have sl: "scan_leaf a b (lf_keys l) (lf_values l) = (filter ?p (leaf_pairs l), \<exists>k\<in>set (lf_keys l). b < k)"
    using scan_leaf_sorted [OF s(1) len] by (simp add: leaf_pairs_def)
  have "filter ?p ?rest = []" if ex: "\<exists>k\<in>set (lf_keys l). b < k"
  proof -
    obtain k where "k \<in> set (lf_keys l)" "b < k" using ex by blast
    then have "\<forall>p\<in>set ?rest. b < fst p" using le order.strict_trans by blast
    then have "\<forall>p\<in>set ?rest. \<not> ?p p" by (metis (mono_tags) case_prod_beta leD)
    then show ?thesis by (rule filter_False)
  qed
  then show ?case unfolding n(1) scan_walk.simps sl Let_def prod.case by (simp add: nx IH)
qed

section \<open>The tree as a whole\<close>

definition linked_leaves :: "nat \<Rightarrow> leaf list \<Rightarrow> bool" where
  "linked_leaves nid ls \<longleftrightarrow> chained None ls \<and> distinct (map lf_id ls) \<and> (\<forall>l\<in>set ls. lf_id l < nid)"

lemma regrow_linked:
  assumes "regrow i xs j ys" "linked_leaves i xs"
  shows "linked_leaves j ys"
proof -
  have m: "mset (map lf_id ys) = mset (map lf_id xs @ [i..<j])" and ij: "i \<le> j" and r: "relink xs ys"
    using assms(1) by (auto simp: regrow_def)
  have "distinct (map lf_id xs @ [i..<j])" using assms(2) by (auto simp: linked_leaves_def)
  then have "distinct (map lf_id ys)" using mset_eq_imp_distinct_iff [OF m] by blast
  moreover have "lf_id l < j" if "l \<in> set ys" for l
  proof -
    have "lf_id l \<in> set (map lf_id ys)" using that by simp
    then have "lf_id l \<in> set (map lf_id xs @ [i..<j])" unfolding mset_eq_setD [OF m] .
    then show ?thesis using assms(2) ij by (auto simp: linked_leaves_def)
  qed
  ultimately show ?thesis using assms(2) r by (auto simp: linked_leaves_def relink_def)
qed

lemma regrow_down_linked:
  assumes "regrow_down xs ys" "linked_leaves i xs"
  shows "linked_leaves i ys"
proof -
  have m: "mset (map lf_id ys) \<subseteq># mset (map lf_id xs)" using assms(1) by (simp add: regrow_down_def)
  have "distinct (map lf_id xs)" using assms(2) by (simp add: linked_leaves_def)
  then have one: "count (mset (map lf_id xs)) a \<le> 1" for a
    by (simp add: distinct_count_atmost_1 [of "map lf_id xs"])
  have "count (mset (map lf_id ys)) a = (if a \<in> set (map lf_id ys) then 1 else 0)" for a
  proof (cases "a \<in> set (map lf_id ys)")
    case True
    then have "0 < count (mset (map lf_id ys)) a" by (metis count_greater_zero_iff set_mset_mset)
    then have "count (mset (map lf_id ys)) a = 1" using mset_subset_eq_count [OF m, of a] one [of a] by linarith
    then show ?thesis by (simp only: True if_True)
  next
    case False
    then show ?thesis using count_mset_0_iff [of "map lf_id ys" a] by (simp only: if_False simp_thms)
  qed
  then have "distinct (map lf_id ys)" unfolding distinct_count_atmost_1 by blast
  moreover have "lf_id l < i" if "l \<in> set ys" for l
  proof -
    have "lf_id l \<in> set (map lf_id ys)" using that by simp
    then have "lf_id l \<in> set (map lf_id xs)" using mset_subset_eqD [OF m, of "lf_id l"] by simp
    then show ?thesis using assms(2) by (auto simp: linked_leaves_def)
  qed
  ultimately show ?thesis using assms by (auto simp: linked_leaves_def regrow_down_def relink_def)
qed

definition bt_shape :: "btree \<Rightarrow> bool" where
  "bt_shape b \<longleftrightarrow> 2 \<le> bt_order b \<and> (\<exists>h. shape (bt_order b) h (bt_root b)) \<and>
     linked_leaves (bt_next_id b) (leaves (bt_root b))"

definition bt_wf :: "btree \<Rightarrow> bool" where
  "bt_wf b \<longleftrightarrow> bt_shape b \<and> ordered None None (bt_root b) \<and> bt_size b = int (length (inorder (bt_root b)))"

lemma bt_new_wf: "2 \<le> t \<Longrightarrow> bt_wf (btree_new t)"
  by (auto simp: bt_wf_def bt_shape_def btree_new_def linked_leaves_def leaf_pairs_def)

lemma find_leaf_total: "shape t h n \<Longrightarrow> \<exists>l pre post. find_leaf n key = Inr l \<and> leaves n = pre @ l # post \<and> shape t 0 (Leaf l)"
proof (induction h arbitrary: n)
  case 0
  then obtain l where "n = Leaf l" by (cases n) auto
  then show ?case using 0 by (auto intro!: exI [of _ "[]"])
next
  case (Suc h)
  obtain ks1 ks2 cs1 c cs2 where f: "n = Internal (ks1 @ ks2) (cs1 @ c # cs2)" "length ks1 = length cs1"
    "length ks2 = length cs2" "bisect_right (ks1 @ ks2) key = length cs1" "shape t h c"
    "\<forall>d\<in>set (cs1 @ cs2). shape t h d" "length (ks1 @ ks2) + 1 \<le> 2 * t"
    by (rule shape_focus [OF Suc.prems, where key = key])
  obtain l pre post where l: "find_leaf c key = Inr l" "leaves c = pre @ l # post" "shape t 0 (Leaf l)"
    using Suc.IH [OF f(5)] by blast
  have "find_leaf n key = Inr l" using l(1) f(4) by (simp add: f(1))
  moreover have "leaves n = (concat (map leaves cs1) @ pre) @ l # (post @ concat (map leaves cs2))"
    using l(2) by (simp add: f(1))
  ultimately show ?case using l(3) by blast
qed

lemma grow_root_ok:
  assumes "2 \<le> t" "shape t h root"
  shows "\<exists>h' root' nid'. grow_root t nid root = Inr (root', nid') \<and> shape t h' root' \<and> \<not> is_full t root' \<and>
    regrow nid (leaves root) nid' (leaves root') \<and>
    (ordered None None root \<longrightarrow> ordered None None root' \<and> set (inorder root') = set (inorder root) \<and>
       seps root' \<subseteq> seps root \<union> fst ` set (inorder root))"
proof (cases "is_full t root")
  case True
  obtain a m b nid' where hv: "halves t nid root = (a, m, b, nid')" by (cases "halves t nid root")
  have "split_child t nid [] [root] 0 = Inr ([m], [a, b], nid')"
    using split_child_zip [OF assms True, of "[]" "[]" nid a m b nid' "[]" "[]"] hv by simp
  then have g: "grow_root t nid root = Inr (Internal [m] [a, b], nid')" using True by (simp add: grow_root_def)
  have sh: "shape t (Suc h) (Internal [m] [a, b])" "\<not> is_full t (Internal [m] [a, b])"
    using shape_halves [OF assms True hv] assms(1) by (auto simp: is_full_def)
  have o: "ordered None None (Internal [m] [a, b]) \<and> set (inorder (Internal [m] [a, b])) = set (inorder root) \<and>
      seps (Internal [m] [a, b]) \<subseteq> seps root \<union> fst ` set (inorder root)" if "ordered None None root"
    using halves_ordered [OF assms True that hv] by (auto simp: inorder_seps)
  have rg: "regrow nid (leaves root) nid' (leaves (Internal [m] [a, b]))"
    using halves_leaves [OF hv] by simp
  show ?thesis using g sh rg o by blast
next
  case False
  then show ?thesis using assms(2) by (auto simp: grow_root_def regrow_refl)
qed

lemma bt_set_shape:
  assumes "bt_shape b"
  shows "\<exists>b'. bt_set b key val = Inr b' \<and> bt_shape b' \<and> bt_order b' = bt_order b"
proof -
  let ?t = "bt_order b" and ?n = "bt_root b"
  obtain h where t: "2 \<le> ?t" and sh: "shape ?t h ?n" and lk: "linked_leaves (bt_next_id b) (leaves ?n)"
    using assms by (auto simp: bt_shape_def)
  obtain l where l: "find_leaf ?n key = Inr l" using find_leaf_total [OF sh] by blast
  show ?thesis
  proof (cases "leaf_index l key")
    case (Some i)
    then show ?thesis using put_value_shape [OF sh, of key val "bt_next_id b"] regrow_linked [OF _ lk] t
      by (auto simp: bt_set_def l bt_shape_def)
  next
    case None
    obtain h' root nid where g: "grow_root ?t (bt_next_id b) ?n = Inr (root, nid)" "shape ?t h' root"
      "\<not> is_full ?t root" "regrow (bt_next_id b) (leaves ?n) nid (leaves root)"
      using grow_root_ok [OF t sh] by blast
    obtain root' nid' where i: "insert_non_full ?t nid root key val = Inr (root', nid')" "shape ?t h' root'"
      using insert_shape [OF t g(2,3)] by blast
    have "linked_leaves nid' (leaves root')"
      using regrow_linked [OF regrow_trans [OF g(4) insert_leaves [OF t g(2) i(1)]] lk] .
    then show ?thesis using None t i(2) by (auto simp: bt_set_def l g(1) i(1) bt_shape_def)
  qed
qed

lemma inorder_distinct: "ordered lo hi n \<Longrightarrow> distinct (map fst (inorder n))"
  using ordered_inorder(1) strict_sorted_iff by blast

lemma inorder_length: "ordered lo hi n \<Longrightarrow> length (inorder n) = card (set (inorder n))"
  using inorder_distinct distinct_map distinct_card by metis

lemma find_leaf_member:
  assumes "shape t h n" "ordered None None n" "find_leaf n key = Inr l"
  shows "leaf_index l key \<noteq> None \<longleftrightarrow> key \<in> fst ` set (inorder n)"
proof -
  have g: "node_get n key = Inr (map_of (inorder n) key)" by (rule node_get_ok [OF assms(1,2)])
  obtain l' where l': "find_leaf n key = Inr l'" "shape t 0 (Leaf l')" using find_leaf_total [OF assms(1)] by blast
  then have "length (lf_values l) = length (lf_keys l)" using assms(3) by simp
  then have "map_of (inorder n) key \<noteq> None \<longleftrightarrow> leaf_index l key \<noteq> None"
    using g assms(3) leaf_index_Some [of l key] by (cases "leaf_index l key") (auto simp: node_get_def dest: sym)
  then show ?thesis by (auto simp: map_of_eq_None_iff)
qed

definition stale :: "btree \<Rightarrow> pystr \<Rightarrow> bool" where
  "stale b key \<longleftrightarrow> key \<in> seps (bt_root b) \<and> key \<notin> fst ` set (inorder (bt_root b))"

lemma bt_set_wf:
  assumes wf: "bt_wf b" and ok: "\<not> stale b key" and res: "bt_set b key val = Inr b'"
  shows "bt_wf b' \<and> set (inorder (bt_root b')) = insert (key, val) {p \<in> set (inorder (bt_root b)). fst p \<noteq> key} \<and>
    seps (bt_root b') \<subseteq> seps (bt_root b) \<union> fst ` set (inorder (bt_root b))"
proof -
  let ?t = "bt_order b" and ?n = "bt_root b"
  obtain h where t: "2 \<le> ?t" and sh: "shape ?t h ?n" and o: "ordered None None ?n"
    and sz: "bt_size b = int (length (inorder ?n))"
    using wf by (auto simp: bt_wf_def bt_shape_def)
  have shape': "bt_shape b'" using bt_set_shape [of b key val] wf res by (auto simp: bt_wf_def)
  obtain l where l: "find_leaf ?n key = Inr l" using find_leaf_total [OF sh] by blast
  note mem = find_leaf_member [OF sh o l]
  show ?thesis
  proof (cases "key \<in> fst ` set (inorder ?n)")
    case True
    then have b': "b' = b\<lparr>bt_root := put_value ?n key val\<rparr>" using res mem l by (auto simp: bt_set_def)
    have "seps (put_value ?n key val) = seps ?n" using put_value_shape [OF sh] by blast
    moreover have "length (inorder (put_value ?n key val)) = length (inorder ?n)"
      using put_value_ordered [OF sh o _ _ True] by (metis bound_simps(1,3) length_map)
    ultimately show ?thesis
      using put_value_ordered [OF sh o _ _ True, of val] shape' sz by (auto simp: b' bt_wf_def)
  next
    case False
    obtain h' root nid where g: "grow_root ?t (bt_next_id b) ?n = Inr (root, nid)" "shape ?t h' root"
      "\<not> is_full ?t root" "ordered None None root" "set (inorder root) = set (inorder ?n)"
      "seps root \<subseteq> seps ?n \<union> fst ` set (inorder ?n)"
      using grow_root_ok [OF t sh] o by blast
    obtain root' nid' where i: "insert_non_full ?t nid root key val = Inr (root', nid')"
      using insert_shape [OF t g(2,3)] by blast
    have b': "b' = b\<lparr>bt_root := root', bt_size := bt_size b + 1, bt_next_id := nid'\<rparr>"
      using res mem False l by (auto simp: bt_set_def g(1) i)
    have "key \<notin> seps root" using ok False g(6) by (auto simp: stale_def)
    then have r: "ordered None None root'" "set (inorder root') = insert (key, val) (set (inorder ?n))"
      "seps root' \<subseteq> seps ?n \<union> fst ` set (inorder ?n)"
      using insert_ordered [OF t g(2,4) _ _ _ _ i] False g(5,6) by auto
    have nin: "(key, val) \<notin> set (inorder ?n)" using False by force
    then have "length (inorder root') = Suc (length (inorder ?n))"
      using inorder_length [OF r(1)] inorder_length [OF o] r(2) by simp
    moreover have "{p \<in> set (inorder ?n). fst p \<noteq> key} = set (inorder ?n)" using False by force
    ultimately show ?thesis using r shape' sz by (auto simp: b' bt_wf_def)
  qed
qed

lemma bt_get_wf: "bt_wf b \<Longrightarrow> bt_get b key = Inr (map_of (inorder (bt_root b)) key)"
  using node_get_ok by (auto simp: bt_get_def bt_wf_def bt_shape_def)

lemma shrink_root_ok:
  assumes "shape t h n"
  shows "\<exists>h' n'. shrink_root n = Inr n' \<and> shape t h' n' \<and> leaves n' = leaves n \<and>
    (ordered None None n \<longrightarrow> ordered None None n')"
proof (cases "\<exists>cs. n = Internal [] cs")
  case True
  then obtain cs where n: "n = Internal [] cs" by blast
  then obtain c where "cs = [c]" using assms by (auto simp: length_Suc_conv)
  then show ?thesis using assms n by (auto simp: shrink_root_def nth_err_def)
next
  case False
  then have "shrink_root n = Inr n" by (auto simp: shrink_root_def split: bnode.split list.split)
  then show ?thesis using assms by blast
qed

lemma bt_delete_shape:
  assumes "bt_shape b"
  shows "\<exists>b' found. bt_delete b key = Inr (b', found) \<and> bt_shape b' \<and> bt_order b' = bt_order b"
proof -
  let ?t = "bt_order b" and ?n = "bt_root b"
  obtain h where t: "2 \<le> ?t" and sh: "shape ?t h ?n" and lk: "linked_leaves (bt_next_id b) (leaves ?n)"
    using assms by (auto simp: bt_shape_def)
  obtain found n where d: "delete_recursive ?t ?n key = Inr (found, n)" "shape ?t h n"
    using delete_shape [OF t sh] by blast
  obtain h' n' where s: "shrink_root n = Inr n'" "shape ?t h' n'" "leaves n' = leaves n"
    using shrink_root_ok [OF d(2)] by blast
  have "linked_leaves (bt_next_id b) (leaves n')"
    using regrow_down_linked [OF delete_leaves [OF t sh d(1)] lk] s(3) by simp
  then show ?thesis using t s(2) assms by (cases found) (auto simp: bt_delete_def d(1) s(1) bt_shape_def)
qed

text \<open>A tree in which a deletion finds a sibling for every leaf.\<close>

definition bt_stout :: "btree \<Rightarrow> bool" where
  "bt_stout b \<longleftrightarrow> (case bt_root b of Leaf l \<Rightarrow> True | n \<Rightarrow> stout n)"

lemma bt_delete_wf:
  assumes wf: "bt_wf b" and st: "bt_stout b" and res: "bt_delete b key = Inr (b', found)"
  shows "bt_wf b' \<and> set (inorder (bt_root b')) = {p \<in> set (inorder (bt_root b)). fst p \<noteq> key} \<and>
    (found \<longleftrightarrow> key \<in> fst ` set (inorder (bt_root b)))"
proof -
  let ?t = "bt_order b" and ?n = "bt_root b"
  obtain h where t: "2 \<le> ?t" and sh: "shape ?t h ?n" and o: "ordered None None ?n"
    and sz: "bt_size b = int (length (inorder ?n))"
    using wf by (auto simp: bt_wf_def bt_shape_def)
  have shape': "bt_shape b'" using bt_delete_shape [of b key] wf res by (auto simp: bt_wf_def)
  obtain fnd n where d: "delete_recursive ?t ?n key = Inr (fnd, n)" "shape ?t h n" "\<not> fnd \<longrightarrow> n = ?n"
    using delete_shape [OF t sh] by blast
  have "0 < h \<longrightarrow> stout ?n" using st sh by (cases ?n) (auto simp: bt_stout_def)
  then have r: "ordered None None n" "set (inorder n) = {p \<in> set (inorder ?n). fst p \<noteq> key}"
    "fnd \<longleftrightarrow> key \<in> fst ` set (inorder ?n)"
    using delete_ordered [OF t sh o _ _ _ d(1)] by auto
  obtain n' where s: "shrink_root n = Inr n'" "leaves n' = leaves n" "ordered None None n'"
    using shrink_root_ok [OF d(2)] r(1) by blast
  have io: "inorder n' = inorder n" using s(2) by (simp add: inorder_def)
  show ?thesis
  proof (cases fnd)
    case True
    then have b': "b' = b\<lparr>bt_root := n', bt_size := bt_size b - 1\<rparr>" "found" using res by (auto simp: bt_delete_def d(1) s(1))
    obtain v where v: "(key, v) \<in> set (inorder ?n)" using True r(3) by auto
    have "set (inorder ?n) = insert (key, v) (set (inorder n))"
    proof -
      have "p = (key, v)" if "p \<in> set (inorder ?n)" "fst p = key" for p
        using that v inorder_distinct [OF o] by (metis eq_key_imp_eq_value prod.collapse)
      then show ?thesis using v unfolding r(2) by blast
    qed
    moreover have "(key, v) \<notin> set (inorder n)" using r(2) by simp
    ultimately have "length (inorder ?n) = Suc (length (inorder n))"
      using inorder_length [OF r(1)] inorder_length [OF o] by simp
    then show ?thesis using r True shape' sz s(3) io by (auto simp: b' bt_wf_def)
  next
    case False
    then have "b' = b" "\<not> found" using res by (auto simp: bt_delete_def d(1))
    moreover have "set (inorder ?n) = {p \<in> set (inorder ?n). fst p \<noteq> key}" using r(3) False by force
    ultimately show ?thesis using wf r(3) False by simp
  qed
qed

lemma shape_leaves: "shape t h n \<Longrightarrow> l \<in> set (leaves n) \<Longrightarrow> length (lf_values l) = length (lf_keys l)"
proof (induction h arbitrary: n)
  case 0
  then show ?case by (cases n) auto
next
  case (Suc h)
  then show ?case by (cases n) auto
qed

lemma bt_scan_total:
  assumes "bt_shape b"
  shows "\<exists>r. bt_scan b a z = Inr (Some r)"
proof -
  obtain h where sh: "shape (bt_order b) h (bt_root b)" and lk: "linked_leaves (bt_next_id b) (leaves (bt_root b))"
    using assms by (auto simp: bt_shape_def)
  obtain l pre post where l: "find_leaf (bt_root b) a = Inr l" "leaves (bt_root b) = pre @ l # post"
    using find_leaf_total [OF sh] by blast
  then show ?thesis using scan_walk_total [OF _ _ l(2), of "length (leaves (bt_root b))"] lk
    by (auto simp: bt_scan_def linked_leaves_def)
qed

lemma bt_scan_wf:
  assumes "bt_wf b"
  shows "bt_scan b a z = Inr (Some (filter (\<lambda>(k, v). a \<le> k \<and> k \<le> z) (inorder (bt_root b))))"
proof -
  let ?n = "bt_root b" and ?p = "\<lambda>(k, v). a \<le> k \<and> k \<le> z"
  obtain h where sh: "shape (bt_order b) h ?n" and o: "ordered None None ?n"
    and lk: "distinct (map lf_id (leaves ?n))" "chained None (leaves ?n)"
    using assms by (auto simp: bt_wf_def bt_shape_def linked_leaves_def)
  obtain pre l post where l: "find_leaf ?n a = Inr l" "leaves ?n = pre @ l # post"
    "\<forall>p\<in>set (concat (map leaf_pairs pre)). fst p < a"
    using find_leaf_ok [OF sh o, of a] by auto
  have "\<forall>p\<in>set (concat (map leaf_pairs pre)). \<not> ?p p" using l(3) by fastforce
  then have "filter ?p (concat (map leaf_pairs pre)) = []" by (rule filter_False)
  moreover have "inorder ?n = concat (map leaf_pairs pre) @ concat (map leaf_pairs (l # post))"
    by (simp add: inorder_def l(2))
  moreover have "sorted_wrt (<) (map fst (concat (map leaf_pairs (l # post))))"
    using ordered_inorder(1) [OF o] unfolding calculation(2) map_append sorted_wrt_append by blast
  moreover have "\<forall>x\<in>set (l # post). length (lf_values x) = length (lf_keys x)"
    using shape_leaves [OF sh] l(2) by auto
  ultimately show ?thesis
    using scan_walk_sorted [OF lk l(2), of "length (leaves ?n)"] l(1,2) by (simp add: bt_scan_def)
qed

section \<open>The tree as a key-value store\<close>

definition bt_range :: "btree \<Rightarrow> pystr \<Rightarrow> pystr \<Rightarrow> (pystr \<times> pystr) list result" where
  "bt_range b a z = bindE (bt_scan b a z) (\<lambda>r. case r of Some xs \<Rightarrow> Inr xs | None \<Rightarrow> Inl RuntimeErr)"

definition bt_remove :: "btree \<Rightarrow> pystr \<Rightarrow> btree result" where
  "bt_remove b key = bindE (bt_delete b key) (\<lambda>(b', _). Inr b')"

definition bt_guard :: "btree \<Rightarrow> write_op \<Rightarrow> bool" where
  "bt_guard b op \<longleftrightarrow> (if wo_is_delete op then bt_stout b else \<not> stale b (wo_key op))"

lemma map_of_insert_set:
  assumes "distinct (map fst xs)" "distinct (map fst ys)" "set ys = insert (k, v) {p \<in> set xs. fst p \<noteq> k}"
  shows "map_of ys = (map_of xs)(k \<mapsto> v)"
proof (rule ext)
  fix j
  have "map_of ys j = Some w \<longleftrightarrow> ((map_of xs)(k \<mapsto> v)) j = Some w" for w
    using assms by (auto simp: map_of_eq_Some_iff)
  then show "map_of ys j = ((map_of xs)(k \<mapsto> v)) j" by (metis option.exhaust)
qed

lemma map_of_remove_set:
  assumes "distinct (map fst xs)" "distinct (map fst ys)" "set ys = {p \<in> set xs. fst p \<noteq> k}"
  shows "map_of ys = (map_of xs)(k := None)"
proof (rule ext)
  fix j
  have "map_of ys j = Some w \<longleftrightarrow> ((map_of xs)(k := None)) j = Some w" for w
    using assms by (auto simp: map_of_eq_Some_iff)
  then show "map_of ys j = ((map_of xs)(k := None)) j" by (metis option.exhaust)
qed

lemma bt_distinct: "bt_wf b \<Longrightarrow> distinct (map fst (inorder (bt_root b)))"
  using inorder_distinct by (auto simp: bt_wf_def)

lemma bt_write_ok:
  assumes "bt_wf b" "op_ok op" "bt_guard b op"
  shows "\<exists>b'. apply_op bt_set bt_remove b op = Inr b' \<and> bt_wf b' \<and>
    map_of (inorder (bt_root b')) = op_effect op (map_of (inorder (bt_root b)))"
proof (cases "wo_is_delete op")
  case True
  obtain b' f where d: "bt_delete b (wo_key op) = Inr (b', f)"
    using bt_delete_shape [of b "wo_key op"] assms(1) by (auto simp: bt_wf_def)
  have "bt_stout b" using assms(3) True by (simp add: bt_guard_def)
  from bt_delete_wf [OF assms(1) this d] True show ?thesis
    using map_of_remove_set [OF bt_distinct [OF assms(1)] bt_distinct, of b' "wo_key op"]
    by (auto simp: apply_op_def bt_remove_def d op_effect_def)
next
  case False
  then obtain v where v: "wo_value op = Some v" using assms(2) by (auto simp: op_ok_def)
  obtain b' where s: "bt_set b (wo_key op) v = Inr b'"
    using bt_set_shape [of b "wo_key op" v] assms(1) by (auto simp: bt_wf_def)
  have "\<not> stale b (wo_key op)" using assms(3) False by (simp add: bt_guard_def)
  from bt_set_wf [OF assms(1) this s] False show ?thesis
    using map_of_insert_set [OF bt_distinct [OF assms(1)] bt_distinct, of b' "wo_key op" v]
    by (auto simp: apply_op_def v s op_effect_def)
qed

interpretation bt: kv_store bt_wf "\<lambda>b. inorder (bt_root b)" "\<lambda>_. True" bt_get bt_range bt_guard bt_set bt_remove
proof
  fix b assume wf: "bt_wf b"
  show "sorted_wrt (<) (map fst (inorder (bt_root b)))"
    using ordered_inorder(1) [of None None "bt_root b"] wf by (simp add: bt_wf_def)
  show "bt_get b k = Inr (map_of (inorder (bt_root b)) k)" for k by (rule bt_get_wf [OF wf])
  show "bt_range b a z = Inr (filter (\<lambda>(k, v). a \<le> k \<and> k \<le> z) (inorder (bt_root b)))" for a z
    by (simp add: bt_range_def bt_scan_wf [OF wf])
qed (rule bt_write_ok)

subsection \<open>Trees built by insertion\<close>

abbreviation put_ops :: "(pystr \<times> pystr) list \<Rightarrow> write_op list" where
  "put_ops kvs \<equiv> map (\<lambda>(k, v). wo_put k v) kvs"

lemma fst_upd_set: "fst ` insert (k, v) {p \<in> A. fst p \<noteq> k} = insert k (fst ` A)"
  by (auto intro: rev_image_eqI)

lemma puts_guard:
  "bt_wf b \<Longrightarrow> seps (bt_root b) \<subseteq> fst ` set (inorder (bt_root b)) \<Longrightarrow>
     batch_guard bt_guard (apply_op bt_set bt_remove) b (put_ops kvs)"
proof (induction kvs arbitrary: b)
  case (Cons kv kvs)
  obtain k v where kv: "kv = (k, v)" by (cases kv)
  have ns: "\<not> stale b k" using Cons.prems(2) by (auto simp: stale_def)
  obtain b' where s: "bt_set b k v = Inr b'" using bt_set_shape [of b k v] Cons.prems(1) by (auto simp: bt_wf_def)
  note w = bt_set_wf [OF Cons.prems(1) ns s]
  then have "fst ` set (inorder (bt_root b')) = insert k (fst ` set (inorder (bt_root b)))"
    by (simp only: fst_upd_set)
  then have "seps (bt_root b') \<subseteq> fst ` set (inorder (bt_root b'))" using Cons.prems(2) w by blast
  then show ?case using Cons.IH [of b'] w ns s
    by (simp add: kv bt_guard_def apply_op_def wo_put_def)
qed simp

lemma fold_put_ops: "fold op_effect (put_ops kvs) m = m ++ map_of (rev kvs)"
proof (induction kvs arbitrary: m)
  case (Cons kv kvs)
  then show ?case by (cases kv) (simp add: fun_upd_def fun_eq_iff map_add_def split: option.split)
qed simp

definition dict_of_list :: "(pystr \<times> pystr) list \<Rightarrow> (pystr \<times> pystr) list" where
  "dict_of_list kvs = foldl (\<lambda>d (k, v). dict_set k v d) [] kvs"

lemma dict_of_list_ok: "dict_wf (dict_of_list kvs) \<and> map_of (dict_of_list kvs) = map_of (rev kvs)"
proof (induction kvs rule: rev_induct)
  case Nil
  then show ?case by (simp add: dict_of_list_def dict_wf_def)
next
  case (snoc kv kvs)
  then show ?case by (cases kv) (auto simp: dict_of_list_def update_conv' dict_wf_set)
qed

text \<open>
  A tree built by insertions (C4). For every order of at least two and every sequence of \<open>set\<close>
  calls on an empty tree, no call fails; a lookup gives the value written last for its key and
  nothing for a key never written; a range scan gives, in ascending order, the pairs of the
  dictionary the calls build whose keys are in the range; and the length is the number of its keys.
\<close>
theorem btree_inserts:
  assumes "2 \<le> t"
  shows "\<exists>b. write_batch_seq bt_set bt_remove (btree_new t) (put_ops kvs) = Inr b \<and>
    (\<forall>k. bt_get b k = Inr (map_of (rev kvs) k)) \<and>
    (\<forall>a z. bt_scan b a z =
       Inr (Some (filter (\<lambda>(k, v). a \<le> k \<and> k \<le> z) (dict_sorted_items (dict_of_list kvs))))) \<and>
    bt_len b = int (length (dict_of_list kvs))"
proof -
  have wf: "bt_wf (btree_new t)" by (rule bt_new_wf [OF assms])
  have e: "inorder (bt_root (btree_new t)) = []" "seps (bt_root (btree_new t)) = {}"
    by (simp_all add: btree_new_def leaf_pairs_def)
  have g: "batch_guard bt_guard (apply_op bt_set bt_remove) (btree_new t) (put_ops kvs)"
    by (rule puts_guard [OF wf]) (simp add: e)
  have ok: "list_all op_ok (put_ops kvs)" by (auto simp: list_all_iff)
  obtain b where b: "write_batch_seq bt_set bt_remove (btree_new t) (put_ops kvs) = Inr b" "bt_wf b"
    "map_of (inorder (bt_root b)) = map_of (rev kvs)"
    using bt.batch_view [OF wf ok g] by (auto simp: e fold_put_ops)
  note d = dict_of_list_ok [of kvs]
  have "inorder (bt_root b) = dict_sorted_items (dict_of_list kvs)"
    using sorted_pairs_unique [OF bt.view_sorted [OF b(2)] strict_sorted_items] d b(3)
    by (simp add: map_of_sorted_items)
  then show ?thesis using b bt_get_wf [OF b(2)] bt_scan_wf [OF b(2)]
    by (simp add: bt_len_def bt_wf_def)
qed

theorem btree_inserts_witness:
  "\<exists>b. write_batch_seq bt_set bt_remove (btree_new 2) (put_ops (map (\<lambda>i. ([i], [i])) [5, 3, 9, 1, 7, 3, 8])) = Inr b \<and>
     bt_get b [7] = Inr (Some [7]) \<and> bt_len b = 6"
proof -
  let ?kvs = "map (\<lambda>i. ([i], [i])) [5, 3, 9, 1, 7, 3, 8 :: nat]"
  have "map_of (rev ?kvs) [7] = Some [7]" "length (dict_of_list ?kvs) = 6"
    by (simp_all add: dict_of_list_def)
  then show ?thesis using btree_inserts [of 2 ?kvs] by auto
qed

lemma bt_get_total:
  assumes "bt_shape b"
  shows "\<exists>r. bt_get b key = Inr r"
proof -
  obtain h where "shape (bt_order b) h (bt_root b)" using assms by (auto simp: bt_shape_def)
  then obtain l where "find_leaf (bt_root b) key = Inr l" "shape (bt_order b) 0 (Leaf l)"
    using find_leaf_total by blast
  then show ?thesis using leaf_index_Some [of l key]
    by (cases "leaf_index l key") (auto simp: bt_get_def node_get_def)
qed

lemma bt_batch_shape:
  "bt_shape b0 \<Longrightarrow> list_all op_ok ops \<Longrightarrow>
     \<exists>b. write_batch_seq bt_set bt_remove b0 ops = Inr b \<and> bt_shape b \<and> bt_order b = bt_order b0"
proof (induction ops arbitrary: b0)
  case (Cons op ops)
  obtain b1 where b1: "apply_op bt_set bt_remove b0 op = Inr b1" "bt_shape b1" "bt_order b1 = bt_order b0"
    using bt_set_shape [OF Cons.prems(1)] bt_delete_shape [OF Cons.prems(1), of "wo_key op"] Cons.prems(2)
    by (cases "wo_is_delete op") (fastforce simp: apply_op_def bt_remove_def op_ok_def)+
  have "list_all op_ok ops" using Cons.prems(2) by simp
  from Cons.IH [OF b1(2) this] show ?case by (simp add: b1)
qed simp

text \<open>
  No operation fails (C15). Whatever \<open>set\<close> and \<open>delete\<close> calls came before, no list access of the
  source is out of range: the calls, every lookup and every scan return, the scan by reaching the
  end of the leaf chain; and all leaves are at the same depth, no node has more than \<open>2 t - 1\<close>
  keys, and the leaves are linked in their order.
\<close>
theorem btree_never_fails:
  assumes "2 \<le> t" "list_all op_ok ops"
  shows "\<exists>b. write_batch_seq bt_set bt_remove (btree_new t) ops = Inr b \<and>
    (\<exists>h. shape t h (bt_root b)) \<and> chained None (leaves (bt_root b)) \<and>
    (\<forall>k. \<exists>r. bt_get b k = Inr r) \<and> (\<forall>a z. \<exists>r. bt_scan b a z = Inr (Some r))"
proof -
  have "bt_shape (btree_new t)" using bt_new_wf [OF assms(1)] by (simp add: bt_wf_def)
  from bt_batch_shape [OF this assms(2)] obtain b
    where b: "write_batch_seq bt_set bt_remove (btree_new t) ops = Inr b" "bt_shape b" "bt_order b = t"
    by (auto simp: btree_new_def)
  then obtain h where h: "shape t h (bt_root b)" "chained None (leaves (bt_root b))"
    by (auto simp: bt_shape_def linked_leaves_def)
  then show ?thesis using b(1) bt_get_total [OF b(2)] bt_scan_total [OF b(2)] by blast
qed

theorem btree_never_fails_witness:
  "\<exists>b. write_batch_seq bt_set bt_remove (btree_new 2) [wo_put [1] [1], wo_delete [1], wo_delete [2]] = Inr b \<and>
     (\<forall>a z. \<exists>r. bt_scan b a z = Inr (Some r))"
  using btree_never_fails [of 2 "[wo_put [1] [1], wo_delete [1], wo_delete [2]]"] by auto

text \<open>
  Deletion (C31). In an ordered tree where no leaf is empty and every internal node has a separator
  (or which is a single leaf), \<open>delete\<close> tells whether the key was stored, removes it and nothing
  else, and leaves an ordered tree: lookups and scans keep agreeing with the stored pairs.
\<close>
theorem btree_delete_removes:
  assumes "bt_wf b" "bt_stout b"
  shows "\<exists>b'. bt_delete b key = Inr (b', key \<in> fst ` set (inorder (bt_root b))) \<and> bt_wf b' \<and>
    (\<forall>k. bt_get b' k = (if k = key then Inr None else bt_get b k)) \<and>
    bt_scan b' lo hi = Inr (Some (filter (\<lambda>(k, v). k \<noteq> key \<and> lo \<le> k \<and> k \<le> hi) (inorder (bt_root b))))"
proof -
  obtain b' f where d: "bt_delete b key = Inr (b', f)"
    using bt_delete_shape [of b key] assms(1) by (auto simp: bt_wf_def)
  note w = bt_delete_wf [OF assms d]
  let ?xs = "inorder (bt_root b)" and ?ys = "inorder (bt_root b')"
  have m: "map_of ?ys = (map_of ?xs)(key := None)"
    using map_of_remove_set [OF bt_distinct [OF assms(1)] bt_distinct] w by blast
  have s: "sorted_wrt (<) (map fst ?xs)" by (rule bt.view_sorted [OF assms(1)])
  have fs: "sorted_wrt (<) (map fst (filter (\<lambda>(k, v). k \<noteq> key) ?xs))"
    using s by (simp add: sorted_wrt_map sorted_wrt_filter)
  have "map_of (filter (\<lambda>(k, v). k \<noteq> key) ?xs) = (map_of ?xs)(key := None)"
    using fs by (intro map_of_remove_set [OF bt_distinct [OF assms(1)]]) (auto simp: strict_sorted_iff)
  then have ys: "?ys = filter (\<lambda>(k, v). k \<noteq> key) ?xs"
    using sorted_pairs_unique [OF bt.view_sorted fs, of b'] w m by simp
  have wf': "bt_wf b'" using w by blast
  have "bt_scan b' lo hi = Inr (Some (filter (\<lambda>(k, v). k \<noteq> key \<and> lo \<le> k \<and> k \<le> hi) ?xs))"
    unfolding bt_scan_wf [OF wf'] ys filter_filter by (auto intro: filter_cong)
  moreover have "bt_get b' k = (if k = key then Inr None else bt_get b k)" for k
    unfolding bt_get_wf [OF wf'] bt_get_wf [OF assms(1)] m by simp
  ultimately show ?thesis using d w wf' by blast
qed

text \<open>A tree of three keys, one of them deleted.\<close>

definition demo_tree :: btree where
  "demo_tree = (case write_batch_seq bt_set bt_remove (btree_new 2) (put_ops [([1], [1]), ([2], [2]), ([3], [3])])
                of Inr b \<Rightarrow> b | Inl _ \<Rightarrow> btree_new 2)"

theorem btree_delete_removes_witness:
  "bt_wf demo_tree \<and> bt_stout demo_tree \<and>
   (\<exists>b'. bt_delete demo_tree [2] = Inr (b', True) \<and> bt_get b' [2] = Inr None \<and> bt_get b' [3] = Inr (Some [3]))"
proof -
  have e: "demo_tree = \<lparr>bt_order = 2, bt_root = Leaf \<lparr>lf_id = 0, lf_keys = [[1], [2], [3]],
      lf_values = [[1], [2], [3]], lf_next = None\<rparr>, bt_size = 3, bt_next_id = 1\<rparr>"
    by code_simp
  have wf: "bt_wf demo_tree" "bt_stout demo_tree"
    by (auto simp: e bt_wf_def bt_shape_def bt_stout_def linked_leaves_def leaf_pairs_def)
  have get: "bt_get demo_tree [3] = Inr (Some [3])" "[2] \<in> fst ` set (inorder (bt_root demo_tree))"
    using bt_get_wf [OF wf(1)] by (auto simp: e leaf_pairs_def)
  from btree_delete_removes [OF wf, of "[2]" "[]" "[]"] get wf show ?thesis by auto
qed

section \<open>Keys that are lost\<close>



definition lost_delete_ops :: "write_op list" where
  "lost_delete_ops = put_ops (map (\<lambda>i. ([i], [i])) [26, 29, 21, 17, 2, 15, 11]) @
     map (\<lambda>i. wo_delete [i]) [26, 29]"

text \<open>
  A key lost by deleting others. Internal nodes are not rebalanced, so a leaf can lose its last
  sibling and then its last key. The first key of an empty leaf is taken to be the empty string,
  which becomes a separator, and the keys left of it are no longer found.
\<close>

lemma btree_delete_loses_other:
  "\<exists>b b'. write_batch_seq bt_set bt_remove (btree_new 2) lost_delete_ops = Inr b \<and>
     bt_get b [15] = Inr (Some [15]) \<and> bt_delete b [17] = Inr (b', True) \<and> bt_get b' [15] = Inr None"
proof -
  have "(case write_batch_seq bt_set bt_remove (btree_new 2) lost_delete_ops of
           Inr b \<Rightarrow> bt_get b [15] = Inr (Some [15]) \<and>
             (case bt_delete b [17] of Inr (b', f) \<Rightarrow> f \<and> bt_get b' [15] = Inr None | Inl _ \<Rightarrow> False)
         | Inl _ \<Rightarrow> False)"
    by code_simp
  then show ?thesis by (auto split: sum.splits)
qed

end
