(* ===== verification/SecondaryIndex.thy ===== *)
theory SecondaryIndex
  imports BTree_Map
begin

text \<open>
  \<open>secondary_index.py\<close>: the index from stored values to primary keys, a B+ tree over the composite
  strings \<open>value + U+0000 + key\<close>.

  An index represents a map from keys to values (\<open>si_rep\<close>) when its tree holds exactly the composites
  of that map. The lemmas rest on the contract of the tree (the interpretation \<open>bt\<close> of the locale
  \<open>kv_store\<close>) and show that each operation follows the change of the map and that a query by value
  range finds exactly the keys of the map.
\<close>

section \<open>Operations\<close>

definition SEP :: pystr where
  "SEP = chr 0"

definition HI :: pystr where
  "HI = chr 1114111"

record sec_index =
  si_tree :: btree
  si_entries :: int

definition si_new :: sec_index where
  "si_new = \<lparr>si_tree = btree_new 16, si_entries = 0\<rparr>"

definition composite :: "pystr \<Rightarrow> pystr \<Rightarrow> pystr" where
  "composite val key = val @ SEP @ key"

definition si_add :: "sec_index \<Rightarrow> pystr \<Rightarrow> pystr \<Rightarrow> sec_index result" where
  "si_add s key val =
     bindE (bt_get (si_tree s) (composite val key)) (\<lambda>r.
     let n = (case r of None \<Rightarrow> si_entries s + 1 | Some _ \<Rightarrow> si_entries s) in
     bindE (bt_set (si_tree s) (composite val key) key) (\<lambda>t. Inr \<lparr>si_tree = t, si_entries = n\<rparr>))"

definition si_remove :: "sec_index \<Rightarrow> pystr \<Rightarrow> pystr \<Rightarrow> sec_index result" where
  "si_remove s key val =
     bindE (bt_delete (si_tree s) (composite val key)) (\<lambda>(t, found).
     Inr \<lparr>si_tree = t, si_entries = (if found then si_entries s - 1 else si_entries s)\<rparr>)"

definition si_update :: "sec_index \<Rightarrow> pystr \<Rightarrow> pystr option \<Rightarrow> pystr \<Rightarrow> sec_index result" where
  "si_update s key old new =
     bindE (case old of
              Some v \<Rightarrow> if v \<noteq> new then si_remove s key v else Inr s
            | None \<Rightarrow> Inr s)
       (\<lambda>s'. si_add s' key new)"

text \<open>\<open>comp.find(_SEP)\<close> and the value part of a composite.\<close>

fun find_char :: "nat \<Rightarrow> pystr \<Rightarrow> nat option" where
  "find_char c [] = None"
| "find_char c (d # s) = (if d = c then Some 0 else map_option Suc (find_char c s))"

definition comp_value :: "pystr \<Rightarrow> pystr" where
  "comp_value cmp = (case find_char 0 cmp of Some i \<Rightarrow> take i cmp | None \<Rightarrow> cmp)"

definition keys_in_value_range :: "sec_index \<Rightarrow> pystr \<Rightarrow> pystr \<Rightarrow> pystr list result" where
  "keys_in_value_range s low high =
     bindE (bt_range (si_tree s) low (high @ HI)) (\<lambda>pairs.
     Inr (map snd (filter (\<lambda>(cmp, key). low \<le> comp_value cmp \<and> comp_value cmp \<le> high) pairs)))"

definition si_size :: "sec_index \<Rightarrow> int" where
  "si_size s = si_entries s"

text \<open>The loop of \<open>LSMEngine._rebuild_index\<close> over the pairs of a scan.\<close>

fun si_add_all :: "sec_index \<Rightarrow> (pystr \<times> pystr) list \<Rightarrow> sec_index result" where
  "si_add_all s [] = Inr s"
| "si_add_all s ((key, val) # kvs) = bindE (si_add s key val) (\<lambda>s'. si_add_all s' kvs)"

section \<open>No call fails\<close>

lemma si_add_shape:
  assumes "bt_shape (si_tree s)"
  shows "\<exists>s'. si_add s k v = Inr s' \<and> bt_shape (si_tree s')"
proof -
  obtain r where "bt_get (si_tree s) (composite v k) = Inr r" using bt_get_total [OF assms] by blast
  moreover obtain t where "bt_set (si_tree s) (composite v k) k = Inr t" "bt_shape t"
    using bt_set_shape [OF assms] by blast
  ultimately show ?thesis by (simp add: si_add_def Let_def)
qed

lemma si_remove_shape:
  assumes "bt_shape (si_tree s)"
  shows "\<exists>s'. si_remove s k v = Inr s' \<and> bt_shape (si_tree s')"
proof -
  obtain t f where "bt_delete (si_tree s) (composite v k) = Inr (t, f)" "bt_shape t"
    using bt_delete_shape [OF assms] by blast
  then show ?thesis by (simp add: si_remove_def)
qed

lemma si_update_shape:
  assumes "bt_shape (si_tree s)"
  shows "\<exists>s'. si_update s k old v = Inr s' \<and> bt_shape (si_tree s')"
proof (cases "\<exists>w. old = Some w \<and> w \<noteq> v")
  case True
  then obtain w where w: "old = Some w" "w \<noteq> v" by blast
  obtain s1 where "si_remove s k w = Inr s1" "bt_shape (si_tree s1)" using si_remove_shape [OF assms] by blast
  then show ?thesis using si_add_shape [of s1 k v] w by (simp add: si_update_def)
qed (use si_add_shape [OF assms, of k v] in \<open>auto simp: si_update_def split: option.splits\<close>)

section \<open>Composites\<close>

lemma comp_value_composite [simp]: "0 \<notin> set v \<Longrightarrow> comp_value (composite v k) = v"
proof -
  have "0 \<notin> set v \<Longrightarrow> find_char 0 (v @ 0 # k) = Some (length v)" by (induction v) auto
  then show "0 \<notin> set v \<Longrightarrow> comp_value (composite v k) = v"
    by (simp add: comp_value_def composite_def SEP_def chr_def)
qed

lemma composite_inject:
  "0 \<notin> set v \<Longrightarrow> 0 \<notin> set w \<Longrightarrow> composite v k = composite w l \<longleftrightarrow> v = w \<and> k = l"
  by (metis comp_value_composite composite_def same_append_eq)

lemma le_append: "(xs :: 'a :: linorder list) \<le> xs @ ys"
  by (induction xs) simp_all

lemma composite_le:
  assumes "v \<le> high" "0 \<notin> set high"
  shows "composite v k \<le> high @ HI"
  using assms
proof (induction v arbitrary: high)
  case Nil
  then show ?case by (cases high) (auto simp: composite_def SEP_def HI_def chr_def)
next
  case (Cons c v)
  then obtain d h where h: "high = d # h" by (cases high) auto
  show ?case
  proof (cases "c = d")
    case True
    then show ?thesis using Cons h by (auto simp: composite_def)
  qed (use Cons h in \<open>auto simp: composite_def\<close>)
qed

lemma le_composite: "low \<le> v \<Longrightarrow> low \<le> composite v k"
  unfolding composite_def using le_append order_trans by blast

section \<open>The map an index represents\<close>

definition clean :: "(pystr \<rightharpoonup> pystr) \<Rightarrow> bool" where
  "clean m \<longleftrightarrow> (\<forall>k v. m k = Some v \<longrightarrow> 0 \<notin> set v)"

text \<open>The content of the tree for a map: every composite leads to its key.\<close>

definition comps :: "(pystr \<rightharpoonup> pystr) \<Rightarrow> (pystr \<rightharpoonup> pystr)" where
  "comps m c = (let k = drop (Suc (length (comp_value c))) c
                in if c = composite (comp_value c) k \<and> m k = Some (comp_value c) then Some k else None)"

lemma comps_Some:
  assumes "clean m"
  shows "comps m c = Some k \<longleftrightarrow> (\<exists>v. m k = Some v \<and> c = composite v k)"
proof
  assume "comps m c = Some k"
  then show "\<exists>v. m k = Some v \<and> c = composite v k" by (auto simp: comps_def Let_def split: if_splits)
next
  assume "\<exists>v. m k = Some v \<and> c = composite v k"
  then show "comps m c = Some k" using assms
    by (auto simp: comps_def clean_def Let_def composite_def SEP_def chr_def)
      (simp_all flip: composite_def [unfolded SEP_def chr_def, simplified])
qed

lemma clean_upd: "clean m \<Longrightarrow> 0 \<notin> set v \<Longrightarrow> clean (m(k \<mapsto> v))"
  and clean_del: "clean m \<Longrightarrow> clean (m(k := None))"
  by (auto simp: clean_def)

lemma comps_eqI: "(\<And>c k. f c = Some k \<longleftrightarrow> g c = Some k) \<Longrightarrow> f = g"
  by (metis ext not_Some_eq)

lemma comps_upd:
  assumes "clean m" "0 \<notin> set v" "m k = None \<or> m k = Some v"
  shows "(comps m)(composite v k \<mapsto> k) = comps (m(k \<mapsto> v))"
proof (rule comps_eqI)
  fix c l
  have "\<And>l w. m l = Some w \<Longrightarrow> 0 \<notin> set w" using assms(1) by (auto simp: clean_def)
  then show "((comps m)(composite v k \<mapsto> k)) c = Some l \<longleftrightarrow> comps (m(k \<mapsto> v)) c = Some l"
    using assms(2,3) by (auto simp: comps_Some assms(1) clean_upd composite_inject)
qed

lemma comps_del:
  assumes "clean m" "m k = Some v"
  shows "(comps m)(composite v k := None) = comps (m(k := None))"
proof (rule comps_eqI)
  fix c l
  have "0 \<notin> set v" "\<And>l w. m l = Some w \<Longrightarrow> 0 \<notin> set w" using assms by (auto simp: clean_def)
  then show "((comps m)(composite v k := None)) c = Some l \<longleftrightarrow> comps (m(k := None)) c = Some l"
    using assms(2) by (auto simp: comps_Some assms(1) clean_del composite_inject)
qed

definition si_rep :: "sec_index \<Rightarrow> (pystr \<rightharpoonup> pystr) \<Rightarrow> bool" where
  "si_rep s m \<longleftrightarrow> bt_wf (si_tree s) \<and> clean m \<and> map_of (inorder (bt_root (si_tree s))) = comps m \<and>
     finite (dom m) \<and> si_entries s = int (card (dom m))"

lemma si_rep_new: "si_rep si_new (\<lambda>_. None)"
proof -
  have "comps (\<lambda>_. None) = (\<lambda>_. None)" by (simp add: comps_def fun_eq_iff Let_def)
  moreover have "clean (\<lambda>_. None)" by (simp add: clean_def)
  ultimately show ?thesis using bt_new_wf [of 16]
    by (simp add: si_rep_def si_new_def btree_new_def leaf_pairs_def)
qed

lemma si_add_rep:
  assumes r: "si_rep s m" and v: "0 \<notin> set v" "m k = None \<or> m k = Some v"
    and g: "bt_guard (si_tree s) (wo_put (composite v k) k)"
  shows "\<exists>s'. si_add s k v = Inr s' \<and> si_rep s' (m(k \<mapsto> v)) \<and>
    bt_set (si_tree s) (composite v k) k = Inr (si_tree s')"
proof -
  have wf: "bt_wf (si_tree s)" and c: "clean m" and e: "map_of (inorder (bt_root (si_tree s))) = comps m"
    and n: "finite (dom m)" "si_entries s = int (card (dom m))" using r by (auto simp: si_rep_def)
  obtain t where t: "bt_set (si_tree s) (composite v k) k = Inr t" "bt_wf t"
    "map_of (inorder (bt_root t)) = (comps m)(composite v k \<mapsto> k)"
    using bt.write_view [OF wf _ g] e by (auto simp: apply_op_def wo_put_def op_effect_def op_ok_def)
  have get: "bt_get (si_tree s) (composite v k) = Inr (if m k = None then None else Some k)"
  proof (cases "m k = None")
    case True
    then have "comps m (composite v k) = None"
      using comps_Some [OF c] composite_inject [OF v(1)] c unfolding clean_def
      by (metis not_None_eq option.distinct(1))
    then show ?thesis using True by (simp add: bt.get_view [OF wf] e)
  qed (use v in \<open>auto simp: bt.get_view [OF wf] e comps_Some [OF c]\<close>)
  show ?thesis using v t n c
    by (auto simp: si_add_def get si_rep_def clean_upd comps_upd insert_absorb domI card_insert_if)
qed

lemma si_remove_rep:
  assumes r: "si_rep s m" and v: "m k = Some v" and g: "bt_guard (si_tree s) (wo_delete (composite v k))"
  shows "\<exists>s'. si_remove s k v = Inr s' \<and> si_rep s' (m(k := None))"
proof -
  have wf: "bt_wf (si_tree s)" and c: "clean m" and e: "map_of (inorder (bt_root (si_tree s))) = comps m"
    and n: "finite (dom m)" "si_entries s = int (card (dom m))" using r by (auto simp: si_rep_def)
  have st: "bt_stout (si_tree s)" using g by (simp add: bt_guard_def wo_delete_def)
  obtain t f where t: "bt_delete (si_tree s) (composite v k) = Inr (t, f)"
    using bt_delete_shape [of "si_tree s" "composite v k"] wf by (auto simp: bt_wf_def)
  have "map_of (inorder (bt_root t)) = (comps m)(composite v k := None)" "bt_wf t"
    using bt.write_view [OF wf _ g] e t
    by (auto simp: apply_op_def wo_delete_def op_effect_def op_ok_def bt_remove_def)
  moreover have f
    using bt_delete_wf [OF wf st t] v comps_Some [OF c] e
    by (metis domI domIff dom_map_of_conv_image_fst)
  moreover have "int (card (dom m)) - 1 = int (card (dom m - {k}))"
    using card_Suc_Diff1 [OF n(1) domI [of m k v, OF v]] by simp
  ultimately show ?thesis using n c v by (auto simp: si_remove_def t si_rep_def clean_del comps_del)
qed

lemma set_map_snd: "set (map snd xs) = {k. \<exists>c. (c, k) \<in> set xs}"
  by force

text \<open>A query by value finds the keys of the map, ordered by value and key.\<close>

lemma keys_in_value_range_rep:
  assumes r: "si_rep s m" and h: "0 \<notin> set high"
  shows "\<exists>ks. keys_in_value_range s low high = Inr ks \<and> distinct ks \<and>
    set ks = {k. \<exists>v. m k = Some v \<and> low \<le> v \<and> v \<le> high} \<and>
    sorted (map (\<lambda>k. composite (the (m k)) k) ks)"
proof -
  let ?xs = "inorder (bt_root (si_tree s))"
  have wf: "bt_wf (si_tree s)" and c: "clean m" and e: "map_of ?xs = comps m"
    using r by (auto simp: si_rep_def)
  have d: "sorted_wrt (<) (map fst ?xs)" by (rule bt.view_sorted [OF wf])
  let ?p = "\<lambda>(cmp, key). low \<le> comp_value cmp \<and> comp_value cmp \<le> high"
  let ?q = "\<lambda>(cmp, key). low \<le> cmp \<and> cmp \<le> high @ HI"
  let ?ys = "filter ?p (filter ?q ?xs)"
  have mem: "(cmp, k) \<in> set ?xs \<longleftrightarrow> (\<exists>v. m k = Some v \<and> cmp = composite v k)" for cmp k
    using d comps_Some [OF c] e by (metis map_of_eq_Some_iff strict_sorted_iff)
  have ys: "(cmp, k) \<in> set ?ys \<longleftrightarrow> (\<exists>v. m k = Some v \<and> cmp = composite v k \<and> low \<le> v \<and> v \<le> high)" for cmp k
    using c h by (auto simp: mem clean_def composite_le le_composite)
  have srt: "sorted_wrt (<) (map fst ?ys)" using d by (simp add: sorted_wrt_map sorted_wrt_filter)
  have eq: "map fst ?ys = map (\<lambda>k. composite (the (m k)) k) (map snd ?ys)"
    using ys by (auto simp: map_eq_conv)
  have "distinct (map snd ?ys)"
    using srt unfolding eq strict_sorted_iff by (blast dest: distinct_map [THEN iffD1])
  moreover have "set (map snd ?ys) = {k. \<exists>v. m k = Some v \<and> low \<le> v \<and> v \<le> high}"
    unfolding set_map_snd ys by blast
  moreover have "sorted (map (\<lambda>k. composite (the (m k)) k) (map snd ?ys))"
    using srt unfolding eq by (simp add: strict_sorted_iff)
  moreover have "keys_in_value_range s low high = Inr (map snd ?ys)"
    by (simp add: keys_in_value_range_def bt.scan_view [OF wf])
  ultimately show ?thesis by blast
qed

section \<open>Updates and rebuilding\<close>

definition update_ops :: "pystr \<Rightarrow> pystr option \<Rightarrow> pystr \<Rightarrow> write_op list" where
  "update_ops k old v =
     (case old of Some w \<Rightarrow> if w \<noteq> v then [wo_delete (composite w k)] else [] | None \<Rightarrow> []) @
     [wo_put (composite v k) k]"

lemma apply_put [simp]: "apply_op st dl s (wo_put k v) = st s k v"
  and apply_delete [simp]: "apply_op st dl s (wo_delete k) = dl s k"
  by (simp_all add: apply_op_def wo_put_def wo_delete_def)

lemma si_update_rep:
  assumes r: "si_rep s m" and v: "0 \<notin> set v"
    and g: "batch_guard bt_guard (apply_op bt_set bt_remove) (si_tree s) (update_ops k (m k) v)"
  shows "\<exists>s'. si_update s k (m k) v = Inr s' \<and> si_rep s' (m(k \<mapsto> v))"
proof (cases "m k = None \<or> m k = Some v")
  case True
  then show ?thesis using si_add_rep [OF r v True] g
    by (auto simp: si_update_def update_ops_def split: sum.splits)
next
  case False
  then obtain w where w: "m k = Some w" "w \<noteq> v" by auto
  have g1: "bt_guard (si_tree s) (wo_delete (composite w k))" using g w by (simp add: update_ops_def)
  obtain s1 where s1: "si_remove s k w = Inr s1" "si_rep s1 (m(k := None))"
    using si_remove_rep [OF r w(1) g1] by blast
  then have "bt_remove (si_tree s) (composite w k) = Inr (si_tree s1)"
    by (auto simp: si_remove_def bt_remove_def)
  then have "bt_guard (si_tree s1) (wo_put (composite v k) k)"
    using g w by (simp add: update_ops_def)
  from si_add_rep [OF s1(2) v _ this] s1 w show ?thesis by (auto simp: si_update_def)
qed

text \<open>An index that only ever grew has no stale separators, so adding needs no guard.\<close>

lemma si_add_all_rep:
  "si_rep s m \<Longrightarrow> seps (bt_root (si_tree s)) \<subseteq> fst ` set (inorder (bt_root (si_tree s))) \<Longrightarrow>
     distinct (map fst kvs) \<Longrightarrow> (\<And>k v. (k, v) \<in> set kvs \<Longrightarrow> 0 \<notin> set v \<and> m k = None) \<Longrightarrow>
     \<exists>s'. si_add_all s kvs = Inr s' \<and> si_rep s' (m ++ map_of kvs)"
proof (induction kvs arbitrary: s m)
  case (Cons kv kvs)
  obtain k v where kv: "kv = (k, v)" by (cases kv)
  let ?b = "si_tree s" and ?c = "composite v k"
  have wf: "bt_wf ?b" using Cons.prems(1) by (simp add: si_rep_def)
  have v: "0 \<notin> set v" "m k = None" using Cons.prems(4) [of k v] kv by simp_all
  have ns: "\<not> stale ?b ?c" using Cons.prems(2) by (auto simp: stale_def)
  obtain s1 where s1: "si_add s k v = Inr s1" "si_rep s1 (m(k \<mapsto> v))" "bt_set ?b ?c k = Inr (si_tree s1)"
    using si_add_rep [OF Cons.prems(1) v(1), of k] v(2) ns by (auto simp: bt_guard_def wo_put_def)
  note w = bt_set_wf [OF wf ns s1(3)]
  then have "fst ` set (inorder (bt_root (si_tree s1))) = insert ?c (fst ` set (inorder (bt_root ?b)))"
    by (simp only: fst_upd_set)
  moreover have "seps (bt_root (si_tree s1)) \<subseteq> seps (bt_root ?b) \<union> fst ` set (inorder (bt_root ?b))"
    using w by simp
  ultimately have sp: "seps (bt_root (si_tree s1)) \<subseteq> fst ` set (inorder (bt_root (si_tree s1)))"
    using Cons.prems(2) by auto
  have "\<exists>s'. si_add_all s1 kvs = Inr s' \<and> si_rep s' (m(k \<mapsto> v) ++ map_of kvs)"
  proof (rule Cons.IH [OF s1(2) sp])
    show "0 \<notin> set y \<and> (m(k \<mapsto> v)) x = None" if "(x, y) \<in> set kvs" for x y
      using Cons.prems(3) Cons.prems(4) [of x y] that kv by (auto simp: image_iff)
  qed (use Cons.prems(3) in simp)
  moreover have "m(k \<mapsto> v) ++ map_of kvs = m ++ map_of (kv # kvs)"
    using Cons.prems(3) map_add_upd_left [of k "map_of kvs"] unfolding kv
    by (simp add: dom_map_of_conv_image_fst flip: fun_upd_def)
  ultimately show ?case using s1(1) unfolding kv by (simp only: si_add_all.simps bindE_simps)
qed simp

text \<open>
  The secondary index (C19). Rebuild the index from any pairs with distinct keys whose values do not
  contain the separator: no call fails, and a query for a value range whose upper bound does not
  contain the separator either returns every primary key whose value is in the range, each once,
  and no other, ordered by value and then by key; the reported size is the number of pairs.
\<close>
theorem index_finds_exactly:
  assumes "distinct (map fst kvs)" "list_all (\<lambda>(k, v). 0 \<notin> set v) kvs"
  shows "\<exists>s. si_add_all si_new kvs = Inr s \<and> si_size s = int (length kvs) \<and>
    (\<forall>low high. 0 \<notin> set high \<longrightarrow>
      (\<exists>ks. keys_in_value_range s low high = Inr ks \<and> distinct ks \<and>
        set ks = {k. \<exists>v. (k, v) \<in> set kvs \<and> low \<le> v \<and> v \<le> high} \<and>
        sorted (map (\<lambda>k. composite (the (map_of kvs k)) k) ks)))"
proof -
  have sp: "seps (bt_root (si_tree si_new)) \<subseteq> fst ` set (inorder (bt_root (si_tree si_new)))"
    by (simp add: si_new_def btree_new_def)
  obtain s where s: "si_add_all si_new kvs = Inr s" "si_rep s (map_of kvs)"
    using si_add_all_rep [OF si_rep_new sp assms(1)] assms(2) by (auto simp: list_all_iff)
  have "si_size s = int (length kvs)"
    using s(2) distinct_card [OF assms(1)] by (simp add: si_rep_def si_size_def dom_map_of_conv_image_fst)
  moreover have "map_of kvs k = Some v \<longleftrightarrow> (k, v) \<in> set kvs" for k v
    using assms(1) by simp
  ultimately show ?thesis using s(1) keys_in_value_range_rep [OF s(2)] by (intro exI [of _ s]) simp
qed

theorem index_finds_exactly_witness:
  "\<exists>s. si_add_all si_new [(str ''bob'', str ''engineer''), (str ''eve'', str ''analyst'')] = Inr s \<and> si_size s = 2"
proof -
  let ?kvs = "[(str ''bob'', str ''engineer''), (str ''eve'', str ''analyst'')]"
  have p: "distinct (map fst ?kvs)" "list_all (\<lambda>(k, v). 0 \<notin> set v) ?kvs" by (simp_all add: str_def)
  obtain s where "si_add_all si_new ?kvs = Inr s" "si_size s = int (length ?kvs)"
    using index_finds_exactly [OF p] by blast
  then show ?thesis by auto
qed

end
