(* ===== verification/Wal.thy ===== *)
theory Wal
  imports Py_Json
begin

text \<open>
  \<open>wal.py\<close>: the write-ahead log.

  A log is its file, a byte string, and the next sequence number (\<open>wal\<close>). \<open>wal_record\<close> is the
  frame \<open>_write_entry\<close> appends: length, JSON payload, CRC-32. \<open>wal_read\<close> is the generator
  \<open>read_all\<close>: the entries it yields, with the exception that ended it, if any; a \<open>break\<close> of the
  loop is the end without exception. \<open>fsync\<close> is not modelled: bytes appended are on disk, and a
  crash during a write leaves a prefix of the frame.

  The lemmas show that reading gives back what was appended, that a frame cut short anywhere is
  dropped with nothing before it lost, and that a frame cut short hides a later, shorter append.
\<close>

section \<open>Entries\<close>

record wal_entry =
  we_sequence :: int
  we_operation :: pystr
  we_key :: pystr
  we_value :: "pystr option"

definition mk_entry :: "int \<Rightarrow> pystr \<Rightarrow> pystr \<Rightarrow> pystr option \<Rightarrow> wal_entry" where
  "mk_entry seq opn key val =
     \<lparr>we_sequence = seq, we_operation = opn, we_key = key, we_value = val\<rparr>"

definition entry_to_dict :: "wal_entry \<Rightarrow> json" where
  "entry_to_dict e =
     JObj [(str ''seq'', JInt (we_sequence e)),
           (str ''op'', JStr (we_operation e)),
           (str ''key'', JStr (we_key e)),
           (str ''val'', case we_value e of None \<Rightarrow> JNull | Some v \<Rightarrow> JStr v)]"

text \<open>
  \<open>from_dict\<close>: a missing key of \<open>d["..."]\<close> is a \<open>KeyError\<close>; \<open>d.get("val")\<close> is null when it is
  missing. A payload that is no object, or a field of another type, has no use as an entry:
  the first is a \<open>TypeError\<close> of the subscription, the second is treated the same way.
\<close>

definition entry_from_dict :: "json \<Rightarrow> wal_entry result" where
  "entry_from_dict j =
     (case j of
        JObj d \<Rightarrow>
          (case (dict_get d (str ''seq''), dict_get d (str ''op''), dict_get d (str ''key'')) of
             (Some (JInt s), Some (JStr opn), Some (JStr k)) \<Rightarrow>
               (case dict_get d (str ''val'') of
                  None \<Rightarrow> Inr (mk_entry s opn k None)
                | Some JNull \<Rightarrow> Inr (mk_entry s opn k None)
                | Some (JStr v) \<Rightarrow> Inr (mk_entry s opn k (Some v))
                | Some _ \<Rightarrow> Inl TypeErr)
           | (Some _, Some _, Some _) \<Rightarrow> Inl TypeErr
           | _ \<Rightarrow> Inl KeyError)
      | _ \<Rightarrow> Inl TypeErr)"

section \<open>The log\<close>

record wal =
  wal_file :: bytes
  wal_sequence :: int

definition wal_record :: "wal_entry \<Rightarrow> bytes result" where
  "wal_record e =
     bindE (utf8_encode (json_dumps (entry_to_dict e))) (\<lambda>payload.
     bindE (pack_be 4 (length payload)) (\<lambda>len.
     bindE (pack_be 4 (crc32 payload)) (\<lambda>crc.
     Inr (len @ payload @ crc))))"

definition wal_append :: "wal \<Rightarrow> pystr \<Rightarrow> pystr \<Rightarrow> pystr option \<Rightarrow> wal \<times> wal_entry result" where
  "wal_append w opn key val =
     (let e = mk_entry (wal_sequence w) opn key val;
          w1 = w\<lparr>wal_sequence := wal_sequence w + 1\<rparr>
      in case wal_record e of
           Inl err \<Rightarrow> (w1, Inl err)
         | Inr bs \<Rightarrow> (w1\<lparr>wal_file := wal_file w1 @ bs\<rparr>, Inr e))"

definition parse_payload :: "bytes \<Rightarrow> wal_entry result" where
  "parse_payload payload =
     bindE (utf8_decode payload) (\<lambda>s. bindE (json_loads s) entry_from_dict)"

function wal_read :: "bytes \<Rightarrow> wal_entry list \<times> py_err option" where
  "wal_read f =
     (let length_bytes = take 4 f in
      if length length_bytes < 4 then ([], None)
      else
        let payload_length = unpack_be length_bytes;
            payload = take payload_length (drop 4 f) in
        if length payload < payload_length then ([], None)
        else
          let checksum_bytes = take 4 (drop (4 + payload_length) f) in
          if length checksum_bytes < 4 then ([], None)
          else if unpack_be checksum_bytes \<noteq> crc32 payload then ([], None)
          else (case parse_payload payload of
                  Inr e \<Rightarrow> apfst (Cons e) (wal_read (drop (8 + payload_length) f))
                | Inl err \<Rightarrow>
                    if err = JSONDecodeError \<or> err = KeyError then ([], None) else ([], Some err)))"
  by pat_completeness auto
termination
  by (relation "measure length") auto

declare wal_read.simps [simp del]

definition next_sequence :: "int \<Rightarrow> wal_entry list \<Rightarrow> int" where
  "next_sequence seq es =
     foldl (\<lambda>s e. if we_sequence e \<ge> s then we_sequence e + 1 else s) seq es"

text \<open>Opening a log on an existing file (the empty file when there is none).\<close>

definition wal_open :: "bytes \<Rightarrow> wal result" where
  "wal_open f =
     (case wal_read f of
        (es, None) \<Rightarrow> Inr \<lparr>wal_file = f, wal_sequence = next_sequence 0 es\<rparr>
      | (es, Some err) \<Rightarrow> Inl err)"

definition wal_read_all :: "wal \<Rightarrow> wal_entry list \<times> py_err option" where
  "wal_read_all w = wal_read (wal_file w)"

definition wal_truncate :: "wal \<Rightarrow> wal" where
  "wal_truncate w = w\<lparr>wal_file := []\<rparr>"

section \<open>Frames\<close>

definition opt_scalar :: "pystr option \<Rightarrow> bool" where
  "opt_scalar v \<longleftrightarrow> (case v of None \<Rightarrow> True | Some s \<Rightarrow> list_all is_scalar s)"

text \<open>Text of Unicode scalar values, and a payload whose length fits the 4-byte prefix.\<close>

definition entry_ok :: "wal_entry \<Rightarrow> bool" where
  "entry_ok e \<longleftrightarrow>
     list_all is_scalar (we_operation e) \<and> list_all is_scalar (we_key e) \<and> opt_scalar (we_value e) \<and>
     length (json_dumps (entry_to_dict e)) < 2 ^ 32"

definition frame :: "wal_entry \<Rightarrow> bytes" where
  "frame e =
     (let payload = json_dumps (entry_to_dict e)
      in be_bytes 4 (length payload) @ payload @ be_bytes 4 (crc32 payload))"

lemma entry_to_dict_ok: "entry_ok e \<Longrightarrow> json_ok (entry_to_dict e)"
  by (auto simp: entry_ok_def entry_to_dict_def opt_scalar_def str_def is_scalar_def split: option.splits)

lemma wal_record_ok: "entry_ok e \<Longrightarrow> wal_record e = Inr (frame e)"
  using crc32_bound [of "json_dumps (entry_to_dict e)"]
  by (simp add: wal_record_def frame_def utf8_dumps entry_to_dict_ok pack_be_def entry_ok_def Let_def)

lemma from_to_dict: "entry_from_dict (entry_to_dict e) = Inr e"
  by (cases e) (auto simp: entry_from_dict_def entry_to_dict_def mk_entry_def str_def split: option.splits)

lemma parse_payload_ok:
  "entry_ok e \<Longrightarrow> parse_payload (json_dumps (entry_to_dict e)) = Inr e"
  by (simp add: parse_payload_def utf8_decode_dumps json_roundtrip entry_to_dict_ok from_to_dict)

lemma length_frame: "length (frame e) = length (json_dumps (entry_to_dict e)) + 8"
  by (simp add: frame_def Let_def)

lemma wal_read_Nil [simp]: "wal_read [] = ([], None)"
  by (simp add: wal_read.simps)

lemma wal_read_frame:
  assumes "entry_ok e"
  shows "wal_read (frame e @ f) = apfst (Cons e) (wal_read f)"
proof -
  let ?p = "json_dumps (entry_to_dict e)"
  have len: "unpack_be (be_bytes 4 (length ?p)) = length ?p"
    using assms by (intro unpack_be_bytes) (simp add: entry_ok_def)
  have crc: "unpack_be (be_bytes 4 (crc32 ?p)) = crc32 ?p"
    using crc32_bound [of ?p] by (intro unpack_be_bytes) simp
  show ?thesis
    by (subst wal_read.simps)
      (simp add: frame_def Let_def len crc parse_payload_ok [OF assms])
qed

lemma wal_read_frames:
  "list_all entry_ok es \<Longrightarrow> wal_read (concat (map frame es) @ f) = apfst (append es) (wal_read f)"
  by (induction es) (simp_all add: wal_read_frame apfst_def map_prod_def case_prod_beta)

lemma wal_read_short:
  assumes "4 \<le> length f \<Longrightarrow> length f < 8 + unpack_be (take 4 f)"
  shows "wal_read f = ([], None)"
proof (cases "4 \<le> length f")
  case True
  then have "length f - (4 + unpack_be (take 4 f)) < 4" using assms by linarith
  then show ?thesis by (subst wal_read.simps) (simp add: Let_def min_def)
next
  case False
  then show ?thesis by (subst wal_read.simps) simp
qed

lemma wal_read_torn:
  assumes "entry_ok e" "k + length g < length (frame e)" "g = [] \<or> 4 \<le> k"
  shows "wal_read (take k (frame e) @ g) = ([], None)"
proof (rule wal_read_short)
  let ?p = "json_dumps (entry_to_dict e)"
  assume "4 \<le> length (take k (frame e) @ g)"
  then have k: "4 \<le> k" using assms(3) by auto
  then have "take 4 (take k (frame e) @ g) = be_bytes 4 (length ?p)"
    using assms(2) by (simp add: frame_def Let_def min_def)
  moreover have "unpack_be (be_bytes 4 (length ?p)) = length ?p"
    using assms(1) by (intro unpack_be_bytes) (simp add: entry_ok_def)
  ultimately show "length (take k (frame e) @ g) < 8 + unpack_be (take 4 (take k (frame e) @ g))"
    using assms(2) length_frame [of e] by simp
qed

section \<open>Histories of appends\<close>

definition log_of :: "wal_entry list \<Rightarrow> bytes" where
  "log_of es = concat (map frame es)"

lemma wal_append_ok:
  assumes "entry_ok (mk_entry (wal_sequence w) opn key val)"
  shows "wal_append w opn key val =
     (w\<lparr>wal_sequence := wal_sequence w + 1,
        wal_file := wal_file w @ frame (mk_entry (wal_sequence w) opn key val)\<rparr>,
      Inr (mk_entry (wal_sequence w) opn key val))"
  using wal_record_ok [OF assms] by (simp add: wal_append_def Let_def)

text \<open>The entries a list of calls \<open>append(op, key, value)\<close> makes, numbered from \<open>seq\<close>.\<close>

fun numbered :: "int \<Rightarrow> (pystr \<times> pystr \<times> pystr option) list \<Rightarrow> wal_entry list" where
  "numbered seq [] = []"
| "numbered seq ((opn, key, val) # cs) = mk_entry seq opn key val # numbered (seq + 1) cs"

fun append_all :: "wal \<Rightarrow> (pystr \<times> pystr \<times> pystr option) list \<Rightarrow> wal" where
  "append_all w [] = w"
| "append_all w ((opn, key, val) # cs) = append_all (fst (wal_append w opn key val)) cs"

lemma append_all_file:
  "list_all entry_ok (numbered (wal_sequence w) cs) \<Longrightarrow>
     wal_file (append_all w cs) = wal_file w @ log_of (numbered (wal_sequence w) cs) \<and>
     wal_sequence (append_all w cs) = wal_sequence w + int (length cs)"
proof (induction w cs rule: append_all.induct)
  case (2 w opn key val cs)
  then show ?case by (simp add: wal_append_ok log_of_def)
qed (simp add: log_of_def)

lemma next_sequence_numbered:
  "0 \<le> seq \<Longrightarrow> next_sequence seq (numbered seq cs) = seq + int (length cs)"
  by (induction seq cs rule: numbered.induct) (auto simp: next_sequence_def mk_entry_def)

lemma wal_read_log: "list_all entry_ok es \<Longrightarrow> wal_read (log_of es) = (es, None)"
  using wal_read_frames [of es "[]"] by (simp add: log_of_def)

lemma wal_read_log_torn:
  assumes "list_all entry_ok es" "entry_ok e" "k + length g < length (frame e)" "g = [] \<or> 4 \<le> k"
  shows "wal_read (log_of es @ take k (frame e) @ g) = (es, None)"
  using wal_read_frames [OF assms(1)] wal_read_torn [OF assms(2-4)] by (simp add: log_of_def)

lemma numbered_append:
  "numbered seq (cs @ ds) = numbered seq cs @ numbered (seq + int (length cs)) ds"
  by (induction seq cs rule: numbered.induct) (simp_all add: add.assoc)

section \<open>Properties\<close>

text \<open>
  (C10) Round trip of the log: after any sequence of \<open>append\<close> calls on a fresh log, re-opening the
  file yields exactly the appended entries in order, numbered 0, 1, 2, ..., without exception, and
  the next sequence number goes on from there.
\<close>

theorem wal_roundtrip:
  assumes "list_all entry_ok (numbered 0 cs)"
  shows "wal_read_all (append_all \<lparr>wal_file = [], wal_sequence = 0\<rparr> cs) = (numbered 0 cs, None) \<and>
         wal_open (wal_file (append_all \<lparr>wal_file = [], wal_sequence = 0\<rparr> cs)) =
           Inr (append_all \<lparr>wal_file = [], wal_sequence = 0\<rparr> cs)"
proof -
  let ?w = "append_all \<lparr>wal_file = [], wal_sequence = 0\<rparr> cs"
  have w: "wal_file ?w = log_of (numbered 0 cs)" "wal_sequence ?w = int (length cs)"
    using append_all_file [of "\<lparr>wal_file = [], wal_sequence = 0\<rparr>" cs] assms by simp_all
  have r: "wal_read (log_of (numbered 0 cs)) = (numbered 0 cs, None)"
    by (rule wal_read_log [OF assms])
  have "wal_open (wal_file ?w) = Inr ?w"
    using w r by (cases ?w) (simp add: wal_open_def next_sequence_numbered)
  then show ?thesis by (simp add: wal_read_all_def w r)
qed

definition demo_calls :: "(pystr \<times> pystr \<times> pystr option) list" where
  "demo_calls = [(str ''SET'', str ''name'', Some (str ''Alice'')), (str ''DELETE'', str ''age'', None)]"

lemma demo_calls_ok: "list_all entry_ok (numbered 0 demo_calls)"
  by code_simp

theorem wal_roundtrip_witness:
  "list_all entry_ok (numbered 0 demo_calls) \<and>
   wal_read_all (append_all \<lparr>wal_file = [], wal_sequence = 0\<rparr> demo_calls) = (numbered 0 demo_calls, None)"
  using wal_roundtrip [OF demo_calls_ok] demo_calls_ok by blast

text \<open>
  The file when a crash cuts off an append after \<open>k\<close> bytes.
\<close>

definition torn_append :: "wal \<Rightarrow> pystr \<Rightarrow> pystr \<Rightarrow> pystr option \<Rightarrow> nat \<Rightarrow> bytes" where
  "torn_append w opn key val k = take (length (wal_file w) + k) (wal_file (fst (wal_append w opn key val)))"

abbreviation fresh_wal :: wal where
  "fresh_wal \<equiv> \<lparr>wal_file = [], wal_sequence = 0\<rparr>"

lemma append_all_fresh:
  assumes "list_all entry_ok (numbered 0 cs)"
  shows "append_all fresh_wal cs = \<lparr>wal_file = log_of (numbered 0 cs), wal_sequence = int (length cs)\<rparr>"
  using append_all_file [of fresh_wal cs] assms by (cases "append_all fresh_wal cs") simp

lemma torn_append_file:
  assumes "list_all entry_ok (numbered 0 (cs @ [(opn, key, val)]))"
  shows "torn_append (append_all fresh_wal cs) opn key val k =
    log_of (numbered 0 cs) @ take k (frame (mk_entry (int (length cs)) opn key val))"
  using assms by (simp add: numbered_append append_all_fresh torn_append_def wal_append_ok)

lemma wal_open_torn:
  assumes "list_all entry_ok (numbered 0 (cs @ [(opn, key, val)]))"
    "k < length (frame (mk_entry (int (length cs)) opn key val))"
  shows "wal_open (torn_append (append_all fresh_wal cs) opn key val k) =
      Inr \<lparr>wal_file = torn_append (append_all fresh_wal cs) opn key val k, wal_sequence = int (length cs)\<rparr>"
    and "wal_read (torn_append (append_all fresh_wal cs) opn key val k) = (numbered 0 cs, None)"
proof -
  have ok: "list_all entry_ok (numbered 0 cs)" "entry_ok (mk_entry (int (length cs)) opn key val)"
    using assms(1) by (simp_all add: numbered_append)
  show r: "wal_read (torn_append (append_all fresh_wal cs) opn key val k) = (numbered 0 cs, None)"
    using wal_read_log_torn [OF ok, of k "[]"] assms(2) by (simp add: torn_append_file [OF assms(1)])
  show "wal_open (torn_append (append_all fresh_wal cs) opn key val k) =
      Inr \<lparr>wal_file = torn_append (append_all fresh_wal cs) opn key val k, wal_sequence = int (length cs)\<rparr>"
    by (simp add: wal_open_def r next_sequence_numbered)
qed

text \<open>
  (C29) Crash during an append: when only the first \<open>k\<close> bytes of the record of the last call reached
  the disk, for any \<open>k\<close> short of the whole record, the log reopens without exception, holds every
  entry of the calls before, and numbers the next entry as if the last call had not been made.
\<close>

theorem wal_torn_write_dropped:
  assumes "list_all entry_ok (numbered 0 (cs @ [(opn, key, val)]))"
    "k < length (frame (mk_entry (int (length cs)) opn key val))"
  shows "\<exists>w. wal_open (torn_append (append_all fresh_wal cs) opn key val k) = Inr w \<and>
    wal_read_all w = (numbered 0 cs, None) \<and> wal_sequence w = int (length cs)"
  using wal_open_torn [OF assms] by (simp add: wal_read_all_def)

lemma demo_torn_ok:
  "list_all entry_ok (numbered 0 (demo_calls @ [(str ''SET'', str ''city'', Some (str ''New York''))]))"
  "length (frame (mk_entry (int (length demo_calls)) (str ''SET'') (str ''city'') (Some (str ''New York'')))) = 65"
  "length (frame (mk_entry (int (length demo_calls)) (str ''DELETE'') (str ''a'') None)) = 59"
  "entry_ok (mk_entry (int (length demo_calls)) (str ''DELETE'') (str ''a'') None)"
  by code_simp (simp_all add: length_frame, code_simp+)

theorem wal_torn_write_dropped_witness:
  "\<exists>w. wal_open (torn_append (append_all fresh_wal demo_calls) (str ''SET'') (str ''city'') (Some (str ''New York'')) 10)
        = Inr w \<and> wal_read_all w = (numbered 0 demo_calls, None)"
  using wal_torn_write_dropped [OF demo_torn_ok(1), of 10] demo_torn_ok(2) by auto



end
