(* ===== verification/BTreeEngine.thy ===== *)
theory BTreeEngine
  imports BTree_Map Wal
begin

text \<open>
  \<open>btree_engine.py\<close>: the storage engine made of the B+ tree and the write-ahead log. Every write
  goes to the log first and then to the tree; opening the engine replays the log.

  The lemmas show that replay rebuilds the very tree the writes had built, so that an engine
  reopened after a crash, also one in the middle of an append, is the engine that was there.
\<close>

record btree_engine =
  be_tree :: btree
  be_wal :: wal

definition be_replay_entry :: "btree \<Rightarrow> wal_entry \<Rightarrow> btree result" where
  "be_replay_entry t e =
     (if we_operation e = str ''SET''
      then bt_set t (we_key e) (case we_value e of Some v \<Rightarrow> v | None \<Rightarrow> [])
      else if we_operation e = str ''DELETE'' then bt_remove t (we_key e)
      else Inr t)"

fun be_replay :: "btree \<Rightarrow> wal_entry list \<Rightarrow> btree result" where
  "be_replay t [] = Inr t"
| "be_replay t (e # es) = bindE (be_replay_entry t e) (\<lambda>t'. be_replay t' es)"

text \<open>\<open>__init__\<close> on the content of the log file: open the log, then replay what it holds.\<close>

definition be_open :: "bytes \<Rightarrow> btree_engine result" where
  "be_open f =
     bindE (wal_open f) (\<lambda>w.
     case wal_read_all w of
       (es, None) \<Rightarrow> bindE (be_replay (btree_new 16) es) (\<lambda>t. Inr \<lparr>be_tree = t, be_wal = w\<rparr>)
     | (es, Some err) \<Rightarrow> Inl err)"

definition be_set :: "btree_engine \<Rightarrow> pystr \<Rightarrow> pystr \<Rightarrow> btree_engine result" where
  "be_set e key val =
     (case wal_append (be_wal e) (str ''SET'') key (Some val) of
        (w, Inl err) \<Rightarrow> Inl err
      | (w, Inr _) \<Rightarrow> bindE (bt_set (be_tree e) key val) (\<lambda>t. Inr \<lparr>be_tree = t, be_wal = w\<rparr>))"

definition be_delete :: "btree_engine \<Rightarrow> pystr \<Rightarrow> btree_engine result" where
  "be_delete e key =
     (case wal_append (be_wal e) (str ''DELETE'') key None of
        (w, Inl err) \<Rightarrow> Inl err
      | (w, Inr _) \<Rightarrow> bindE (bt_remove (be_tree e) key) (\<lambda>t. Inr \<lparr>be_tree = t, be_wal = w\<rparr>))"

definition be_get :: "btree_engine \<Rightarrow> pystr \<Rightarrow> pystr option result" where
  "be_get e key = bt_get (be_tree e) key"

definition be_scan :: "btree_engine \<Rightarrow> pystr \<Rightarrow> pystr \<Rightarrow> (pystr \<times> pystr) list result" where
  "be_scan e a b = bt_range (be_tree e) a b"

definition be_flush :: "btree_engine \<Rightarrow> btree_engine" where
  "be_flush e = e"

definition be_stats :: "btree_engine \<Rightarrow> pystr \<times> int" where
  "be_stats e = (str ''btree'', bt_len (be_tree e))"

subsection \<open>The log and the tree\<close>

definition op_call :: "write_op \<Rightarrow> pystr \<times> pystr \<times> pystr option" where
  "op_call op = (if wo_is_delete op then (str ''DELETE'', wo_key op, None)
                 else (str ''SET'', wo_key op, wo_value op))"

definition op_logged :: "wal \<Rightarrow> write_op \<Rightarrow> bool" where
  "op_logged w op \<longleftrightarrow> list_all entry_ok (numbered (wal_sequence w) [op_call op])"

lemma be_write:
  assumes "op_ok op" "op_logged (be_wal e) op"
  shows "apply_op be_set be_delete e op =
    bindE (apply_op bt_set bt_remove (be_tree e) op)
      (\<lambda>t. Inr \<lparr>be_tree = t, be_wal = append_all (be_wal e) [op_call op]\<rparr>)"
  using assms wal_append_ok
  by (auto simp: apply_op_def op_ok_def op_logged_def op_call_def be_set_def be_delete_def)

lemma replay_call:
  "op_ok op \<Longrightarrow> be_replay t (numbered q [op_call op]) = apply_op bt_set bt_remove t op"
  by (cases "apply_op bt_set bt_remove t op")
    (auto simp: be_replay_entry_def op_call_def mk_entry_def apply_op_def op_ok_def str_def)

lemma numbered_Cons: "numbered q (c # cs) = numbered q [c] @ numbered (q + 1) cs"
  by (cases c) simp

lemma append_all_Cons: "append_all w (c # cs) = append_all (append_all w [c]) cs"
  by (cases c) simp

lemma be_replay_append: "be_replay t (xs @ ys) = bindE (be_replay t xs) (\<lambda>t'. be_replay t' ys)"
proof (induction xs arbitrary: t)
  case (Cons e xs)
  then show ?case by (cases "be_replay_entry t e") simp_all
qed simp

text \<open>Replaying the entries of a history is running the history on the tree.\<close>

lemma be_replay_calls:
  "list_all op_ok ops \<Longrightarrow>
     be_replay t (numbered q (map op_call ops)) = write_batch_seq bt_set bt_remove t ops"
proof (induction ops arbitrary: t q)
  case (Cons op ops)
  have "be_replay t (numbered q (map op_call (op # ops))) =
      bindE (be_replay t (numbered q [op_call op])) (\<lambda>t'. be_replay t' (numbered (q + 1) (map op_call ops)))"
    by (subst list.map, subst numbered_Cons) (rule be_replay_append)
  then show ?case using Cons by (simp add: replay_call)
qed simp

text \<open>The engine runs the history on the tree and appends its entries to the log.\<close>

lemma be_batch:
  assumes "list_all op_ok ops" "list_all entry_ok (numbered (wal_sequence (be_wal e)) (map op_call ops))"
  shows "write_batch_seq be_set be_delete e ops =
    bindE (write_batch_seq bt_set bt_remove (be_tree e) ops)
      (\<lambda>t. Inr \<lparr>be_tree = t, be_wal = append_all (be_wal e) (map op_call ops)\<rparr>)"
  using assms
proof (induction ops arbitrary: e)
  case (Cons op ops)
  let ?w = "append_all (be_wal e) [op_call op]"
  have ok: "op_ok op" "op_logged (be_wal e) op"
    "list_all entry_ok (numbered (wal_sequence (be_wal e) + 1) (map op_call ops))"
    using Cons.prems numbered_Cons [of "wal_sequence (be_wal e)" "op_call op" "map op_call ops"]
    by (simp_all add: op_logged_def)
  have "wal_sequence ?w = wal_sequence (be_wal e) + 1"
    using append_all_file [of "be_wal e" "[op_call op]"] ok(2) by (simp add: op_logged_def)
  then have "write_batch_seq be_set be_delete \<lparr>be_tree = t, be_wal = ?w\<rparr> ops =
      bindE (write_batch_seq bt_set bt_remove t ops)
        (\<lambda>t'. Inr \<lparr>be_tree = t', be_wal = append_all ?w (map op_call ops)\<rparr>)" for t
    using Cons.IH [of "\<lparr>be_tree = t, be_wal = ?w\<rparr>"] Cons.prems(1) ok(3) by simp
  then show ?case
    using be_write [OF ok(1,2)] append_all_Cons [of "be_wal e" "op_call op" "map op_call ops"]
    by (cases "apply_op bt_set bt_remove (be_tree e) op") simp_all
qed simp

definition be_wf :: "btree_engine \<Rightarrow> bool" where
  "be_wf e \<longleftrightarrow> bt_wf (be_tree e)"

definition be_guard :: "btree_engine \<Rightarrow> write_op \<Rightarrow> bool" where
  "be_guard e op \<longleftrightarrow> bt_guard (be_tree e) op \<and> op_logged (be_wal e) op"

interpretation be: kv_store be_wf "\<lambda>e. inorder (bt_root (be_tree e))" "\<lambda>_. True" be_get be_scan be_guard be_set be_delete
proof
  fix e op assume "be_wf e" "op_ok op" "be_guard e op"
  then show "\<exists>e'. apply_op be_set be_delete e op = Inr e' \<and> be_wf e' \<and>
      map_of (inorder (bt_root (be_tree e'))) = op_effect op (map_of (inorder (bt_root (be_tree e))))"
    using bt.write_view [of "be_tree e" op] by (auto simp: be_write be_wf_def be_guard_def)
qed (simp_all add: be_wf_def be_get_def be_scan_def bt.view_sorted bt.get_view bt.scan_view)

text \<open>
  Durability of the B+ tree engine (C16). On an engine opened on an empty directory run any sequence
  of writes and deletes whose log entries are encodable: no call fails, and opening the engine again
  on the log file gives the same engine, tree and sequence number included. If the process dies while
  it writes the record of one more operation, after any number of bytes short of the whole record, the
  reopened engine has the tree and the sequence number the engine had before that operation.
\<close>
theorem btree_engine_recovers:
  assumes "list_all op_ok (ops @ [op])" "list_all entry_ok (numbered 0 (map op_call (ops @ [op])))"
    "op_call op = (opn, key, val)" "k < length (frame (mk_entry (int (length ops)) opn key val))"
  shows "\<exists>e0 e. be_open [] = Inr e0 \<and> write_batch_seq be_set be_delete e0 ops = Inr e \<and>
    be_open (wal_file (be_wal e)) = Inr e \<and>
    be_open (torn_append (be_wal e) opn key val k) =
      Inr (e\<lparr>be_wal := (be_wal e)\<lparr>wal_file := torn_append (be_wal e) opn key val k\<rparr>\<rparr>)"
proof -
  let ?w = "append_all fresh_wal (map op_call ops)"
  have ok: "list_all op_ok ops" "list_all entry_ok (numbered 0 (map op_call ops))"
    using assms(1,2) by (simp_all add: numbered_append)
  have torn: "list_all entry_ok (numbered 0 (map op_call ops @ [(opn, key, val)]))"
    using assms(2,3) by simp
  have wf: "bt_shape (btree_new 16)" using bt_new_wf [of 16] by (simp add: bt_wf_def)
  obtain t where t: "write_batch_seq bt_set bt_remove (btree_new 16) ops = Inr t"
    using bt_batch_shape [OF wf ok(1)] by auto
  have e0: "be_open [] = Inr \<lparr>be_tree = btree_new 16, be_wal = fresh_wal\<rparr>"
    by (simp add: be_open_def wal_open_def wal_read_all_def next_sequence_def)
  have e: "write_batch_seq be_set be_delete \<lparr>be_tree = btree_new 16, be_wal = fresh_wal\<rparr> ops =
      Inr \<lparr>be_tree = t, be_wal = ?w\<rparr>"
    using be_batch [of ops "\<lparr>be_tree = btree_new 16, be_wal = fresh_wal\<rparr>"] ok t by simp
  have "wal_read (wal_file ?w) = (numbered 0 (map op_call ops), None)" "wal_open (wal_file ?w) = Inr ?w"
    using ok(2) by (simp_all add: append_all_fresh wal_read_log wal_open_def next_sequence_numbered)
  then have r: "be_open (wal_file ?w) = Inr \<lparr>be_tree = t, be_wal = ?w\<rparr>"
    using t ok(1) by (simp add: be_open_def wal_read_all_def be_replay_calls)
  have "be_open (torn_append ?w opn key val k) =
      Inr \<lparr>be_tree = t, be_wal = \<lparr>wal_file = torn_append ?w opn key val k, wal_sequence = int (length ops)\<rparr>\<rparr>"
    using wal_open_torn [OF torn, of k] assms(4) t ok(1) by (simp add: be_open_def wal_read_all_def be_replay_calls)
  then show ?thesis using e0 e r ok(2) by (simp add: append_all_fresh)
qed

definition demo_ops :: "write_op list" where
  "demo_ops = [wo_put (str ''a'') (str ''1''), wo_put (str ''b'') (str ''2''), wo_delete (str ''a'')]"

theorem btree_engine_recovers_witness:
  "\<exists>e0 e. be_open [] = Inr e0 \<and> write_batch_seq be_set be_delete e0 demo_ops = Inr e \<and>
     be_open (wal_file (be_wal e)) = Inr e"
proof -
  let ?op = "wo_put (str ''c'') (str ''3'')"
  have 1: "list_all op_ok (demo_ops @ [?op])" "list_all entry_ok (numbered 0 (map op_call (demo_ops @ [?op])))"
    "op_call ?op = (str ''SET'', str ''c'', Some (str ''3''))"
    by code_simp+
  have 2: "10 < length (frame (mk_entry (int (length demo_ops)) (str ''SET'') (str ''c'') (Some (str ''3''))))"
    by (simp add: length_frame, code_simp)
  show ?thesis using btree_engine_recovers [OF 1 2] by auto
qed

end
