(* ===== verification/LsmEngine.thy ===== *)
theory LsmEngine
  imports MemTable SSTable SecondaryIndex BTreeEngine
begin

text \<open>
  \<open>lsm_engine.py\<close>: the LSM engine, made of the write-ahead log, the MemTable, two levels of SSTables
  and the secondary index.

  The record \<open>lsm\<close> has the fields of the class and the SSTable files of the data directory, by
  name. The re-entrant lock \<open>_lock\<close> never blocks its own thread and is left out; \<open>_flush_lock\<close> is not
  re-entrant and is the field \<open>ls_flush_lock\<close>: a thread that acquires it while holding it waits
  forever, the outcome \<open>Deadlock\<close>. An operation that raises has no result state.
\<close>

section \<open>State\<close>

definition MEMTABLE_SIZE_LIMIT :: int where
  "MEMTABLE_SIZE_LIMIT = 1 * 1024 * 1024"

definition L0_COMPACTION_THRESHOLD :: nat where
  "L0_COMPACTION_THRESHOLD = 4"

type_synonym files = "(pystr, bytes) dict"
type_synonym table = "pystr \<times> reader"

record lsm =
  ls_files :: files
  ls_wal :: wal
  ls_memtable :: memtable
  ls_l0 :: "table list"
  ls_l1 :: "table list"
  ls_sst_sequence :: nat
  ls_value_index :: sec_index
  ls_flush_lock :: bool

definition with_flush_lock :: "lsm \<Rightarrow> (lsm \<Rightarrow> lsm result) \<Rightarrow> lsm result" where
  "with_flush_lock e body =
     (if ls_flush_lock e then Inl Deadlock
      else bindE (body (e\<lparr>ls_flush_lock := True\<rparr>)) (\<lambda>e'. Inr (e'\<lparr>ls_flush_lock := False\<rparr>)))"

section \<open>Reading\<close>

text \<open>The reader opens the file of its path at every call, after the Bloom filter said yes.\<close>

definition table_get :: "files \<Rightarrow> pystr \<Rightarrow> table \<Rightarrow> pystr option result" where
  "table_get fs key t =
     (case dict_get fs (fst t) of
        Some f \<Rightarrow> sst_get (snd t) f key
      | None \<Rightarrow> bindE (might_contain (rd_bloom (snd t)) key) (\<lambda>b. if b then Inl FileNotFound else Inr None))"

definition table_scan :: "files \<Rightarrow> pystr \<Rightarrow> pystr \<Rightarrow> table \<Rightarrow> (pystr \<times> pystr) list result" where
  "table_scan fs a b t =
     (case dict_get fs (fst t) of Some f \<Rightarrow> sst_scan (snd t) f a b | None \<Rightarrow> Inl FileNotFound)"

definition table_iter_all :: "files \<Rightarrow> table \<Rightarrow> (pystr \<times> pystr) list result" where
  "table_iter_all fs t =
     (case dict_get fs (fst t) of Some f \<Rightarrow> sst_iter_all (snd t) f | None \<Rightarrow> Inl FileNotFound)"

fun first_hit :: "files \<Rightarrow> pystr \<Rightarrow> table list \<Rightarrow> pystr option result" where
  "first_hit fs key [] = Inr None"
| "first_hit fs key (t # ts) =
     bindE (table_get fs key t) (\<lambda>r. case r of Some v \<Rightarrow> Inr (Some v) | None \<Rightarrow> first_hit fs key ts)"

definition live :: "pystr \<Rightarrow> pystr option" where
  "live v = (if v = TOMBSTONE then None else Some v)"

definition lsm_get :: "lsm \<Rightarrow> pystr \<Rightarrow> pystr option result" where
  "lsm_get e key =
     (case mt_get (ls_memtable e) key of
        Some v \<Rightarrow> Inr (live v)
      | None \<Rightarrow>
          bindE (first_hit (ls_files e) key (rev (ls_l0 e))) (\<lambda>r.
          case r of
            Some v \<Rightarrow> Inr (live v)
          | None \<Rightarrow>
              bindE (first_hit (ls_files e) key (rev (ls_l1 e))) (\<lambda>r.
              Inr (case r of Some v \<Rightarrow> live v | None \<Rightarrow> None))))"

text \<open>The items of a list of tables, each with its priority; also the priority after the last.\<close>

fun tagged_scan ::
  "files \<Rightarrow> pystr \<Rightarrow> pystr \<Rightarrow> nat \<Rightarrow> table list \<Rightarrow> ((pystr \<times> pystr \<times> nat) list \<times> nat) result" where
  "tagged_scan fs a b p [] = Inr ([], p)"
| "tagged_scan fs a b p (t # ts) =
     bindE (table_scan fs a b t) (\<lambda>xs.
     bindE (tagged_scan fs a b (Suc p) ts) (\<lambda>(ys, q).
     Inr (map (\<lambda>(k, v). (k, v, p)) xs @ ys, q)))"

definition see :: "(pystr, pystr \<times> nat) dict \<Rightarrow> pystr \<times> pystr \<times> nat \<Rightarrow> (pystr, pystr \<times> nat) dict" where
  "see seen x =
     (case x of (k, v, p) \<Rightarrow>
        case dict_get seen k of
          None \<Rightarrow> dict_set k (v, p) seen
        | Some (v', p') \<Rightarrow> if p < p' then dict_set k (v, p) seen else seen)"

definition live_items :: "(pystr, pystr \<times> nat) dict \<Rightarrow> (pystr \<times> pystr) list" where
  "live_items seen =
     filter (\<lambda>(k, v). v \<noteq> TOMBSTONE) (map (\<lambda>k. (k, fst (the (dict_get seen k)))) (sort (dict_keys seen)))"

definition lsm_scan :: "lsm \<Rightarrow> pystr \<Rightarrow> pystr \<Rightarrow> (pystr \<times> pystr) list result" where
  "lsm_scan e a b =
     bindE (tagged_scan (ls_files e) a b 1 (rev (ls_l0 e))) (\<lambda>(xs, p).
     bindE (tagged_scan (ls_files e) a b p (rev (ls_l1 e))) (\<lambda>(ys, _).
     Inr (live_items
       (foldl see [] (map (\<lambda>(k, v). (k, v, 0)) (mt_scan (ls_memtable e) a b) @ xs @ ys)))))"

section \<open>Flush and compaction\<close>

definition sst_name :: "nat \<Rightarrow> nat \<Rightarrow> pystr" where
  "sst_name level q =
     str ''sst_l'' @ str_of_nat level @ str ''_'' @ zero_pad 6 (str_of_nat q) @ str ''.sst''"

fun merge_tables :: "files \<Rightarrow> table list \<Rightarrow> (pystr, pystr) dict \<Rightarrow> (pystr, pystr) dict result" where
  "merge_tables fs [] d = Inr d"
| "merge_tables fs (t # ts) d =
     bindE (table_iter_all fs t) (\<lambda>xs. merge_tables fs ts (foldl (\<lambda>d (k, v). dict_set k v d) d xs))"

definition remove_files :: "table list \<Rightarrow> files \<Rightarrow> files" where
  "remove_files ts fs = foldl (\<lambda>fs t. dict_del (fst t) fs) fs ts"

definition compact_l0_to_l1 :: "lsm \<Rightarrow> lsm result" where
  "compact_l0_to_l1 e = with_flush_lock e (\<lambda>e.
     if ls_l0 e = [] then Inr e
     else
       bindE (merge_tables (ls_files e) (ls_l1 e) []) (\<lambda>d.
       bindE (merge_tables (ls_files e) (ls_l0 e) d) (\<lambda>all_entries.
       let merged = sort (filter (\<lambda>(k, v). v \<noteq> TOMBSTONE) all_entries);
           old = ls_l0 e @ ls_l1 e in
       if merged \<noteq> [] then
         let path = sst_name 1 (ls_sst_sequence e) in
         bindE (sst_write merged) (\<lambda>f.
         bindE (sst_load f) (\<lambda>rd.
         Inr (e\<lparr>ls_sst_sequence := Suc (ls_sst_sequence e),
                ls_files := remove_files old (dict_set path f (ls_files e)),
                ls_l0 := [], ls_l1 := [(path, rd)]\<rparr>)))
       else Inr (e\<lparr>ls_files := remove_files old (ls_files e), ls_l0 := [], ls_l1 := []\<rparr>))))"

definition flush_memtable :: "lsm \<Rightarrow> lsm result" where
  "flush_memtable e = with_flush_lock e (\<lambda>e.
     if \<not> mt_should_flush (ls_memtable e) then Inr e
     else
       let items = mt_items_sorted (ls_memtable e) in
       if items = [] then Inr e
       else
         let path = sst_name 0 (ls_sst_sequence e) in
         bindE (sst_write items) (\<lambda>f.
         bindE (sst_load f) (\<lambda>rd.
         let e' = e\<lparr>ls_sst_sequence := Suc (ls_sst_sequence e),
                    ls_files := dict_set path f (ls_files e),
                    ls_l0 := ls_l0 e @ [(path, rd)],
                    ls_memtable := mt_clear (ls_memtable e),
                    ls_wal := wal_truncate (ls_wal e)\<rparr> in
         if length (ls_l0 e') \<ge> L0_COMPACTION_THRESHOLD then compact_l0_to_l1 e' else Inr e')))"

definition maybe_flush :: "lsm \<Rightarrow> lsm result" where
  "maybe_flush e = (if mt_should_flush (ls_memtable e) then flush_memtable e else Inr e)"

definition lsm_flush :: "lsm \<Rightarrow> lsm result" where
  "lsm_flush e =
     flush_memtable
       (if mt_entry_count (ls_memtable e) > 0
        then e\<lparr>ls_memtable := (ls_memtable e)\<lparr>mt_size_limit := 0\<rparr>\<rparr> else e)"

section \<open>Writing\<close>

definition lsm_set :: "lsm \<Rightarrow> pystr \<Rightarrow> pystr \<Rightarrow> lsm result" where
  "lsm_set e key val =
     bindE (lsm_get e key) (\<lambda>old.
     case wal_append (ls_wal e) (str ''SET'') key (Some val) of
       (w, Inl err) \<Rightarrow> Inl err
     | (w, Inr _) \<Rightarrow>
         bindE (si_update (ls_value_index e) key old val) (\<lambda>ix.
         maybe_flush (e\<lparr>ls_wal := w, ls_memtable := mt_set (ls_memtable e) key val, ls_value_index := ix\<rparr>)))"

definition lsm_delete :: "lsm \<Rightarrow> pystr \<Rightarrow> lsm result" where
  "lsm_delete e key =
     bindE (lsm_get e key) (\<lambda>old.
     case wal_append (ls_wal e) (str ''DELETE'') key None of
       (w, Inl err) \<Rightarrow> Inl err
     | (w, Inr _) \<Rightarrow>
         bindE (case old of Some v \<Rightarrow> si_remove (ls_value_index e) key v | None \<Rightarrow> Inr (ls_value_index e)) (\<lambda>ix.
         maybe_flush (e\<lparr>ls_wal := w, ls_memtable := mt_delete (ls_memtable e) key, ls_value_index := ix\<rparr>)))"

text \<open>The log entries of a batch (\<open>op_call\<close> gives the entry of an operation), then its effect on MemTable and index.\<close>

fun log_calls :: "wal \<Rightarrow> (pystr \<times> pystr \<times> pystr option) list \<Rightarrow> wal result" where
  "log_calls w [] = Inr w"
| "log_calls w ((opn, key, val) # cs) =
     (case wal_append w opn key val of (w', Inl err) \<Rightarrow> Inl err | (w', Inr _) \<Rightarrow> log_calls w' cs)"

fun apply_batch :: "lsm \<Rightarrow> write_op list \<Rightarrow> lsm result" where
  "apply_batch e [] = Inr e"
| "apply_batch e (op # ops) =
     bindE (lsm_get e (wo_key op)) (\<lambda>old.
     bindE
       (if wo_is_delete op then
          bindE (case old of Some v \<Rightarrow> si_remove (ls_value_index e) (wo_key op) v | None \<Rightarrow> Inr (ls_value_index e))
            (\<lambda>ix. Inr (e\<lparr>ls_memtable := mt_delete (ls_memtable e) (wo_key op), ls_value_index := ix\<rparr>))
        else
          case wo_value op of
            None \<Rightarrow> Inl TypeErr
          | Some val \<Rightarrow>
              bindE (si_update (ls_value_index e) (wo_key op) old val)
                (\<lambda>ix. Inr (e\<lparr>ls_memtable := mt_set (ls_memtable e) (wo_key op) val, ls_value_index := ix\<rparr>)))
       (\<lambda>e'. apply_batch e' ops))"

definition batch_calls :: "write_op list \<Rightarrow> (pystr \<times> pystr \<times> pystr option) list" where
  "batch_calls ops = [(str ''BEGIN'', [], None)] @ map op_call ops @ [(str ''COMMIT'', [], None)]"

definition lsm_write_batch :: "lsm \<Rightarrow> write_op list \<Rightarrow> lsm result" where
  "lsm_write_batch e ops =
     bindE (log_calls (ls_wal e) (batch_calls ops)) (\<lambda>w.
     bindE (apply_batch (e\<lparr>ls_wal := w\<rparr>) ops) maybe_flush)"

definition write_batch_simulate_crash :: "lsm \<Rightarrow> write_op list \<Rightarrow> lsm result" where
  "write_batch_simulate_crash e ops =
     bindE (log_calls (ls_wal e) ((str ''BEGIN'', [], None) # map op_call ops)) (\<lambda>w. Inr (e\<lparr>ls_wal := w\<rparr>))"

definition find_by_value_range :: "lsm \<Rightarrow> pystr \<Rightarrow> pystr \<Rightarrow> pystr list result" where
  "find_by_value_range e low high = keys_in_value_range (ls_value_index e) low high"

section \<open>Recovery\<close>

definition prefix_of :: "pystr \<Rightarrow> pystr \<Rightarrow> bool" where
  "prefix_of p s \<longleftrightarrow> take (length p) s = p"

text \<open>\<open>sorted(glob("sst_l<level>_*.sst"))\<close> on the names in the directory.\<close>

definition level_files :: "files \<Rightarrow> nat \<Rightarrow> pystr list" where
  "level_files fs level =
     (let pre = str ''sst_l'' @ str_of_nat level @ str ''_''; post = str ''.sst'' in
      sort (filter (\<lambda>n. length pre + length post \<le> length n \<and> prefix_of pre n \<and> prefix_of (rev post) (rev n))
              (dict_keys fs)))"

definition name_sequence :: "pystr \<Rightarrow> int result" where
  "name_sequence n =
     bindE (nth_err (py_split 95 n) 2) (\<lambda>part. bindE (nth_err (py_split 46 part) 0) py_int)"

fun load_tables :: "files \<Rightarrow> pystr list \<Rightarrow> table list \<times> nat \<Rightarrow> table list \<times> nat" where
  "load_tables fs [] acc = acc"
| "load_tables fs (n # ns) (ts, q) =
     (case dict_get fs n of
        None \<Rightarrow> load_tables fs ns (ts, q)
      | Some f \<Rightarrow>
          (case sst_load f of
             Inl _ \<Rightarrow> load_tables fs ns (ts, q)
           | Inr rd \<Rightarrow>
               (case name_sequence n of
                  Inl _ \<Rightarrow> load_tables fs ns (ts @ [(n, rd)], q)
                | Inr s \<Rightarrow> load_tables fs ns (ts @ [(n, rd)], if s \<ge> int q then nat (s + 1) else q))))"

definition apply_wal_entry :: "memtable \<Rightarrow> wal_entry \<Rightarrow> memtable" where
  "apply_wal_entry m e =
     (if we_operation e = str ''SET'' then mt_set m (we_key e) (case we_value e of Some v \<Rightarrow> v | None \<Rightarrow> [])
      else if we_operation e = str ''DELETE'' then mt_delete m (we_key e)
      else m)"

text \<open>The replay loop: the MemTable, \<open>in_batch\<close> and \<open>batch\<close>.\<close>

fun replay_wal :: "memtable \<times> bool \<times> wal_entry list \<Rightarrow> wal_entry list \<Rightarrow> memtable \<times> bool \<times> wal_entry list" where
  "replay_wal s [] = s"
| "replay_wal (m, in_batch, batch) (e # es) =
     (if we_operation e = str ''BEGIN'' then replay_wal (m, True, []) es
      else if we_operation e = str ''COMMIT'' then replay_wal (foldl apply_wal_entry m batch, False, []) es
      else if in_batch then replay_wal (m, in_batch, batch @ [e]) es
      else replay_wal (apply_wal_entry m e, in_batch, batch) es)"

text \<open>\<open>__init__\<close> on the files of the data directory and the content of the log.\<close>

definition lsm_open :: "files \<Rightarrow> bytes \<Rightarrow> lsm result" where
  "lsm_open fs log_bytes =
     bindE (wal_open log_bytes) (\<lambda>w.
     let (l0, q0) = load_tables fs (level_files fs 0) ([], 0);
         (l1, q1) = load_tables fs (level_files fs 1) ([], q0) in
     case wal_read_all w of
       (es, Some err) \<Rightarrow> Inl err
     | (es, None) \<Rightarrow>
         let m = fst (replay_wal (memtable_new MEMTABLE_SIZE_LIMIT, False, []) es);
             e = \<lparr>ls_files = fs, ls_wal = w, ls_memtable = m, ls_l0 = l0, ls_l1 = l1,
                  ls_sst_sequence = q1, ls_value_index = si_new, ls_flush_lock = False\<rparr> in
         bindE (lsm_scan e [] (chr 1114111)) (\<lambda>kvs.
         bindE (si_add_all si_new kvs) (\<lambda>ix. Inr (e\<lparr>ls_value_index := ix\<rparr>))))"

definition lsm_stats :: "lsm \<Rightarrow> (pystr \<times> int) list" where
  "lsm_stats e =
     [(str ''memtable_entries'', int (mt_entry_count (ls_memtable e))),
      (str ''memtable_size_bytes'', mt_size_bytes (ls_memtable e)),
      (str ''l0_sstables'', int (length (ls_l0 e))),
      (str ''l1_sstables'', int (length (ls_l1 e))),
      (str ''l0_entries'', \<Sum>t\<leftarrow>ls_l0 e. int (rd_entry_count (snd t))),
      (str ''l1_entries'', \<Sum>t\<leftarrow>ls_l1 e. int (rd_entry_count (snd t))),
      (str ''index_entries'', si_size (ls_value_index e))]"

end
