(* ===== verification/Lsm_Content.thy ===== *)
theory Lsm_Content
  imports LsmEngine
begin

text \<open>
  What an LSM engine holds: the map from keys to values that MemTable and tables together stand for
  (\<open>content\<close>). Lookup and range scan are shown to read it, and writes, flushes and compactions to
  change it by exactly one key or not at all, which makes the engine an instance of the storage
  engine contract \<open>kv_store\<close>.
\<close>

section \<open>What a table holds\<close>

definition table_items :: "files \<Rightarrow> table \<Rightarrow> (pystr \<times> pystr) list" where
  "table_items fs t = (case table_iter_all fs t of Inr xs \<Rightarrow> xs | Inl _ \<Rightarrow> [])"

definition table_ok :: "files \<Rightarrow> table \<Rightarrow> bool" where
  "table_ok fs t \<longleftrightarrow> (\<exists>f. dict_get fs (fst t) = Some f \<and> sst_load f = Inr (snd t) \<and>
     sst_write (table_items fs t) = Inr f \<and> sorted_wrt (<) (map fst (table_items fs t)))"

lemma table_reads:
  assumes "table_ok fs t"
  shows "table_iter_all fs t = Inr (table_items fs t)"
    and "table_scan fs a b t = Inr (filter (\<lambda>(k, v). a \<le> k \<and> k \<le> b) (table_items fs t))"
    and "list_all is_scalar key \<Longrightarrow> table_get fs key t = Inr (map_of (table_items fs t) key)"
proof -
  obtain f where f: "dict_get fs (fst t) = Some f" "sst_load f = Inr (snd t)"
    "sst_write (table_items fs t) = Inr f" "sorted_wrt (<) (map fst (table_items fs t))"
    using assms by (auto simp: table_ok_def)
  note r = sst_written [OF f(3,4)]
  show "table_iter_all fs t = Inr (table_items fs t)"
    and "table_scan fs a b t = Inr (filter (\<lambda>(k, v). a \<le> k \<and> k \<le> b) (table_items fs t))"
    and "list_all is_scalar key \<Longrightarrow> table_get fs key t = Inr (map_of (table_items fs t) key)"
    using r f(1,2) by (simp_all add: table_iter_all_def table_scan_def table_get_def)
qed

lemma table_written:
  assumes "sst_write items = Inr f" "sorted_wrt (<) (map fst items)" "sst_load f = Inr rd"
    "dict_get fs p = Some f"
  shows "table_ok fs (p, rd) \<and> table_items fs (p, rd) = items"
proof -
  have "sst_iter_all rd f = Inr items" using sst_written [OF assms(1,2)] assms(3) by auto
  then have i: "table_items fs (p, rd) = items"
    using assms(4) by (simp add: table_items_def table_iter_all_def)
  then show ?thesis using assms by (simp add: table_ok_def)
qed

lemma table_items_cong: "dict_get fs (fst t) = dict_get fs' (fst t) \<Longrightarrow> table_items fs t = table_items fs' t"
  by (simp add: table_items_def table_iter_all_def)

lemma table_ok_cong: "dict_get fs (fst t) = dict_get fs' (fst t) \<Longrightarrow> table_ok fs t = table_ok fs' t"
  by (simp add: table_ok_def table_items_cong [of fs t fs'])

section \<open>Content\<close>

text \<open>The pairs of a list of tables, newest table first, so that \<open>map_of\<close> finds the newest.\<close>

definition tables_pairs :: "files \<Rightarrow> table list \<Rightarrow> (pystr \<times> pystr) list" where
  "tables_pairs fs ts = concat (map (table_items fs) (rev ts))"

lemma tables_pairs_append: "tables_pairs fs (ts @ us) = tables_pairs fs us @ tables_pairs fs ts"
  by (simp add: tables_pairs_def)

definition pairs :: "lsm \<Rightarrow> (pystr \<times> pystr) list" where
  "pairs e = mt_items_sorted (ls_memtable e) @ tables_pairs (ls_files e) (ls_l1 e @ ls_l0 e)"

definition content :: "lsm \<Rightarrow> (pystr \<rightharpoonup> pystr)" where
  "content e k = Option.bind (map_of (pairs e) k) live"

lemma first_hit_pairs:
  assumes "list_all is_scalar key" "list_all (table_ok fs) ts"
  shows "first_hit fs key ts = Inr (map_of (concat (map (table_items fs) ts)) key)"
  using assms(2) by (induction ts) (auto simp: table_reads(3) assms(1) map_add_def split: option.splits)

lemma lsm_get_content:
  assumes "mt_inv (ls_memtable e)" "list_all (table_ok (ls_files e)) (ls_l0 e @ ls_l1 e)" "list_all is_scalar key"
  shows "lsm_get e key = Inr (content e key)"
  using assms first_hit_pairs [OF assms(3), of "ls_files e"]
  by (auto simp: lsm_get_def content_def pairs_def tables_pairs_def map_add_def mt_items_map list_all_iff
      split: option.splits)

fun tags_from :: "nat \<Rightarrow> ('a \<times> 'b \<times> nat) list \<Rightarrow> bool" where
  "tags_from p [] \<longleftrightarrow> True"
| "tags_from p ((k, v, q) # xs) \<longleftrightarrow> p \<le> q \<and> tags_from q xs"

lemma tags_from_mono: "tags_from p xs \<Longrightarrow> q \<le> p \<Longrightarrow> tags_from q xs"
  by (cases xs) auto

lemma tags_from_tag: "tags_from p ys \<Longrightarrow> tags_from p (map (\<lambda>(k, v). (k, v, p)) xs @ ys)"
  by (induction xs) auto

text \<open>With ascending priorities the first pair of a key is the one that is kept.\<close>

lemma foldl_see:
  assumes "tags_from p xs" "dict_wf seen" "\<And>k v q. dict_get seen k = Some (v, q) \<Longrightarrow> q \<le> p"
  shows "dict_wf (foldl see seen xs)"
    and "map_option fst (dict_get (foldl see seen xs) k) =
      (case dict_get seen k of Some (v, q) \<Rightarrow> Some v | None \<Rightarrow> map_of (map (\<lambda>(k, v, q). (k, v)) xs) k)"
proof -
  have "dict_wf (foldl see seen xs) \<and> map_option fst (dict_get (foldl see seen xs) k) =
      (case dict_get seen k of Some (v, q) \<Rightarrow> Some v | None \<Rightarrow> map_of (map (\<lambda>(k, v, q). (k, v)) xs) k)"
    using assms
  proof (induction p xs arbitrary: seen rule: tags_from.induct)
    case (2 p l v q xs)
    have q: "p \<le> q" "tags_from q xs" using "2.prems"(1) by simp_all
    have s: "see seen (l, v, q) = (case dict_get seen l of None \<Rightarrow> dict_set l (v, q) seen | Some _ \<Rightarrow> seen)"
      using "2.prems"(3) [of l] q(1) by (fastforce simp: see_def split: option.splits)
    have wf: "dict_wf (see seen (l, v, q))" using "2.prems"(2) by (simp add: s split: option.splits)
    have b: "r \<le> q" if "dict_get (see seen (l, v, q)) k' = Some (w, r)" for k' w r
      using that "2.prems"(3) [of k' w r] q(1) by (auto simp: s dict_simps split: option.splits if_splits)
    show ?case using "2.IH" [OF q(2) wf b]
      by (auto simp: s dict_simps split: option.splits)
  qed (auto split: option.splits)
  then show "dict_wf (foldl see seen xs)"
    and "map_option fst (dict_get (foldl see seen xs) k) =
      (case dict_get seen k of Some (v, q) \<Rightarrow> Some v | None \<Rightarrow> map_of (map (\<lambda>(k, v, q). (k, v)) xs) k)"
    by simp_all
qed

lemma tagged_scan_pairs:
  assumes "list_all (table_ok fs) ts"
  shows "\<exists>xs. tagged_scan fs a b p ts = Inr (xs, p + length ts) \<and> tags_from p xs \<and>
    (\<forall>ys. tags_from (p + length ts) ys \<longrightarrow> tags_from p (xs @ ys)) \<and>
    map (\<lambda>(k, v, q). (k, v)) xs = filter (\<lambda>(k, v). a \<le> k \<and> k \<le> b) (concat (map (table_items fs) ts))"
  using assms
proof (induction ts arbitrary: p)
  case (Cons t ts)
  obtain xs where xs: "tagged_scan fs a b (Suc p) ts = Inr (xs, Suc p + length ts)" "tags_from (Suc p) xs"
    "\<forall>ys. tags_from (Suc p + length ts) ys \<longrightarrow> tags_from (Suc p) (xs @ ys)"
    "map (\<lambda>(k, v, q). (k, v)) xs = filter (\<lambda>(k, v). a \<le> k \<and> k \<le> b) (concat (map (table_items fs) ts))"
    using Cons.IH [of "Suc p"] Cons.prems by auto
  let ?zs = "map (\<lambda>(k, v). (k, v, p)) (filter (\<lambda>(k, v). a \<le> k \<and> k \<le> b) (table_items fs t))"
  have "tags_from p (?zs @ ys)" if "tags_from (Suc p) ys" for ys
    using tags_from_tag tags_from_mono [OF that, of p] by simp
  moreover have "map (\<lambda>(k, v, q). (k, v)) ?zs = filter (\<lambda>(k, v). a \<le> k \<and> k \<le> b) (table_items fs t)"
    by (simp add: comp_def case_prod_unfold)
  ultimately show ?case using Cons.prems xs by (intro exI [of _ "?zs @ xs"]) (simp add: table_reads(2))
qed simp

lemma live_items_sorted:
  assumes "dict_wf seen"
  shows "sorted_wrt (<) (map fst (live_items seen))"
proof -
  have "sorted_wrt (<) (sort (dict_keys seen))"
    using assms by (simp add: strict_sorted_iff dict_wf_def)
  then show ?thesis by (simp add: live_items_def sorted_wrt_map sorted_wrt_filter comp_def)
qed

lemma live_items_map:
  assumes "dict_wf seen"
  shows "map_of (live_items seen) k = Option.bind (map_option fst (dict_get seen k)) live"
proof -
  let ?xs = "map (\<lambda>k. (k, fst (the (dict_get seen k)))) (sort (dict_keys seen))"
  have d: "distinct (map fst ?xs)" using assms by (simp add: dict_wf_def comp_def)
  then have d': "distinct (map fst (live_items seen))" by (simp add: live_items_def distinct_map_filter)
  have mem: "(k, v) \<in> set ?xs \<longleftrightarrow> map_option fst (dict_get seen k) = Some v" for v
    by (auto simp: image_iff dom_map_of_conv_image_fst [symmetric] domI)
  have "map_of (live_items seen) k = Some v \<longleftrightarrow> Option.bind (map_option fst (dict_get seen k)) live = Some v" for v
    using d' mem [of v] by (auto simp: live_items_def live_def bind_eq_Some_conv)
  then show ?thesis by (metis not_Some_eq)
qed

definition view :: "lsm \<Rightarrow> (pystr \<times> pystr) list" where
  "view e = live_items (foldl see [] (map (\<lambda>(k, v). (k, v, 0)) (pairs e)))"

lemma see_pairs:
  "tags_from 0 xs \<Longrightarrow> dict_wf (foldl see [] xs)"
  "tags_from 0 xs \<Longrightarrow> map_option fst (dict_get (foldl see [] xs) k) = map_of (map (\<lambda>(k, v, q). (k, v)) xs) k"
  using foldl_see [of 0 xs "[]"] by auto

lemma untag: "map (\<lambda>(k, v, q). (k, v)) (map (\<lambda>(k, v). (k, v, p)) xs) = xs"
  by (simp add: comp_def case_prod_unfold)

lemma view_ok: "sorted_wrt (<) (map fst (view e))" "map_of (view e) = content e"
proof -
  have t: "tags_from 0 (map (\<lambda>(k, v). (k, v, 0)) (pairs e))" using tags_from_tag [of 0 "[]"] by simp
  show "sorted_wrt (<) (map fst (view e))"
    unfolding view_def by (rule live_items_sorted [OF see_pairs(1) [OF t]])
  show "map_of (view e) = content e"
    by (rule ext) (simp only: view_def live_items_map [OF see_pairs(1) [OF t]] see_pairs(2) [OF t] untag content_def)
qed

lemma map_of_filter_key: "map_of (filter (\<lambda>(k, v). P k) xs) k = (if P k then map_of xs k else None)"
  by (induction xs) auto

lemma lsm_scan_view:
  assumes "mt_inv (ls_memtable e)" "list_all (table_ok (ls_files e)) (ls_l0 e @ ls_l1 e)"
  shows "lsm_scan e a b = Inr (filter (\<lambda>(k, v). a \<le> k \<and> k \<le> b) (view e))"
proof -
  let ?P = "\<lambda>(k, v). a \<le> k \<and> k \<le> b" and ?fs = "ls_files e"
  let ?ms = "map (\<lambda>(k, v). (k, v, 0 :: nat)) (mt_scan (ls_memtable e) a b)"
  obtain xs where xs: "tagged_scan ?fs a b 1 (rev (ls_l0 e)) = Inr (xs, 1 + length (ls_l0 e))"
    "\<forall>ys. tags_from (1 + length (ls_l0 e)) ys \<longrightarrow> tags_from 1 (xs @ ys)"
    "map (\<lambda>(k, v, q). (k, v)) xs = filter ?P (concat (map (table_items ?fs) (rev (ls_l0 e))))"
    using tagged_scan_pairs [of ?fs "rev (ls_l0 e)" a b 1] assms(2) by auto
  obtain ys q where ys: "tagged_scan ?fs a b (1 + length (ls_l0 e)) (rev (ls_l1 e)) = Inr (ys, q)"
    "tags_from (1 + length (ls_l0 e)) ys"
    "map (\<lambda>(k, v, q). (k, v)) ys = filter ?P (concat (map (table_items ?fs) (rev (ls_l1 e))))"
    using tagged_scan_pairs [of ?fs "rev (ls_l1 e)" a b "1 + length (ls_l0 e)"] assms(2) by auto
  let ?all = "?ms @ xs @ ys"
  have "tags_from 0 (xs @ ys)" using xs(2) ys(2) tags_from_mono [of 1 "xs @ ys" 0] by simp
  then have t: "tags_from 0 ?all" by (rule tags_from_tag)
  have "map (\<lambda>(k, v, q). (k, v)) ?all = filter ?P (pairs e)"
    unfolding map_append untag xs(3) ys(3)
    by (simp add: mt_scan_filter [OF assms(1)] pairs_def tables_pairs_def)
  then have m: "map_option fst (dict_get (foldl see [] ?all) k) = (if a \<le> k \<and> k \<le> b then map_of (pairs e) k else None)" for k
    using see_pairs(2) [OF t, of k] map_of_filter_key [of "\<lambda>k. a \<le> k \<and> k \<le> b" "pairs e" k] by simp
  have "live_items (foldl see [] ?all) = filter ?P (view e)"
  proof (rule sorted_pairs_unique)
    show "sorted_wrt (<) (map fst (live_items (foldl see [] ?all)))"
      by (rule live_items_sorted [OF see_pairs(1) [OF t]])
    show "sorted_wrt (<) (map fst (filter ?P (view e)))"
      using view_ok(1) by (simp add: sorted_wrt_map sorted_wrt_filter)
    show "map_of (live_items (foldl see [] ?all)) = map_of (filter ?P (view e))"
      unfolding fun_eq_iff live_items_map [OF see_pairs(1) [OF t]] m map_of_filter_key view_ok(2) content_def
      by simp
  qed
  then show ?thesis using xs(1) ys(1) by (simp add: lsm_scan_def)
qed

section \<open>File names\<close>

lemma str_of_digit: "str_of_nat 0 = [48]" "str_of_nat (Suc 0) = [49]"
  by (simp_all add: str_of_nat_def dec_digits.simps [of "Suc 0"])

lemma sst_name_inject:
  assumes "l \<le> 1" "l' \<le> 1"
  shows "sst_name l p = sst_name l' q \<longleftrightarrow> l = l' \<and> p = q"
proof
  assume e: "sst_name l p = sst_name l' q"
  have "l = l'"
    using assms e by (auto simp: sst_name_def str_of_digit le_Suc_eq)
  then have "zero_pad 6 (str_of_nat p) = zero_pad 6 (str_of_nat q)" using e by (simp add: sst_name_def)
  then show "l = l' \<and> p = q" using \<open>l = l'\<close> by (metis zero_pad_digits(3))
qed simp

section \<open>The invariant\<close>

definition named :: "nat \<Rightarrow> nat \<Rightarrow> table list \<Rightarrow> bool" where
  "named level n ts \<longleftrightarrow>
     (\<exists>qs. map fst ts = map (sst_name level) qs \<and> sorted_wrt (<) qs \<and> (\<forall>q\<in>set qs. q < n))"

definition lsm_wf :: "lsm \<Rightarrow> bool" where
  "lsm_wf e \<longleftrightarrow> mt_inv (ls_memtable e) \<and> list_all (table_ok (ls_files e)) (ls_l0 e @ ls_l1 e) \<and>
     bt_shape (si_tree (ls_value_index e)) \<and> \<not> ls_flush_lock e \<and>
     named 0 (ls_sst_sequence e) (ls_l0 e) \<and> named 1 (ls_sst_sequence e) (ls_l1 e) \<and>
     dict_wf (ls_files e) \<and> set (dict_keys (ls_files e)) = fst ` set (ls_l0 e @ ls_l1 e)"

lemma named_Nil [simp]: "named l n []"
  by (simp add: named_def)

lemma named_mono: "named l m ts \<Longrightarrow> m \<le> n \<Longrightarrow> named l n ts"
  by (force simp: named_def)

lemma named_snoc:
  assumes "named l n ts"
  shows "named l (Suc n) (ts @ [(sst_name l n, rd)])"
proof -
  obtain qs where "map fst ts = map (sst_name l) qs" "sorted_wrt (<) qs" "\<forall>q\<in>set qs. q < n"
    using assms by (auto simp: named_def)
  then show ?thesis by (auto simp: named_def sorted_wrt_append less_Suc_eq intro!: exI [of _ "qs @ [n]"])
qed

lemma named_fresh:
  assumes "named l n ts" "t \<in> set ts" "l \<le> 1" "l' \<le> 1"
  shows "fst t \<noteq> sst_name l' n"
proof -
  obtain qs where "map fst ts = map (sst_name l) qs" "\<forall>q\<in>set qs. q < n" using assms(1) by (auto simp: named_def)
  moreover have "fst t \<in> set (map fst ts)" using assms(2) by simp
  ultimately obtain x where "fst t = sst_name l x" "x < n" by auto
  then show ?thesis using sst_name_inject [OF assms(3,4), of x n] by simp
qed

lemma wf_fresh:
  assumes "lsm_wf e" "t \<in> set (ls_l0 e @ ls_l1 e)" "l \<le> 1"
  shows "fst t \<noteq> sst_name l (ls_sst_sequence e)"
proof -
  have "named 0 (ls_sst_sequence e) (ls_l0 e)" "named 1 (ls_sst_sequence e) (ls_l1 e)"
    using assms(1) by (simp_all add: lsm_wf_def)
  then show ?thesis
    using named_fresh [of 0 _ "ls_l0 e" t l] named_fresh [of 1 _ "ls_l1 e" t l] assms(2,3) by auto
qed

lemma tables_unchanged:
  assumes "\<And>t. t \<in> set ts \<Longrightarrow> dict_get fs (fst t) = dict_get fs' (fst t)"
  shows "tables_pairs fs ts = tables_pairs fs' ts" "list_all (table_ok fs) ts = list_all (table_ok fs') ts"
proof -
  have "map (table_items fs) (rev ts) = map (table_items fs') (rev ts)"
    by (rule map_cong [OF refl], rule table_items_cong, rule assms) simp
  then show "tables_pairs fs ts = tables_pairs fs' ts" by (simp only: tables_pairs_def)
  show "list_all (table_ok fs) ts = list_all (table_ok fs') ts"
    by (rule list_all_cong [OF refl], rule table_ok_cong, rule assms)
qed

lemma content_eq:
  "mt_inv (ls_memtable e) \<Longrightarrow> content e k =
     Option.bind ((map_of (tables_pairs (ls_files e) (ls_l1 e @ ls_l0 e)) ++ mt_get (ls_memtable e)) k) live"
  by (simp add: content_def pairs_def mt_items_map)

lemma dict_keys_set: "fst ` set (dict_set k v d) = insert k (fst ` set d)"
  by (induction d) auto

section \<open>Flush\<close>

definition flushed :: "lsm \<Rightarrow> bytes \<Rightarrow> reader \<Rightarrow> lsm" where
  "flushed e f rd =
     e\<lparr>ls_sst_sequence := Suc (ls_sst_sequence e),
       ls_files := dict_set (sst_name 0 (ls_sst_sequence e)) f (ls_files e),
       ls_l0 := ls_l0 e @ [(sst_name 0 (ls_sst_sequence e), rd)],
       ls_memtable := mt_clear (ls_memtable e), ls_wal := wal_truncate (ls_wal e)\<rparr>"

lemma flush_memtable_cases:
  assumes "\<not> ls_flush_lock e" "mt_inv (ls_memtable e)" "mt_should_flush (ls_memtable e)"
    "mt_items_sorted (ls_memtable e) \<noteq> []" "sst_write (mt_items_sorted (ls_memtable e)) = Inr f"
  shows "\<exists>rd. sst_load f = Inr rd \<and>
    flush_memtable e = (if length (ls_l0 e) < 3 then Inr (flushed e f rd) else Inl Deadlock)"
proof -
  have "sorted_wrt (<) (map fst (mt_items_sorted (ls_memtable e)))"
    using assms(2) by (simp add: mt_items_sorted_def mt_inv_def strict_sorted_items)
  then obtain rd where rd: "sst_load f = Inr rd" using sst_written [OF assms(5)] by blast
  then show ?thesis using assms
    by (auto simp: flush_memtable_def with_flush_lock_def Let_def L0_COMPACTION_THRESHOLD_def
        compact_l0_to_l1_def flushed_def)
qed

lemma flushed_wf:
  assumes wf: "lsm_wf e" and w: "sst_write (mt_items_sorted (ls_memtable e)) = Inr f" "sst_load f = Inr rd"
  shows "lsm_wf (flushed e f rd) \<and> content (flushed e f rd) = content e"
proof -
  let ?p = "sst_name 0 (ls_sst_sequence e)" and ?e = "flushed e f rd"
  have inv: "mt_inv (ls_memtable e)" using wf by (simp add: lsm_wf_def)
  have srt: "sorted_wrt (<) (map fst (mt_items_sorted (ls_memtable e)))"
    using inv by (simp add: mt_items_sorted_def mt_inv_def strict_sorted_items)
  have fs: "dict_get (ls_files ?e) (fst t) = dict_get (ls_files e) (fst t)" if "t \<in> set (ls_l1 e @ ls_l0 e)" for t
    using wf_fresh [OF wf, of t 0] that by (auto simp: flushed_def dict_simps)
  have new: "table_ok (ls_files ?e) (?p, rd)" "table_items (ls_files ?e) (?p, rd) = mt_items_sorted (ls_memtable e)"
    using table_written [OF w(1) srt w(2), of "ls_files ?e" ?p] by (simp_all add: flushed_def dict_simps)
  have tp: "tables_pairs (ls_files ?e) (ls_l1 e @ ls_l0 e) = tables_pairs (ls_files e) (ls_l1 e @ ls_l0 e)"
    "list_all (table_ok (ls_files ?e)) (ls_l1 e @ ls_l0 e) = list_all (table_ok (ls_files e)) (ls_l1 e @ ls_l0 e)"
    by (rule tables_unchanged [OF fs]; assumption)+
  have "lsm_wf ?e"
    using wf tp(2) new(1) named_snoc [of 0 "ls_sst_sequence e" "ls_l0 e" rd]
      named_mono [of 1 "ls_sst_sequence e" "ls_l1 e"]
    by (auto simp: lsm_wf_def flushed_def mt_inv_clear dict_wf_set dict_keys_set)
  moreover have "content ?e k = content e k" for k
  proof -
    have "map_of (pairs ?e) k = map_of (pairs e) k"
      using tp(1) new(2) by (simp add: pairs_def flushed_def tables_pairs_def mt_items_sorted_def mt_clear_def
          dict_sorted_items_def)
    then show ?thesis by (simp add: content_def)
  qed
  ultimately show ?thesis by auto
qed

end
