(* ===== verification/Lsm_Map.thy ===== *)
theory Lsm_Map
  imports Lsm_Content
begin

text \<open>
  Writes, compaction and the map the LSM engine implements. The engine is an instance of the storage
  engine contract: the interpretation \<open>lsm\<close> of \<open>kv_store\<close>, under a guard that excludes the tombstone
  text as a value, entries that cannot be encoded, and the flush that would make a fourth table. What
  happens in that last case is the self-deadlock at the end.
\<close>

section \<open>Writes\<close>

definition mem_op :: "memtable \<Rightarrow> write_op \<Rightarrow> memtable" where
  "mem_op m op = (if wo_is_delete op then mt_delete m (wo_key op)
                  else case wo_value op of Some v \<Rightarrow> mt_set m (wo_key op) v | None \<Rightarrow> m)"

definition written :: "lsm \<Rightarrow> write_op \<Rightarrow> sec_index \<Rightarrow> lsm" where
  "written e op ix =
     e\<lparr>ls_wal := append_all (ls_wal e) [op_call op], ls_memtable := mem_op (ls_memtable e) op, ls_value_index := ix\<rparr>"

text \<open>A flush, should the write trigger one, can write the table and finds fewer than three tables.\<close>

definition flush_ok :: "lsm \<Rightarrow> memtable \<Rightarrow> bool" where
  "flush_ok e m \<longleftrightarrow> mt_should_flush m \<longrightarrow>
     length (ls_l0 e) < 3 \<and> (case sst_write (mt_items_sorted m) of Inr _ \<Rightarrow> True | Inl _ \<Rightarrow> False)"

definition lsm_guard :: "lsm \<Rightarrow> write_op \<Rightarrow> bool" where
  "lsm_guard e op \<longleftrightarrow> op_logged (ls_wal e) op \<and> wo_value op \<noteq> Some TOMBSTONE \<and>
     flush_ok e (mem_op (ls_memtable e) op)"

lemma op_logged_scalar: "op_logged w op \<Longrightarrow> list_all is_scalar (wo_key op)"
  by (simp add: op_logged_def op_call_def entry_ok_def mk_entry_def split: if_splits)

lemma wf_get: "lsm_wf e \<Longrightarrow> list_all is_scalar k \<Longrightarrow> lsm_get e k = Inr (content e k)"
  by (rule lsm_get_content) (simp_all add: lsm_wf_def)

lemma lsm_write:
  assumes wf: "lsm_wf e" and op: "op_ok op" "op_logged (ls_wal e) op"
  shows "\<exists>ix. bt_shape (si_tree ix) \<and> apply_op lsm_set lsm_delete e op = maybe_flush (written e op ix)"
proof -
  have ix: "bt_shape (si_tree (ls_value_index e))" using wf by (simp add: lsm_wf_def)
  have get: "lsm_get e (wo_key op) = Inr (content e (wo_key op))"
    by (rule wf_get [OF wf op_logged_scalar [OF op(2)]])
  show ?thesis
  proof (cases "wo_is_delete op")
    case True
    then have a: "wal_append (ls_wal e) (str ''DELETE'') (wo_key op) None =
        (append_all (ls_wal e) [op_call op], Inr (mk_entry (wal_sequence (ls_wal e)) (str ''DELETE'') (wo_key op) None))"
      using op(2) by (simp add: op_logged_def op_call_def wal_append_ok)
    show ?thesis
    proof (cases "content e (wo_key op)")
      case None
      then show ?thesis using True a get ix
        by (intro exI [of _ "ls_value_index e"]) (simp add: apply_op_def lsm_delete_def written_def mem_op_def)
    next
      case (Some v)
      obtain s where "si_remove (ls_value_index e) (wo_key op) v = Inr s" "bt_shape (si_tree s)"
        using si_remove_shape [OF ix] by blast
      then show ?thesis using True a get Some
        by (intro exI [of _ s]) (simp add: apply_op_def lsm_delete_def written_def mem_op_def)
    qed
  next
    case False
    then obtain v where v: "wo_value op = Some v" using op(1) by (auto simp: op_ok_def)
    have a: "wal_append (ls_wal e) (str ''SET'') (wo_key op) (Some v) =
        (append_all (ls_wal e) [op_call op], Inr (mk_entry (wal_sequence (ls_wal e)) (str ''SET'') (wo_key op) (Some v)))"
      using op(2) False v by (simp add: op_logged_def op_call_def wal_append_ok)
    obtain s where "si_update (ls_value_index e) (wo_key op) (content e (wo_key op)) v = Inr s" "bt_shape (si_tree s)"
      using si_update_shape [OF ix] by blast
    then show ?thesis using False a get v
      by (intro exI [of _ s]) (simp add: apply_op_def lsm_set_def written_def mem_op_def)
  qed
qed

lemma written_fields [simp]:
  "ls_files (written e op ix) = ls_files e" "ls_l0 (written e op ix) = ls_l0 e" "ls_l1 (written e op ix) = ls_l1 e"
  "ls_sst_sequence (written e op ix) = ls_sst_sequence e" "ls_flush_lock (written e op ix) = ls_flush_lock e"
  "ls_memtable (written e op ix) = mem_op (ls_memtable e) op" "ls_value_index (written e op ix) = ix"
  "ls_wal (written e op ix) = append_all (ls_wal e) [op_call op]"
  by (simp_all add: written_def)

lemma mem_op_inv: "mt_inv m \<Longrightarrow> mt_inv (mem_op m op)"
  by (auto simp: mem_op_def mt_inv_set mt_inv_delete split: option.splits)

lemma mem_op_get:
  "op_ok op \<Longrightarrow> mt_get (mem_op m op) =
     (mt_get m)(wo_key op \<mapsto> (if wo_is_delete op then TOMBSTONE else the (wo_value op)))"
  by (auto simp: mem_op_def op_ok_def mt_get_set mt_get_delete fun_eq_iff split: option.splits)

lemma written_wf:
  assumes wf: "lsm_wf e" and op: "op_ok op" "wo_value op \<noteq> Some TOMBSTONE" and ix: "bt_shape (si_tree ix)"
  shows "lsm_wf (written e op ix) \<and> content (written e op ix) = op_effect op (content e)"
proof
  have inv: "mt_inv (ls_memtable e)" using wf by (simp add: lsm_wf_def)
  show "lsm_wf (written e op ix)" using wf ix by (simp add: lsm_wf_def mem_op_inv)
  show "content (written e op ix) = op_effect op (content e)"
    using op by (auto simp: fun_eq_iff content_eq inv mem_op_inv mem_op_get op_effect_def op_ok_def live_def map_add_def)
qed

lemma items_nonempty: "op_ok op \<Longrightarrow> mt_items_sorted (mem_op m op) \<noteq> []"
proof -
  assume "op_ok op"
  then have "mt_get (mem_op m op) (wo_key op) \<noteq> None" by (simp add: mem_op_get)
  then show ?thesis by (auto simp: mt_get_def mt_items_sorted_def dict_sorted_items_def dest: arg_cong [of _ _ set])
qed

lemma maybe_flush_wf:
  assumes wf: "lsm_wf e" and ok: "flush_ok e (ls_memtable e)" "mt_items_sorted (ls_memtable e) \<noteq> []"
  shows "\<exists>e'. maybe_flush e = Inr e' \<and> lsm_wf e' \<and> content e' = content e"
proof (cases "mt_should_flush (ls_memtable e)")
  case True
  then obtain f where f: "sst_write (mt_items_sorted (ls_memtable e)) = Inr f" "length (ls_l0 e) < 3"
    using ok(1) by (auto simp: flush_ok_def split: sum.splits)
  have "\<not> ls_flush_lock e" "mt_inv (ls_memtable e)" using wf by (simp_all add: lsm_wf_def)
  from flush_memtable_cases [OF this True ok(2) f(1)] f(2)
  obtain rd where "sst_load f = Inr rd" "flush_memtable e = Inr (flushed e f rd)" by auto
  then show ?thesis using True flushed_wf [OF wf f(1)] by (simp add: maybe_flush_def)
qed (use wf in \<open>simp add: maybe_flush_def\<close>)

interpretation lsm: kv_store lsm_wf view "list_all is_scalar" lsm_get lsm_scan lsm_guard lsm_set lsm_delete
proof
  fix e assume wf: "lsm_wf e"
  show "sorted_wrt (<) (map fst (view e))" by (rule view_ok)
  show "lsm_get e k = Inr (map_of (view e) k)" if "list_all is_scalar k" for k
    using wf_get [OF wf that] by (simp add: view_ok)
  show "lsm_scan e a b = Inr (filter (\<lambda>(k, v). a \<le> k \<and> k \<le> b) (view e))" for a b
    using wf by (intro lsm_scan_view) (simp_all add: lsm_wf_def)
  show "\<exists>e'. apply_op lsm_set lsm_delete e op = Inr e' \<and> lsm_wf e' \<and>
      map_of (view e') = op_effect op (map_of (view e))"
    if op: "op_ok op" and g: "lsm_guard e op" for op
  proof -
    have l: "op_logged (ls_wal e) op" "wo_value op \<noteq> Some TOMBSTONE" "flush_ok e (mem_op (ls_memtable e) op)"
      using g by (simp_all add: lsm_guard_def)
    obtain ix where ix: "bt_shape (si_tree ix)" "apply_op lsm_set lsm_delete e op = maybe_flush (written e op ix)"
      using lsm_write [OF wf op l(1)] by blast
    have w: "lsm_wf (written e op ix)" "content (written e op ix) = op_effect op (content e)"
      using written_wf [OF wf op l(2) ix(1)] by simp_all
    have "flush_ok (written e op ix) (ls_memtable (written e op ix))" using l(3) by (simp add: flush_ok_def)
    from maybe_flush_wf [OF w(1) this] items_nonempty [OF op] w(2) ix(2)
    show ?thesis by (auto simp: view_ok)
  qed
qed

section \<open>Compaction\<close>

lemma foldl_dict_set:
  "dict_wf d \<Longrightarrow> distinct (map fst xs) \<Longrightarrow>
     dict_wf (foldl (\<lambda>d (k, v). dict_set k v d) d xs) \<and>
     map_of (foldl (\<lambda>d (k, v). dict_set k v d) d xs) = map_of d ++ map_of xs"
proof (induction xs arbitrary: d)
  case (Cons x xs)
  obtain k v where x: "x = (k, v)" by (cases x)
  have "map_of xs k = None" using Cons.prems(2) x by (simp add: map_of_eq_None_iff)
  then show ?case using Cons x
    by (auto simp: update_conv' fun_eq_iff map_add_def split: option.splits)
qed simp

lemma merge_tables_ok:
  "list_all (table_ok fs) ts \<Longrightarrow> dict_wf d \<Longrightarrow>
     \<exists>d'. merge_tables fs ts d = Inr d' \<and> dict_wf d' \<and> map_of d' = map_of d ++ map_of (tables_pairs fs ts)"
proof (induction ts arbitrary: d)
  case (Cons t ts)
  let ?d = "foldl (\<lambda>d (k, v). dict_set k v d) d (table_items fs t)"
  have t: "table_ok fs t" using Cons.prems(1) by simp
  then have "distinct (map fst (table_items fs t))" by (auto simp: table_ok_def strict_sorted_iff)
  from foldl_dict_set [OF Cons.prems(2) this]
  have d: "dict_wf ?d" "map_of ?d = map_of d ++ map_of (table_items fs t)" by simp_all
  have "list_all (table_ok fs) ts" using Cons.prems(1) by simp
  from Cons.IH [OF this d(1)] show ?case
    by (simp add: table_reads(1) [OF t] d(2) tables_pairs_def)
qed (simp add: tables_pairs_def)

abbreviation tables_only :: "lsm \<Rightarrow> lsm" where
  "tables_only e \<equiv> e\<lparr>ls_memtable := mt_clear (ls_memtable e)\<rparr>"

lemma pairs_tables_only: "pairs (tables_only e) = tables_pairs (ls_files e) (ls_l1 e @ ls_l0 e)"
  by (simp add: pairs_def mt_items_sorted_def mt_clear_def dict_sorted_items_def)

lemma merged_view:
  assumes "dict_wf d" "map_of d = map_of (pairs (tables_only e))"
  shows "sort (filter (\<lambda>(k, v). v \<noteq> TOMBSTONE) d) = view (tables_only e)"
proof (rule sorted_pairs_unique)
  let ?d = "filter (\<lambda>(k, v). v \<noteq> TOMBSTONE) d"
  have wf: "dict_wf ?d" using assms(1) by (simp add: dict_wf_def distinct_map_filter)
  show "sorted_wrt (<) (map fst (sort ?d))"
    using strict_sorted_items [OF wf] by (simp add: dict_sorted_items_def)
  show "sorted_wrt (<) (map fst (view (tables_only e)))" by (rule view_ok)
  have "map_of ?d k = Option.bind (map_of d k) live" for k
    using assms(1) by (induction d) (auto simp: dict_wf_def live_def map_of_eq_None_iff image_iff)
  then show "map_of (sort ?d) = map_of (view (tables_only e))"
    using map_of_sorted_items [OF wf] by (simp add: dict_sorted_items_def view_ok(2) content_def assms(2) fun_eq_iff)
qed

lemma remove_files_get: "dict_get (remove_files ts fs) p = (if p \<in> fst ` set ts then None else dict_get fs p)"
  unfolding remove_files_def by (induction ts arbitrary: fs) (auto simp: dict_simps)

lemma remove_files_wf: "dict_wf fs \<Longrightarrow> dict_wf (remove_files ts fs)"
  unfolding remove_files_def by (induction ts arbitrary: fs) auto

lemma dict_keys_dom: "fst ` set d = dom (dict_get d)"
  by (simp add: dom_map_of_conv_image_fst)

lemma compact_ok:
  assumes wf: "lsm_wf e" and f: "sst_write (view (tables_only e)) = Inr f"
  shows "\<exists>e'. compact_l0_to_l1 e = Inr e' \<and> lsm_wf e' \<and> content e' = content e \<and>
    (ls_l0 e \<noteq> [] \<longrightarrow> ls_l0 e' = [] \<and> tables_pairs (ls_files e') (ls_l1 e') = view (tables_only e))"
proof (cases "ls_l0 e = []")
  case True
  then show ?thesis using wf by (auto simp: compact_l0_to_l1_def with_flush_lock_def lsm_wf_def content_def pairs_def fun_eq_iff)
next
  case False
  let ?fs = "ls_files e" and ?n = "ls_sst_sequence e" and ?v = "view (tables_only e)"
  let ?old = "ls_l0 e @ ls_l1 e" and ?p = "sst_name 1 (ls_sst_sequence e)"
  have t: "list_all (table_ok ?fs) (ls_l1 e)" "list_all (table_ok ?fs) (ls_l0 e)" and l: "\<not> ls_flush_lock e"
    and inv: "mt_inv (ls_memtable e)" and fwf: "dict_wf ?fs" and keys: "dom (dict_get ?fs) = fst ` set ?old"
    using wf by (simp_all add: lsm_wf_def dict_keys_dom)
  obtain d1 where d1: "merge_tables ?fs (ls_l1 e) [] = Inr d1" "dict_wf d1" "map_of d1 = map_of (tables_pairs ?fs (ls_l1 e))"
    using merge_tables_ok [OF t(1) dict_wf_empty] by auto
  obtain d where d: "merge_tables ?fs (ls_l0 e) d1 = Inr d" "dict_wf d" "map_of d = map_of (pairs (tables_only e))"
    using merge_tables_ok [OF t(2) d1(2)] d1(3) by (auto simp: pairs_tables_only tables_pairs_append)
  note m = merged_view [OF d(2,3)]
  have srt: "sorted_wrt (<) (map fst ?v)" by (rule view_ok)
  obtain rd where rd: "sst_load f = Inr rd" using sst_written [OF f srt] by blast
  define fs' where "fs' = (if ?v \<noteq> [] then remove_files ?old (dict_set ?p f ?fs) else remove_files ?old ?fs)"
  define l1' where "l1' = (if ?v \<noteq> [] then [(?p, rd)] else [])"
  define e' where "e' = e\<lparr>ls_sst_sequence := (if ?v \<noteq> [] then Suc ?n else ?n), ls_files := fs', ls_l0 := [], ls_l1 := l1'\<rparr>"
  have "compact_l0_to_l1 e = Inr e'"
    using False l d1(1) d(1) m f rd by (simp add: compact_l0_to_l1_def with_flush_lock_def e'_def fs'_def l1'_def Let_def)
  moreover have fresh: "?p \<notin> fst ` set ?old" using wf_fresh [OF wf, of _ 1] by fastforce
  have p: "dict_get fs' ?p = Some f" if "?v \<noteq> []" using that fresh by (simp add: fs'_def remove_files_get dict_simps)
  have tab: "list_all (table_ok fs') l1'" "tables_pairs fs' l1' = ?v"
    using table_written [OF f srt rd p] by (auto simp: l1'_def tables_pairs_def)
  moreover have "dom (dict_get fs') = fst ` set l1'"
    using keys fresh by (auto simp: fs'_def l1'_def remove_files_get dict_simps dom_def split: if_splits)
  moreover have "dict_wf fs'" using fwf by (simp add: fs'_def remove_files_wf)
  moreover have "named 1 (ls_sst_sequence e') l1'"
    using named_snoc [of 1 ?n "[]" rd] by (simp add: e'_def l1'_def)
  ultimately have w: "lsm_wf e'" using wf by (simp add: lsm_wf_def e'_def dict_keys_dom)
  have "content e' k = content e k" for k
  proof -
    have "map_of ?v k = Option.bind (map_of (tables_pairs ?fs (ls_l1 e @ ls_l0 e)) k) live"
      by (simp add: view_ok content_def pairs_tables_only)
    then have tm: "Option.bind (map_of ?v k) live = Option.bind (map_of (tables_pairs ?fs (ls_l1 e @ ls_l0 e)) k) live"
      by (cases "map_of (tables_pairs ?fs (ls_l1 e @ ls_l0 e)) k") (auto simp: live_def)
    show ?thesis using tab(2) tm inv by (auto simp: content_eq e'_def map_add_def split: option.splits)
  qed
  then have "content e' = content e" by (rule ext)
  then show ?thesis using \<open>compact_l0_to_l1 e = Inr e'\<close> w tab(2) by (simp add: e'_def)
qed

lemma lsm_write_deadlock:
  assumes wf: "lsm_wf e" and op: "op_ok op" "op_logged (ls_wal e) op"
    and fl: "mt_should_flush (mem_op (ls_memtable e) op)" "3 \<le> length (ls_l0 e)"
    "sst_write (mt_items_sorted (mem_op (ls_memtable e) op)) = Inr f"
  shows "apply_op lsm_set lsm_delete e op = Inl Deadlock"
proof -
  obtain ix where ix: "apply_op lsm_set lsm_delete e op = maybe_flush (written e op ix)"
    using lsm_write [OF wf op] by blast
  have "\<not> ls_flush_lock (written e op ix)" "mt_inv (ls_memtable (written e op ix))"
    using wf by (simp_all add: lsm_wf_def mem_op_inv)
  from flush_memtable_cases [OF this _ _ ] show ?thesis
    using fl items_nonempty [OF op(1)] ix by (auto simp: maybe_flush_def)
qed

section \<open>Histories from an empty directory\<close>

definition lsm_empty :: lsm where
  "lsm_empty = \<lparr>ls_files = [], ls_wal = fresh_wal, ls_memtable = memtable_new MEMTABLE_SIZE_LIMIT, ls_l0 = [], ls_l1 = [],
     ls_sst_sequence = 0, ls_value_index = si_new, ls_flush_lock = False\<rparr>"

lemma lsm_empty_wf: "lsm_wf lsm_empty" "content lsm_empty = Map.empty"
proof -
  show "lsm_wf lsm_empty" using bt_new_wf [of 16] mt_inv_new by (simp add: lsm_wf_def lsm_empty_def si_new_def bt_wf_def)
  show "content lsm_empty = Map.empty"
    by (simp add: fun_eq_iff content_def pairs_def tables_pairs_def mt_items_sorted_def memtable_new_def
        dict_sorted_items_def lsm_empty_def)
qed

lemma view_empty: "view lsm_empty = []"
  using view_ok(2) [of lsm_empty] lsm_empty_wf(2) by (cases "view lsm_empty") auto

lemma lsm_open_empty: "lsm_open [] [] = Inr lsm_empty"
proof -
  have "wal_open [] = Inr fresh_wal" by (simp add: wal_open_def next_sequence_def)
  moreover have "level_files [] l = []" for l by (simp add: level_files_def Let_def)
  moreover have "lsm_scan lsm_empty [] (chr 1114111) = Inr []"
    using lsm.scan_view [OF lsm_empty_wf(1)] by (simp add: view_empty)
  ultimately show ?thesis by (simp add: lsm_open_def Let_def wal_read_all_def lsm_empty_def)
qed

text \<open>
  The LSM engine as a map (C1). Open the engine on an empty directory and run any sequence of writes
  and deletes, flushes to SSTables included, in which every log entry is encodable, no value is
  the tombstone text, and every flush can encode its table and finds fewer than three tables. Then
  no call fails; \<open>get\<close> gives the value written last, and nothing for a key deleted since or never
  written; and \<open>scan\<close> gives the pairs of that map in the range, in ascending order of keys.
\<close>
theorem lsm_refines_map:
  assumes "lsm_open [] [] = Inr e0" "list_all op_ok ops" "batch_guard lsm_guard (apply_op lsm_set lsm_delete) e0 ops"
  shows "\<exists>e. write_batch_seq lsm_set lsm_delete e0 ops = Inr e \<and>
    (\<forall>k. list_all is_scalar k \<longrightarrow> lsm_get e k = Inr (fold op_effect ops Map.empty k)) \<and>
    (\<exists>xs. sorted_wrt (<) (map fst xs) \<and> map_of xs = fold op_effect ops Map.empty \<and>
      (\<forall>a b. lsm_scan e a b = Inr (filter (\<lambda>(k, v). a \<le> k \<and> k \<le> b) xs)))"
proof -
  have e0: "e0 = lsm_empty" using assms(1) by (simp add: lsm_open_empty)
  obtain e where e: "write_batch_seq lsm_set lsm_delete e0 ops = Inr e" "lsm_wf e"
    "map_of (view e) = fold op_effect ops Map.empty"
    using lsm.batch_view [of e0 ops] assms(2,3) lsm_empty_wf by (auto simp: e0 view_ok)
  then show ?thesis using lsm.get_view [OF e(2)] lsm.view_sorted [OF e(2)] lsm.scan_view [OF e(2)]
    by (intro exI [of _ e] conjI) auto
qed

lemma demo_op_guard:
  defines "op \<equiv> wo_put (str ''city'') (str ''Oslo'')"
  shows "list_all op_ok [op]" "lsm_guard lsm_empty op"
proof -
  have "op_logged fresh_wal op" unfolding op_def by code_simp
  moreover have "\<not> mt_should_flush (mem_op (memtable_new MEMTABLE_SIZE_LIMIT) op)" unfolding op_def by code_simp
  moreover have "wo_value op \<noteq> Some TOMBSTONE" unfolding op_def by code_simp
  ultimately show "lsm_guard lsm_empty op" by (simp add: lsm_guard_def flush_ok_def lsm_empty_def)
qed (simp add: op_def)

theorem lsm_refines_map_witness:
  "\<exists>e. write_batch_seq lsm_set lsm_delete lsm_empty [wo_put (str ''city'') (str ''Oslo'')] = Inr e \<and>
     lsm_get e (str ''city'') = Inr (Some (str ''Oslo''))"
proof -
  let ?op = "wo_put (str ''city'') (str ''Oslo'')"
  obtain e where "apply_op lsm_set lsm_delete lsm_empty ?op = Inr e"
    using lsm.write_view [OF lsm_empty_wf(1) _ demo_op_guard(2)] demo_op_guard(1) by auto
  then have g: "batch_guard lsm_guard (apply_op lsm_set lsm_delete) lsm_empty [?op]"
    using demo_op_guard(2) by simp
  have "list_all is_scalar (str ''city'')" by code_simp
  then show ?thesis using lsm_refines_map [OF lsm_open_empty demo_op_guard(1) g] by auto
qed

text \<open>
  Compaction (C17). When the merged live pairs of all tables can be encoded, \<open>_compact_l0_to_l1\<close>
  called without the flush lock held returns, level 0 is empty afterwards, level 1 holds exactly the
  live pairs, sorted and without tombstones, and every key reads as before.
\<close>
theorem lsm_compaction_preserves:
  assumes "lsm_wf e" "ls_l0 e \<noteq> []" "sst_write (view (tables_only e)) = Inr f"
  shows "\<exists>e'. compact_l0_to_l1 e = Inr e' \<and> lsm_wf e' \<and> ls_l0 e' = [] \<and>
    tables_pairs (ls_files e') (ls_l1 e') = view (tables_only e) \<and>
    (\<forall>k. list_all is_scalar k \<longrightarrow> lsm_get e' k = lsm_get e k) \<and> (\<forall>a b. lsm_scan e' a b = lsm_scan e a b)"
proof -
  obtain e' where e': "compact_l0_to_l1 e = Inr e'" "lsm_wf e'" "content e' = content e" "ls_l0 e' = []"
    "tables_pairs (ls_files e') (ls_l1 e') = view (tables_only e)"
    using compact_ok [OF assms(1,3)] assms(2) by blast
  have v: "view e' = view e"
    by (rule sorted_pairs_unique [OF view_ok(1) view_ok(1)]) (simp add: view_ok(2) e'(3))
  show ?thesis using e' v lsm.get_view [OF e'(2)] lsm.get_view [OF assms(1)] lsm.scan_view [OF e'(2)]
    lsm.scan_view [OF assms(1)] by (intro exI [of _ e'] conjI) auto
qed

section \<open>The fourth flush\<close>

definition op_item :: "write_op \<Rightarrow> pystr \<times> pystr" where
  "op_item op = (wo_key op, if wo_is_delete op then TOMBSTONE else the (wo_value op))"

definition drained :: "lsm \<Rightarrow> bool" where
  "drained e \<longleftrightarrow> lsm_wf e \<and> mt_data (ls_memtable e) = [] \<and> mt_size_limit (ls_memtable e) \<le> 0"

lemma mem_op_limit: "mt_size_limit (mem_op m op) = mt_size_limit m"
  by (simp add: mem_op_def split: option.splits)

lemma mem_op_drained: "mt_data m = [] \<Longrightarrow> op_ok op \<Longrightarrow> mt_items_sorted (mem_op m op) = [op_item op]"
  by (auto simp: mem_op_def mt_set_def mt_delete_def op_item_def op_ok_def mt_items_sorted_def dict_sorted_items_def Let_def)

lemma should_flush_zero: "mt_inv m \<Longrightarrow> mt_size_limit m \<le> 0 \<Longrightarrow> mt_should_flush m"
  using data_size_nonneg [of "mt_data m"] by (simp add: mt_should_flush_def mt_inv_def)

lemma flushed_fields [simp]:
  "mt_data (ls_memtable (flushed e f rd)) = []" "length (ls_l0 (flushed e f rd)) = Suc (length (ls_l0 e))"
  "mt_size_limit (ls_memtable (flushed e f rd)) = mt_size_limit (ls_memtable e)"
  "ls_wal (flushed e f rd) = wal_truncate (ls_wal e)"
  by (simp_all add: flushed_def mt_clear_def)

lemma drained_write:
  assumes d: "drained e" and op: "op_ok op" "op_logged (ls_wal e) op" and f: "sst_write [op_item op] = Inr f"
  shows "if length (ls_l0 e) < 3
    then \<exists>e'. apply_op lsm_set lsm_delete e op = Inr e' \<and> drained e' \<and>
      length (ls_l0 e') = Suc (length (ls_l0 e)) \<and> wal_sequence (ls_wal e') = wal_sequence (ls_wal e) + 1
    else apply_op lsm_set lsm_delete e op = Inl Deadlock"
proof -
  have wf: "lsm_wf e" and m: "mt_data (ls_memtable e) = []" "mt_size_limit (ls_memtable e) \<le> 0"
    using d by (auto simp: drained_def)
  obtain ix where ix: "bt_shape (si_tree ix)" "apply_op lsm_set lsm_delete e op = maybe_flush (written e op ix)"
    using lsm_write [OF wf op] by blast
  let ?e = "written e op ix"
  have inv: "mt_inv (ls_memtable ?e)" "\<not> ls_flush_lock ?e" using wf by (auto simp: lsm_wf_def mem_op_inv)
  have w: "lsm_wf ?e" using wf ix(1) inv by (simp add: lsm_wf_def)
  have it: "mt_items_sorted (ls_memtable ?e) = [op_item op]" using mem_op_drained [OF m(1) op(1)] by simp
  have sf: "mt_should_flush (ls_memtable ?e)" using should_flush_zero [OF inv(1)] m(2) by (simp add: mem_op_limit)
  obtain rd where rd: "sst_load f = Inr rd"
    "flush_memtable ?e = (if length (ls_l0 e) < 3 then Inr (flushed ?e f rd) else Inl Deadlock)"
    using flush_memtable_cases [OF inv(2,1) sf] it f by auto
  have "drained (flushed ?e f rd)"
    using flushed_wf [OF w _ rd(1)] it f m(2) by (simp add: drained_def mem_op_limit)
  moreover have "wal_sequence (append_all (ls_wal e) [op_call op]) = wal_sequence (ls_wal e) + 1"
    using append_all_file [of "ls_wal e" "[op_call op]"] op(2) by (simp add: op_logged_def)
  ultimately show ?thesis using ix(2) rd(2) sf by (simp add: maybe_flush_def wal_truncate_def)
qed

lemma drained_deadlock:
  assumes "drained e" "list_all op_ok ops" "list_all entry_ok (numbered (wal_sequence (ls_wal e)) (map op_call ops))"
    "list_all (\<lambda>op. \<exists>f. sst_write [op_item op] = Inr f) ops" "4 \<le> length (ls_l0 e) + length ops" "length (ls_l0 e) \<le> 3"
  shows "write_batch_seq lsm_set lsm_delete e ops = Inl Deadlock"
  using assms
proof (induction ops arbitrary: e)
  case (Cons op ops)
  have lg: "op_logged (ls_wal e) op" "list_all entry_ok (numbered (wal_sequence (ls_wal e) + 1) (map op_call ops))"
    using Cons.prems(3) numbered_Cons [of "wal_sequence (ls_wal e)" "op_call op" "map op_call ops"]
    by (simp_all add: op_logged_def)
  obtain f where f: "op_ok op" "sst_write [op_item op] = Inr f" using Cons.prems(2,4) by auto
  note w = drained_write [OF Cons.prems(1) f(1) lg(1) f(2)]
  show ?case
  proof (cases "length (ls_l0 e) < 3")
    case True
    then obtain e' where e': "apply_op lsm_set lsm_delete e op = Inr e'" "drained e'"
      "length (ls_l0 e') = Suc (length (ls_l0 e))" "wal_sequence (ls_wal e') = wal_sequence (ls_wal e) + 1"
      using w by auto
    have "write_batch_seq lsm_set lsm_delete e' ops = Inl Deadlock"
      by (rule Cons.IH [OF e'(2)]) (use Cons.prems e' lg True in simp_all)
    then show ?thesis using e'(1) by simp
  qed (use w in simp)
qed simp

lemma lsm_flush_ok:
  assumes "lsm_wf e" "mt_data (ls_memtable e) \<noteq> []" "length (ls_l0 e) < 3"
    "sst_write (mt_items_sorted (ls_memtable e)) = Inr f"
  shows "\<exists>e'. lsm_flush e = Inr e' \<and> drained e' \<and> content e' = content e \<and>
    length (ls_l0 e') = Suc (length (ls_l0 e)) \<and> wal_sequence (ls_wal e') = wal_sequence (ls_wal e)"
proof -
  let ?e = "e\<lparr>ls_memtable := (ls_memtable e)\<lparr>mt_size_limit := 0\<rparr>\<rparr>"
  have wf: "lsm_wf ?e" using assms(1) by (simp add: lsm_wf_def mt_inv_def)
  have it: "mt_items_sorted (ls_memtable ?e) = mt_items_sorted (ls_memtable e)" by (simp add: mt_items_sorted_def)
  have ne: "mt_items_sorted (ls_memtable ?e) \<noteq> []"
    using assms(2) by (simp add: mt_items_sorted_def) (metis length_0_conv length_sorted_items)
  have inv: "\<not> ls_flush_lock ?e" "mt_inv (ls_memtable ?e)" using wf by (simp_all add: lsm_wf_def)
  have sf: "mt_should_flush (ls_memtable ?e)" by (rule should_flush_zero [OF inv(2)]) simp
  obtain rd where rd: "sst_load f = Inr rd" "flush_memtable ?e = Inr (flushed ?e f rd)"
    using flush_memtable_cases [OF inv sf ne] it assms(3,4) by auto
  have "lsm_flush e = Inr (flushed ?e f rd)"
    using rd(2) assms(2) by (simp add: lsm_flush_def mt_entry_count_def)
  moreover have "drained (flushed ?e f rd)" "content (flushed ?e f rd) = content ?e"
    using flushed_wf [OF wf _ rd(1)] it assms(4) by (simp_all add: drained_def)
  moreover have "content ?e = content e" by (simp add: fun_eq_iff content_def pairs_def mt_items_sorted_def)
  ultimately show ?thesis by (simp add: wal_truncate_def)
qed

text \<open>
  Self-deadlock (C34). Take any state the engine can be in with fewer than three level-0 tables and
  something in the MemTable, and call \<open>flush()\<close>, which lowers the flush threshold to 0 and leaves it
  there. Every later write then flushes a table of its own, and the write that makes the fourth table
  never returns: \<open>_flush_memtable\<close> holds the non-reentrant flush lock when it calls
  \<open>_compact_l0_to_l1\<close>, which acquires it again. No compaction is ever completed this way.
\<close>
theorem lsm_flush_then_deadlock:
  assumes "lsm_wf e" "mt_data (ls_memtable e) \<noteq> []" "length (ls_l0 e) < 3"
    "sst_write (mt_items_sorted (ls_memtable e)) = Inr f"
    "list_all op_ok ops" "list_all entry_ok (numbered (wal_sequence (ls_wal e)) (map op_call ops))"
    "list_all (\<lambda>op. \<exists>f. sst_write [op_item op] = Inr f) ops" "3 \<le> length (ls_l0 e) + length ops"
  shows "\<exists>e'. lsm_flush e = Inr e' \<and> write_batch_seq lsm_set lsm_delete e' ops = Inl Deadlock"
proof -
  obtain e' where e': "lsm_flush e = Inr e'" "drained e'" "length (ls_l0 e') = Suc (length (ls_l0 e))"
    "wal_sequence (ls_wal e') = wal_sequence (ls_wal e)"
    using lsm_flush_ok [OF assms(1-4)] by blast
  then show ?thesis using drained_deadlock [OF e'(2) assms(5)] assms(3,6-8) by simp
qed

lemma single_written:
  assumes "item_ok it" "json_ok (index_json (sparse 0 0 [it]))" "length (json_dumps (index_json (sparse 0 0 [it]))) < 2 ^ 32"
    "length (block [it]) < 2 ^ 63"
  shows "\<exists>f. sst_write [it] = Inr f"
  using sst_write_total [of "[it]"] assms by simp

lemma demo_item: "\<exists>f. sst_write [(str ''city'', str ''Oslo'')] = Inr f"
  by (rule single_written; code_simp)

lemma demo_engine:
  "\<exists>e f. lsm_set lsm_empty (str ''city'') (str ''Oslo'') = Inr e \<and> lsm_wf e \<and> mt_data (ls_memtable e) \<noteq> [] \<and>
     ls_l0 e = [] \<and> wal_sequence (ls_wal e) = 1 \<and> sst_write (mt_items_sorted (ls_memtable e)) = Inr f \<and>
     content e = [str ''city'' \<mapsto> str ''Oslo'']"
proof -
  let ?op = "wo_put (str ''city'') (str ''Oslo'')"
  have g: "op_ok ?op" "op_logged fresh_wal ?op" "wo_value ?op \<noteq> Some TOMBSTONE"
    using demo_op_guard by (auto simp: lsm_guard_def lsm_empty_def)
  obtain ix where ix: "bt_shape (si_tree ix)"
    "apply_op lsm_set lsm_delete lsm_empty ?op = maybe_flush (written lsm_empty ?op ix)"
    using lsm_write [OF lsm_empty_wf(1) g(1)] g(2) by (auto simp: lsm_empty_def)
  let ?e = "written lsm_empty ?op ix"
  have nf: "\<not> mt_should_flush (mem_op (memtable_new MEMTABLE_SIZE_LIMIT) ?op)" by code_simp
  have "mt_items_sorted (ls_memtable ?e) = [(str ''city'', str ''Oslo'')]"
    by (simp add: mem_op_drained lsm_empty_def memtable_new_def op_item_def) (simp add: wo_put_def)
  moreover have "\<exists>f. sst_write [(str ''city'', str ''Oslo'')] = Inr f" by (rule demo_item)
  moreover have "wal_sequence (append_all fresh_wal [op_call ?op]) = 1"
    using append_all_file [of fresh_wal "[op_call ?op]"] g(2) by (simp add: op_logged_def)
  moreover have "mt_data (mem_op (memtable_new MEMTABLE_SIZE_LIMIT) ?op) \<noteq> []" by code_simp
  ultimately show ?thesis
    using ix(2) nf written_wf [OF lsm_empty_wf(1) g(1,3) ix(1)] lsm_empty_wf(2)
    by (intro exI [of _ ?e]) (auto simp: maybe_flush_def lsm_empty_def)
qed

theorem lsm_flush_then_deadlock_witness:
  "\<exists>e e'. lsm_set lsm_empty (str ''city'') (str ''Oslo'') = Inr e \<and> lsm_flush e = Inr e' \<and>
     write_batch_seq lsm_set lsm_delete e' [wo_put (str ''a'') [], wo_put (str ''b'') [], wo_delete (str ''a'')] = Inl Deadlock"
proof -
  obtain e f where e: "lsm_set lsm_empty (str ''city'') (str ''Oslo'') = Inr e" "lsm_wf e" "mt_data (ls_memtable e) \<noteq> []"
    "ls_l0 e = []" "wal_sequence (ls_wal e) = 1" "sst_write (mt_items_sorted (ls_memtable e)) = Inr f"
    using demo_engine by blast
  let ?ops = "[wo_put (str ''a'') [], wo_put (str ''b'') [], wo_delete (str ''a'')]"
  have ops: "list_all op_ok ?ops" "list_all entry_ok (numbered 1 (map op_call ?ops))" by code_simp+
  have "\<exists>f. sst_write [(str ''a'', [])] = Inr f" "\<exists>f. sst_write [(str ''b'', [])] = Inr f"
    "\<exists>f. sst_write [(str ''a'', TOMBSTONE)] = Inr f"
    by (rule single_written; code_simp)+
  then have "list_all (\<lambda>op. \<exists>f. sst_write [op_item op] = Inr f) ?ops"
    by (simp add: op_item_def wo_put_def wo_delete_def)
  then show ?thesis using lsm_flush_then_deadlock [OF e(2,3) _ e(6) ops(1)] ops(2) e(1,4,5) by auto
qed

theorem lsm_compaction_preserves_witness:
  "\<exists>e e' e''. lsm_set lsm_empty (str ''city'') (str ''Oslo'') = Inr e \<and> lsm_flush e = Inr e' \<and>
     compact_l0_to_l1 e' = Inr e'' \<and> ls_l0 e'' = []"
proof -
  obtain e f where e: "lsm_set lsm_empty (str ''city'') (str ''Oslo'') = Inr e" "lsm_wf e" "mt_data (ls_memtable e) \<noteq> []"
    "ls_l0 e = []" "sst_write (mt_items_sorted (ls_memtable e)) = Inr f" "content e = [str ''city'' \<mapsto> str ''Oslo'']"
    using demo_engine by blast
  have n: "length (ls_l0 e) < 3" using e(4) by simp
  obtain e' where e': "lsm_flush e = Inr e'" "drained e'" "content e' = content e" "ls_l0 e' \<noteq> []"
    using lsm_flush_ok [OF e(2,3) n e(5)] by fastforce
  have wf: "lsm_wf e'" using e'(2) by (simp add: drained_def)
  have "content (tables_only e') = content e'"
    using e'(2) by (simp add: drained_def fun_eq_iff content_def pairs_def mt_items_sorted_def mt_clear_def)
  then have "view (tables_only e') = [(str ''city'', str ''Oslo'')]"
    by (intro sorted_pairs_unique) (simp_all add: view_ok e'(3) e(6))
  moreover obtain f' where "sst_write [(str ''city'', str ''Oslo'')] = Inr f'"
    using demo_item by blast
  ultimately show ?thesis using lsm_compaction_preserves [OF wf e'(4)] e(1) e'(1) by fastforce
qed

end
