(* ===== verification/Lsm_Recovery.thy ===== *)
theory Lsm_Recovery
  imports Lsm_Map
begin

text \<open>
  Restart of the LSM engine. The engines that runs of the program produce are the inductive predicate
  \<open>lsm_reach\<close>; its invariant says that the files alone determine what the engine reads. From it follow
  recovery after a crash at any byte of an append and the atomicity of batches. The last theorem shows
  how a write made after such a crash is lost.
\<close>

section \<open>File names\<close>

lemma append_less_iff: "length xs = length ys \<Longrightarrow> xs @ zs < ys @ zs \<longleftrightarrow> xs < (ys :: nat list)"
  by (induction xs ys rule: list_induct2) auto

lemma prefix_less_iff: "zs @ xs < zs @ ys \<longleftrightarrow> xs < (ys :: nat list)"
  by (induction zs) auto

lemma sst_name_less:
  assumes "p < 1000000" "q < 1000000"
  shows "sst_name l p < sst_name l q \<longleftrightarrow> p < q"
proof -
  have "length (zero_pad 6 (str_of_nat k)) = 6" if "k < 1000000" for k
    using length_dec_digits [of k 6] that by (simp add: zero_pad_def str_of_nat_def)
  then have "length (zero_pad 6 (str_of_nat p)) = length (zero_pad 6 (str_of_nat q))" using assms by simp
  then show ?thesis using zero_pad_less [of p 6 q] assms
    by (simp add: sst_name_def prefix_less_iff append_less_iff)
qed

lemma name_sequence_ok:
  assumes "l \<le> 1"
  shows "name_sequence (sst_name l q) = Inr (int q)"
proof -
  let ?d = "zero_pad 6 (str_of_nat q)"
  have d: "list_all is_digit ?d" by (rule zero_pad_digits)
  then have no: "95 \<notin> set ?d" "46 \<notin> set ?d" by (auto simp: list_all_iff is_digit_def)
  have l: "95 \<notin> set (108 # str_of_nat l)" using assms by (auto simp: le_Suc_eq str_of_digit)
  have "sst_name l q = [115, 115, 116] @ 95 # (108 # str_of_nat l) @ 95 # ?d @ [46, 115, 115, 116]"
    by (simp add: sst_name_def str_def)
  then have "py_split 95 (sst_name l q) = [[115, 115, 116], 108 # str_of_nat l, ?d @ [46, 115, 115, 116]]"
    using l no(1) by (simp only:) (subst py_split_append, simp, subst py_split_append, simp, subst py_split_no, auto)
  moreover have "py_split 46 (?d @ [46, 115, 115, 116]) = [?d, [115, 115, 116]]"
    by (subst py_split_append [OF no(2)]) simp
  ultimately show ?thesis
    using py_int_digits [OF d zero_pad_digits(2)] by (simp add: name_sequence_def nth_err_def zero_pad_digits(3))
qed

definition matches :: "nat \<Rightarrow> pystr \<Rightarrow> bool" where
  "matches l n \<longleftrightarrow>
     (let pre = str ''sst_l'' @ str_of_nat l @ str ''_''; post = str ''.sst''
      in length pre + length post \<le> length n \<and> prefix_of pre n \<and> prefix_of (rev post) (rev n))"

lemma level_files_matches: "level_files fs l = sort (filter (matches l) (dict_keys fs))"
  by (simp add: level_files_def matches_def [abs_def] Let_def)

lemma matches_name:
  assumes "l \<le> 1" "l' \<le> 1"
  shows "matches l (sst_name l' q) \<longleftrightarrow> l = l'"
proof
  assume "matches l (sst_name l' q)"
  then show "l = l'" using assms
    by (auto simp: matches_def prefix_of_def sst_name_def Let_def str_def str_of_digit le_Suc_eq)
next
  assume "l = l'"
  then show "matches l (sst_name l' q)" by (simp add: matches_def prefix_of_def sst_name_def Let_def)
qed

lemma level_files_ok:
  assumes wf: "lsm_wf e" and n: "ls_sst_sequence e \<le> 1000000"
  shows "level_files (ls_files e) 0 = map fst (ls_l0 e)" "level_files (ls_files e) 1 = map fst (ls_l1 e)"
proof -
  obtain qs0 where q0: "map fst (ls_l0 e) = map (sst_name 0) qs0" "sorted_wrt (<) qs0" "\<forall>q\<in>set qs0. q < ls_sst_sequence e"
    using wf by (auto simp: lsm_wf_def named_def)
  obtain qs1 where q1: "map fst (ls_l1 e) = map (sst_name 1) qs1" "sorted_wrt (<) qs1" "\<forall>q\<in>set qs1. q < ls_sst_sequence e"
    using wf by (auto simp: lsm_wf_def named_def)
  have keys: "set (dict_keys (ls_files e)) = sst_name 0 ` set qs0 \<union> sst_name 1 ` set qs1"
    using wf arg_cong [OF q0(1), of set] arg_cong [OF q1(1), of set] by (simp add: lsm_wf_def image_Un)
  have dk: "distinct (dict_keys (ls_files e))" using wf by (simp add: lsm_wf_def dict_wf_def)
  have srt: "sorted_wrt (<) (map (sst_name l) qs)" if "sorted_wrt (<) qs" "\<forall>q\<in>set qs. q < ls_sst_sequence e" for l qs
    unfolding sorted_wrt_map using that n
    by (intro sorted_wrt_mono_rel [OF _ that(1)]) (auto intro!: sst_name_less [THEN iffD2])
  have *: "level_files (ls_files e) l = map (sst_name l) qs"
    if "set (filter (matches l) (dict_keys (ls_files e))) = sst_name l ` set qs" "sorted_wrt (<) qs"
      "\<forall>q\<in>set qs. q < ls_sst_sequence e" for l qs
    unfolding level_files_matches
    using srt [OF that(2,3), of l] that(1) dk
    by (intro sorted_distinct_set_unique) (auto simp: strict_sorted_iff)
  show "level_files (ls_files e) 0 = map fst (ls_l0 e)"
    unfolding q0(1) by (rule *) (use keys q0 in \<open>auto simp: matches_name\<close>)
  show "level_files (ls_files e) 1 = map fst (ls_l1 e)"
    unfolding q1(1) by (rule *) (use keys q1 in \<open>auto simp: matches_name\<close>)
qed

lemma load_tables_ok:
  assumes "list_all (table_ok fs) ts" "map fst ts = map (sst_name l) qs" "l \<le> 1"
  shows "\<exists>n'. load_tables fs (map fst ts) (acc, n) = (acc @ ts, n') \<and> n \<le> n' \<and> (\<forall>q\<in>set qs. q < n') \<and>
    (\<forall>b. n \<le> b \<and> (\<forall>q\<in>set qs. q < b) \<longrightarrow> n' \<le> b)"
  using assms
proof (induction ts arbitrary: qs acc n)
  case (Cons t ts)
  obtain p rd where t: "t = (p, rd)" by (cases t)
  obtain q qs' where qs: "qs = q # qs'" "p = sst_name l q" "map fst ts = map (sst_name l) qs'"
    using Cons.prems(2) t by auto
  obtain f where f: "dict_get fs p = Some f" "sst_load f = Inr rd"
    using Cons.prems(1) t by (auto simp: table_ok_def)
  let ?n = "if q \<ge> n then Suc q else n"
  obtain n' where n': "load_tables fs (map fst ts) (acc @ [t], ?n) = ((acc @ [t]) @ ts, n')" "?n \<le> n'" "\<forall>q\<in>set qs'. q < n'"
    "\<forall>b. ?n \<le> b \<and> (\<forall>q\<in>set qs'. q < b) \<longrightarrow> n' \<le> b"
    using Cons.IH [OF _ qs(3) assms(3), of "acc @ [t]" ?n] Cons.prems(1) by auto
  have "load_tables fs (map fst (t # ts)) (acc, n) = load_tables fs (map fst ts) (acc @ [t], ?n)"
    using f name_sequence_ok [OF assms(3), of q] by (simp add: t qs(2) nat_add_distrib)
  then show ?case using n' qs(1) by (intro exI [of _ n']) (auto split: if_splits)
qed simp

section \<open>Opening\<close>

lemma si_add_all_shape:
  "bt_shape (si_tree s) \<Longrightarrow> \<exists>s'. si_add_all s kvs = Inr s' \<and> bt_shape (si_tree s')"
proof (induction kvs arbitrary: s)
  case (Cons kv kvs)
  obtain k v where kv: "kv = (k, v)" by (cases kv)
  obtain s1 where "si_add s k v = Inr s1" "bt_shape (si_tree s1)" using si_add_shape [OF Cons.prems] by blast
  then show ?case using Cons.IH [of s1] kv by simp
qed simp

lemma apply_wal_entry_inv: "mt_inv m \<Longrightarrow> mt_inv (apply_wal_entry m e)"
  by (simp add: apply_wal_entry_def mt_inv_set mt_inv_delete)

lemma foldl_apply_inv: "mt_inv m \<Longrightarrow> mt_inv (foldl apply_wal_entry m es)"
  by (induction es arbitrary: m) (simp_all add: apply_wal_entry_inv)

lemma replay_inv: "mt_inv (fst s) \<Longrightarrow> mt_inv (fst (replay_wal s es))"
  by (induction s es rule: replay_wal.induct) (auto simp: apply_wal_entry_inv foldl_apply_inv)

lemma replay_append: "replay_wal s (xs @ ys) = replay_wal (replay_wal s xs) ys"
  by (induction s xs rule: replay_wal.induct) simp_all

abbreviation replay :: "wal_entry list \<Rightarrow> memtable \<times> bool \<times> wal_entry list" where
  "replay es \<equiv> replay_wal (memtable_new MEMTABLE_SIZE_LIMIT, False, []) es"

text \<open>The engine opened on the tables of an engine and a log that reads as \<open>es\<close>.\<close>

lemma lsm_open_ok:
  assumes wf: "lsm_wf e" and n: "ls_sst_sequence e \<le> 1000000" and r: "wal_read log_bytes = (es, None)"
  shows "\<exists>e'. lsm_open (ls_files e) log_bytes = Inr e' \<and> lsm_wf e' \<and> ls_sst_sequence e' \<le> 1000000 \<and>
    ls_files e' = ls_files e \<and> ls_l0 e' = ls_l0 e \<and> ls_l1 e' = ls_l1 e \<and>
    ls_memtable e' = fst (replay es) \<and> ls_wal e' = \<lparr>wal_file = log_bytes, wal_sequence = next_sequence 0 es\<rparr>"
proof -
  let ?fs = "ls_files e" and ?N = "ls_sst_sequence e"
  obtain qs0 where q0: "map fst (ls_l0 e) = map (sst_name 0) qs0" "sorted_wrt (<) qs0" "\<forall>q\<in>set qs0. q < ?N"
    using wf by (auto simp: lsm_wf_def named_def)
  obtain qs1 where q1: "map fst (ls_l1 e) = map (sst_name 1) qs1" "sorted_wrt (<) qs1" "\<forall>q\<in>set qs1. q < ?N"
    using wf by (auto simp: lsm_wf_def named_def)
  have t: "list_all (table_ok ?fs) (ls_l0 e)" "list_all (table_ok ?fs) (ls_l1 e)" using wf by (auto simp: lsm_wf_def)
  obtain n0 where n0: "load_tables ?fs (level_files ?fs 0) ([], 0) = (ls_l0 e, n0)" "\<forall>q\<in>set qs0. q < n0" "n0 \<le> ?N"
    using load_tables_ok [OF t(1) q0(1), of "[]" 0] level_files_ok [OF wf n] q0(3) by auto
  obtain n1 where n1: "load_tables ?fs (level_files ?fs 1) ([], n0) = (ls_l1 e, n1)" "n0 \<le> n1" "\<forall>q\<in>set qs1. q < n1" "n1 \<le> ?N"
    using load_tables_ok [OF t(2) q1(1), of "[]" n0] level_files_ok [OF wf n] q1(3) n0(3) by auto
  define e1 where "e1 = \<lparr>ls_files = ?fs, ls_wal = \<lparr>wal_file = log_bytes, wal_sequence = next_sequence 0 es\<rparr>,
    ls_memtable = fst (replay es), ls_l0 = ls_l0 e, ls_l1 = ls_l1 e, ls_sst_sequence = n1,
    ls_value_index = si_new, ls_flush_lock = False\<rparr>"
  have m: "mt_inv (fst (replay es))" by (rule replay_inv) (simp add: mt_inv_new)
  have sh: "bt_shape (si_tree si_new)" using bt_new_wf [of 16] by (simp add: si_new_def bt_wf_def)
  have nm: "named 0 n1 (ls_l0 e)" "named 1 n1 (ls_l1 e)"
    using q0 q1 n0 n1 unfolding named_def by (meson order_less_le_trans)+
  have w1: "lsm_wf e1" using wf m sh nm by (simp add: lsm_wf_def e1_def)
  obtain ix where ix: "si_add_all si_new (filter (\<lambda>(k, v). [] \<le> k \<and> k \<le> chr 1114111) (view e1)) = Inr ix" "bt_shape (si_tree ix)"
    using si_add_all_shape [OF sh] by blast
  have "lsm_open ?fs log_bytes = Inr (e1\<lparr>ls_value_index := ix\<rparr>)"
    using n0(1) n1(1) r ix(1) lsm.scan_view [OF w1, of "[]" "chr 1114111"]
    by (simp add: lsm_open_def wal_open_def wal_read_all_def Let_def e1_def)
  moreover have "lsm_wf (e1\<lparr>ls_value_index := ix\<rparr>)" using w1 ix(2) by (simp add: lsm_wf_def)
  ultimately show ?thesis using n n1(4) by (simp add: e1_def)
qed

section \<open>Durable states\<close>

text \<open>The log reads back without error, ends outside a batch, and replays to the MemTable.\<close>

definition durable :: "lsm \<Rightarrow> bool" where
  "durable e \<longleftrightarrow> (\<exists>es m. list_all entry_ok es \<and> wal_file (ls_wal e) = log_of es \<and>
     replay es = (m, False, []) \<and> mt_data m = mt_data (ls_memtable e))"

lemma mem_op_data: "mt_data m = mt_data m' \<Longrightarrow> mt_data (mem_op m op) = mt_data (mem_op m' op)"
  by (cases "wo_value op") (simp_all add: mem_op_def mt_set_def mt_delete_def Let_def)

lemma foldl_mem_op_data:
  "mt_data m = mt_data m' \<Longrightarrow> mt_data (foldl mem_op m ops) = mt_data (foldl mem_op m' ops)"
proof (induction ops arbitrary: m m')
  case (Cons op ops)
  show ?case using Cons.IH [OF mem_op_data [OF Cons.prems]] by simp
qed simp

lemma op_entry:
  assumes "op_ok op" "op_call op = (opn, key, val)"
  shows "apply_wal_entry m (mk_entry q opn key val) = mem_op m op"
    "opn \<noteq> str ''BEGIN''" "opn \<noteq> str ''COMMIT''"
  using assms by (auto simp: op_call_def apply_wal_entry_def mem_op_def mk_entry_def op_ok_def str_def split: if_splits)

lemma log_of_append: "log_of (xs @ ys) = log_of xs @ log_of ys"
  by (simp add: log_of_def)

lemma durable_extend:
  assumes "durable e" "list_all entry_ok (numbered (wal_sequence (ls_wal e)) cs)"
    "\<And>m. mt_data m = mt_data (ls_memtable e) \<Longrightarrow>
       \<exists>m'. replay_wal (m, False, []) (numbered (wal_sequence (ls_wal e)) cs) = (m', False, []) \<and> mt_data m' = mt_data mem"
    "ls_wal e' = append_all (ls_wal e) cs" "ls_memtable e' = mem"
  shows "durable e'"
proof -
  obtain es m where es: "list_all entry_ok es" "wal_file (ls_wal e) = log_of es" "replay es = (m, False, [])"
    "mt_data m = mt_data (ls_memtable e)" using assms(1) by (auto simp: durable_def)
  have "wal_file (ls_wal e') = log_of (es @ numbered (wal_sequence (ls_wal e)) cs)"
    using append_all_file [OF assms(2)] es(2) by (simp add: assms(4) log_of_append)
  then show ?thesis unfolding durable_def
    using es(1,3) assms(2,5) assms(3) [OF es(4)] by (metis list_all_append replay_append)
qed

lemma written_durable:
  assumes "durable e" "op_ok op" "op_logged (ls_wal e) op"
  shows "durable (written e op ix)"
proof (rule durable_extend [OF assms(1), of "[op_call op]"])
  obtain opn key val where c: "op_call op = (opn, key, val)" using prod_cases3 by blast
  show "\<exists>m'. replay_wal (m, False, []) (numbered (wal_sequence (ls_wal e)) [op_call op]) = (m', False, []) \<and>
      mt_data m' = mt_data (mem_op (ls_memtable e) op)" if "mt_data m = mt_data (ls_memtable e)" for m
    using op_entry [OF assms(2) c] mem_op_data [OF that, of op] by (simp add: c mk_entry_def)
qed (use assms(3) in \<open>simp_all add: op_logged_def\<close>)

lemma flushed_durable: "durable (flushed e f rd)"
  unfolding durable_def
  by (intro exI [of _ "[]"]) (simp add: wal_truncate_def log_of_def memtable_new_def)

section \<open>Batches\<close>

lemma log_calls_ok: "list_all entry_ok (numbered (wal_sequence w) cs) \<Longrightarrow> log_calls w cs = Inr (append_all w cs)"
proof (induction w cs rule: append_all.induct)
  case (2 w opn key val cs)
  then show ?case by (simp add: wal_append_ok)
qed simp

lemma stepped_wf:
  assumes "lsm_wf e" "op_ok op" "bt_shape (si_tree ix)"
  shows "lsm_wf (e\<lparr>ls_memtable := mem_op (ls_memtable e) op, ls_value_index := ix\<rparr>)"
    "wo_value op \<noteq> Some TOMBSTONE \<Longrightarrow>
       content (e\<lparr>ls_memtable := mem_op (ls_memtable e) op, ls_value_index := ix\<rparr>) = op_effect op (content e)"
proof -
  show "lsm_wf (e\<lparr>ls_memtable := mem_op (ls_memtable e) op, ls_value_index := ix\<rparr>)"
    using assms by (simp add: lsm_wf_def mem_op_inv)
  have "content (e\<lparr>ls_memtable := mem_op (ls_memtable e) op, ls_value_index := ix\<rparr>) = content (written e op ix)"
    by (simp add: fun_eq_iff content_def pairs_def)
  then show "wo_value op \<noteq> Some TOMBSTONE \<Longrightarrow>
      content (e\<lparr>ls_memtable := mem_op (ls_memtable e) op, ls_value_index := ix\<rparr>) = op_effect op (content e)"
    using written_wf [OF assms(1,2) _ assms(3)] by simp
qed

lemma apply_batch_step:
  assumes wf: "lsm_wf e" and op: "op_ok op" "list_all is_scalar (wo_key op)"
  shows "\<exists>ix. bt_shape (si_tree ix) \<and> apply_batch e (op # ops) =
    apply_batch (e\<lparr>ls_memtable := mem_op (ls_memtable e) op, ls_value_index := ix\<rparr>) ops"
proof -
  have ix: "bt_shape (si_tree (ls_value_index e))" using wf by (simp add: lsm_wf_def)
  have get: "lsm_get e (wo_key op) = Inr (content e (wo_key op))" by (rule wf_get [OF wf op(2)])
  show ?thesis
  proof (cases "wo_is_delete op")
    case True
    obtain s where "(case content e (wo_key op) of Some v \<Rightarrow> si_remove (ls_value_index e) (wo_key op) v
        | None \<Rightarrow> Inr (ls_value_index e)) = Inr s" "bt_shape (si_tree s)"
      using si_remove_shape [OF ix] ix by (cases "content e (wo_key op)") auto
    then show ?thesis using True get by (intro exI [of _ s]) (simp add: mem_op_def)
  next
    case False
    then obtain v where v: "wo_value op = Some v" using op(1) by (auto simp: op_ok_def)
    obtain s where "si_update (ls_value_index e) (wo_key op) (content e (wo_key op)) v = Inr s" "bt_shape (si_tree s)"
      using si_update_shape [OF ix] by blast
    then show ?thesis using False v get by (intro exI [of _ s]) (simp add: mem_op_def)
  qed
qed

lemma apply_batch_ok:
  assumes "lsm_wf e" "list_all op_ok ops" "list_all (\<lambda>op. list_all is_scalar (wo_key op)) ops"
  shows "\<exists>ix. apply_batch e ops = Inr (e\<lparr>ls_memtable := foldl mem_op (ls_memtable e) ops, ls_value_index := ix\<rparr>) \<and>
    lsm_wf (e\<lparr>ls_memtable := foldl mem_op (ls_memtable e) ops, ls_value_index := ix\<rparr>) \<and>
    (list_all (\<lambda>op. wo_value op \<noteq> Some TOMBSTONE) ops \<longrightarrow>
      content (e\<lparr>ls_memtable := foldl mem_op (ls_memtable e) ops, ls_value_index := ix\<rparr>) = fold op_effect ops (content e))"
  using assms
proof (induction ops arbitrary: e)
  case Nil
  then show ?case by (intro exI [of _ "ls_value_index e"]) simp
next
  case (Cons op ops)
  have op: "op_ok op" "list_all is_scalar (wo_key op)" "list_all op_ok ops"
    "list_all (\<lambda>op. list_all is_scalar (wo_key op)) ops" using Cons.prems by simp_all
  obtain ix where ix: "bt_shape (si_tree ix)" "apply_batch e (op # ops) =
      apply_batch (e\<lparr>ls_memtable := mem_op (ls_memtable e) op, ls_value_index := ix\<rparr>) ops"
    using apply_batch_step [OF Cons.prems(1) op(1,2)] by blast
  note st = stepped_wf [OF Cons.prems(1) op(1) ix(1)]
  show ?case using Cons.IH [OF st(1) op(3,4)] ix(2) st(2) by auto
qed

lemma foldl_apply_calls:
  "list_all op_ok ops \<Longrightarrow> foldl apply_wal_entry m (numbered q (map op_call ops)) = foldl mem_op m ops"
proof (induction ops arbitrary: m q)
  case (Cons op ops)
  obtain opn key val where c: "op_call op = (opn, key, val)" using prod_cases3 by blast
  show ?case using Cons op_entry(1) [OF _ c] by (simp add: c)
qed simp

lemma replay_in_batch:
  "list_all op_ok ops \<Longrightarrow>
     replay_wal (m, True, b) (numbered q (map op_call ops)) = (m, True, b @ numbered q (map op_call ops))"
proof (induction ops arbitrary: b q)
  case (Cons op ops)
  obtain opn key val where c: "op_call op = (opn, key, val)" using prod_cases3 by blast
  show ?case using Cons op_entry(2,3) [OF _ c] by (simp add: c mk_entry_def)
qed simp

lemma batch_numbered:
  "numbered q (batch_calls ops) = mk_entry q (str ''BEGIN'') [] None # numbered (q + 1) (map op_call ops) @
     [mk_entry (q + 1 + int (length ops)) (str ''COMMIT'') [] None]"
  by (simp add: batch_calls_def numbered_append)

lemma replay_batch:
  "list_all op_ok ops \<Longrightarrow> replay_wal (m, False, []) (numbered q (batch_calls ops)) = (foldl mem_op m ops, False, [])"
  by (simp add: batch_numbered replay_append replay_in_batch foldl_apply_calls mk_entry_def str_def)

text \<open>A batch without its last entry changes nothing.\<close>

lemma replay_open_batch:
  assumes "list_all op_ok ops"
  shows "replay_wal (m, False, []) (mk_entry q (str ''BEGIN'') [] None # numbered q' (map op_call ops)) =
    (m, True, numbered q' (map op_call ops))"
  using replay_in_batch [OF assms] by (simp add: mk_entry_def str_def)

lemma numbered_take: "take n (numbered q cs) = numbered q (take n cs)"
proof (induction cs arbitrary: n q)
  case (Cons c cs)
  then show ?case by (cases c; cases n) simp_all
qed simp

lemma replay_cut_batch:
  assumes "list_all op_ok ops" "n < length (numbered q (batch_calls ops))"
  shows "fst (replay_wal (m, False, []) (take n (numbered q (batch_calls ops)))) = m"
proof (cases n)
  case (Suc i)
  have "length (numbered q cs) = length cs" for q cs by (induction q cs rule: numbered.induct) simp_all
  then have "i \<le> length ops" using assms(2) Suc by (simp add: batch_numbered)
  then have "take n (numbered q (batch_calls ops)) =
      mk_entry q (str ''BEGIN'') [] None # numbered (q + 1) (map op_call (take i ops))"
    using \<open>\<And>q cs. length (numbered q cs) = length cs\<close>
    by (simp add: Suc batch_numbered numbered_take take_map)
  moreover have "list_all op_ok (take i ops)" using assms(1) by (auto simp: list_all_iff dest: in_set_takeD)
  ultimately show ?thesis by (simp only: replay_open_batch fst_conv)
qed simp

lemma wal_read_cut:
  assumes "list_all entry_ok (es @ fs)" "k < length (log_of fs)"
  shows "\<exists>n < length fs. wal_read (log_of es @ take k (log_of fs)) = (es @ take n fs, None)"
  using assms
proof (induction fs arbitrary: es k)
  case (Cons e fs)
  have ok: "list_all entry_ok es" "entry_ok e" using Cons.prems(1) by simp_all
  have l: "log_of (e # fs) = frame e @ log_of fs" by (simp add: log_of_def)
  show ?case
  proof (cases "k < length (frame e)")
    case True
    then show ?thesis using wal_read_log_torn [OF ok, of k "[]"] by (intro exI [of _ 0]) (simp add: l)
  next
    case False
    then have "k - length (frame e) < length (log_of fs)" using Cons.prems(2) by (simp add: l)
    then obtain n where n: "n < length fs"
      "wal_read (log_of (es @ [e]) @ take (k - length (frame e)) (log_of fs)) = ((es @ [e]) @ take n fs, None)"
      using Cons.IH [of "es @ [e]" "k - length (frame e)"] Cons.prems(1) by auto
    then show ?thesis using False by (intro exI [of _ "Suc n"]) (simp add: l log_of_def)
  qed
qed (simp add: log_of_def)

section \<open>Reachable engines\<close>

text \<open>
  The engines that runs of the program produce: an engine opened on an empty directory, and after any
  successful write, batch, flush, compaction or restart of a reachable one. Batches and writes are
  those whose log entries are encodable. The sequence number of the tables stays within six digits,
  beyond which their names no longer sort by age.
\<close>

inductive lsm_reach :: "lsm \<Rightarrow> bool" where
  reach_empty: "lsm_open [] [] = Inr e \<Longrightarrow> lsm_reach e"
| reach_write: "lsm_reach e \<Longrightarrow> op_ok op \<Longrightarrow> op_logged (ls_wal e) op \<Longrightarrow>
    apply_op lsm_set lsm_delete e op = Inr e' \<Longrightarrow> ls_sst_sequence e' \<le> 1000000 \<Longrightarrow> lsm_reach e'"
| reach_batch: "lsm_reach e \<Longrightarrow> list_all op_ok ops \<Longrightarrow>
    list_all entry_ok (numbered (wal_sequence (ls_wal e)) (batch_calls ops)) \<Longrightarrow>
    lsm_write_batch e ops = Inr e' \<Longrightarrow> ls_sst_sequence e' \<le> 1000000 \<Longrightarrow> lsm_reach e'"
| reach_flush: "lsm_reach e \<Longrightarrow> lsm_flush e = Inr e' \<Longrightarrow> ls_sst_sequence e' \<le> 1000000 \<Longrightarrow> lsm_reach e'"
| reach_compact: "lsm_reach e \<Longrightarrow> sst_write (view (tables_only e)) = Inr f \<Longrightarrow> compact_l0_to_l1 e = Inr e' \<Longrightarrow>
    ls_sst_sequence e' \<le> 1000000 \<Longrightarrow> lsm_reach e'"
| reach_restart: "lsm_reach e \<Longrightarrow> lsm_open (ls_files e) (wal_file (ls_wal e)) = Inr e' \<Longrightarrow> lsm_reach e'"

definition lsm_inv :: "lsm \<Rightarrow> bool" where
  "lsm_inv e \<longleftrightarrow> lsm_wf e \<and> durable e"

lemma flush_memtable_Inr:
  assumes wf: "lsm_inv e" and r: "flush_memtable e = Inr e'"
  shows "lsm_inv e'"
proof -
  have l: "\<not> ls_flush_lock e" "mt_inv (ls_memtable e)" "lsm_wf e" using wf by (auto simp: lsm_inv_def lsm_wf_def)
  have same: "e\<lparr>ls_flush_lock := False\<rparr> = e" using l(1) by simp
  consider "\<not> mt_should_flush (ls_memtable e) \<or> mt_items_sorted (ls_memtable e) = []"
    | "mt_should_flush (ls_memtable e)" "mt_items_sorted (ls_memtable e) \<noteq> []" by blast
  then show ?thesis
  proof cases
    case 1
    then have "e' = e\<lparr>ls_flush_lock := False\<rparr>"
      using r l(1) by (auto simp: flush_memtable_def with_flush_lock_def Let_def split: if_splits)
    then show ?thesis using wf same by simp
  next
    case 2
    then obtain f where f: "sst_write (mt_items_sorted (ls_memtable e)) = Inr f"
      using r l(1) by (auto simp: flush_memtable_def with_flush_lock_def Let_def)
    obtain rd where rd: "sst_load f = Inr rd" "e' = flushed e f rd"
      using flush_memtable_cases [OF l(1,2) 2 f] r by (auto split: if_splits)
    then show ?thesis using flushed_wf [OF l(3) f rd(1)] flushed_durable by (simp add: lsm_inv_def)
  qed
qed

lemma maybe_flush_Inr: "lsm_inv e \<Longrightarrow> maybe_flush e = Inr e' \<Longrightarrow> lsm_inv e'"
  using flush_memtable_Inr by (auto simp: maybe_flush_def split: if_splits)

lemma batch_scalars:
  "list_all entry_ok (numbered q (batch_calls ops)) \<Longrightarrow> list_all (\<lambda>op. list_all is_scalar (wo_key op)) ops"
proof -
  have "list_all entry_ok (numbered q (map op_call ops)) \<Longrightarrow> list_all (\<lambda>op. list_all is_scalar (wo_key op)) ops" for q
  proof (induction ops arbitrary: q)
    case (Cons op ops)
    then show ?case using numbered_Cons [of q "op_call op" "map op_call ops"]
      by (auto simp: op_call_def entry_ok_def mk_entry_def split: if_splits)
  qed simp
  from this [of "q + 1"]
  show "list_all entry_ok (numbered q (batch_calls ops)) \<Longrightarrow> list_all (\<lambda>op. list_all is_scalar (wo_key op)) ops"
    by (simp add: batch_numbered)
qed

lemma lsm_write_batch_eq:
  assumes wf: "lsm_inv e" and ops: "list_all op_ok ops"
    "list_all entry_ok (numbered (wal_sequence (ls_wal e)) (batch_calls ops))"
  shows "\<exists>e'. lsm_write_batch e ops = maybe_flush e' \<and> lsm_inv e' \<and> ls_l0 e' = ls_l0 e \<and>
    ls_memtable e' = foldl mem_op (ls_memtable e) ops \<and>
    (list_all (\<lambda>op. wo_value op \<noteq> Some TOMBSTONE) ops \<longrightarrow> content e' = fold op_effect ops (content e))"
proof -
  let ?e = "e\<lparr>ls_wal := append_all (ls_wal e) (batch_calls ops)\<rparr>"
  have w: "lsm_wf ?e" using wf by (simp add: lsm_inv_def lsm_wf_def)
  have c: "content ?e = content e" by (simp add: fun_eq_iff content_def pairs_def)
  let ?E = "\<lambda>ix. ?e\<lparr>ls_memtable := foldl mem_op (ls_memtable e) ops, ls_value_index := ix\<rparr>"
  obtain ix where ix: "apply_batch ?e ops = Inr (?E ix)" "lsm_wf (?E ix)"
    "list_all (\<lambda>op. wo_value op \<noteq> Some TOMBSTONE) ops \<longrightarrow> content (?E ix) = fold op_effect ops (content e)"
    using apply_batch_ok [OF w ops(1) batch_scalars [OF ops(2)]] c by auto
  have "durable (?E ix)"
  proof (rule durable_extend [OF _ ops(2)])
    show "durable e" using wf by (simp add: lsm_inv_def)
    show "\<exists>m'. replay_wal (m, False, []) (numbered (wal_sequence (ls_wal e)) (batch_calls ops)) = (m', False, []) \<and>
        mt_data m' = mt_data (foldl mem_op (ls_memtable e) ops)" if "mt_data m = mt_data (ls_memtable e)" for m
      using replay_batch [OF ops(1)] foldl_mem_op_data [OF that, of ops] by simp
  qed simp_all
  then show ?thesis using ix log_calls_ok [OF ops(2)]
    by (intro exI [of _ "?E ix"]) (simp add: lsm_write_batch_def lsm_inv_def)
qed

lemma content_same:
  assumes "mt_data (ls_memtable e') = mt_data (ls_memtable e)" "ls_files e' = ls_files e" "ls_l0 e' = ls_l0 e" "ls_l1 e' = ls_l1 e"
  shows "content e' = content e"
  using assms by (simp add: fun_eq_iff content_def pairs_def mt_items_sorted_def)

text \<open>A restart on a log that replays to the MemTable of the engine.\<close>

lemma lsm_restart:
  assumes wf: "lsm_wf e" "ls_sst_sequence e \<le> 1000000" and r: "wal_read log_bytes = (es, None)"
    "mt_data (fst (replay es)) = mt_data (ls_memtable e)"
  shows "\<exists>e'. lsm_open (ls_files e) log_bytes = Inr e' \<and> lsm_wf e' \<and> content e' = content e \<and>
    ls_sst_sequence e' \<le> 1000000 \<and> ls_memtable e' = fst (replay es) \<and>
    ls_wal e' = \<lparr>wal_file = log_bytes, wal_sequence = next_sequence 0 es\<rparr>"
proof -
  obtain e' where e': "lsm_open (ls_files e) log_bytes = Inr e'" "lsm_wf e'" "ls_sst_sequence e' \<le> 1000000"
    "ls_files e' = ls_files e" "ls_l0 e' = ls_l0 e" "ls_l1 e' = ls_l1 e" "ls_memtable e' = fst (replay es)"
    "ls_wal e' = \<lparr>wal_file = log_bytes, wal_sequence = next_sequence 0 es\<rparr>"
    using lsm_open_ok [OF wf r(1)] by blast
  moreover have "content e' = content e" by (rule content_same) (simp_all add: e' r(2))
  ultimately show ?thesis by blast
qed

lemma lsm_inv_restart:
  assumes "lsm_inv e" "ls_sst_sequence e \<le> 1000000"
  shows "\<exists>e'. lsm_open (ls_files e) (wal_file (ls_wal e)) = Inr e' \<and> lsm_inv e' \<and> content e' = content e \<and>
    ls_sst_sequence e' \<le> 1000000"
proof -
  obtain es m where es: "list_all entry_ok es" "wal_file (ls_wal e) = log_of es" "replay es = (m, False, [])"
    "mt_data m = mt_data (ls_memtable e)" using assms(1) by (auto simp: lsm_inv_def durable_def)
  have wf: "lsm_wf e" using assms(1) by (simp add: lsm_inv_def)
  obtain e' where e': "lsm_open (ls_files e) (log_of es) = Inr e'" "lsm_wf e'" "content e' = content e"
    "ls_sst_sequence e' \<le> 1000000" "ls_memtable e' = m" "wal_file (ls_wal e') = log_of es"
    using lsm_restart [OF wf assms(2) wal_read_log [OF es(1)]] es(3,4) by auto
  then have "durable e'" using es unfolding durable_def by metis
  then show ?thesis using e' es(2) by (simp add: lsm_inv_def)
qed

lemma compact_memtable:
  assumes "compact_l0_to_l1 e = Inr e'"
  shows "ls_memtable e' = ls_memtable e \<and> ls_wal e' = ls_wal e"
  using assms by (auto simp: compact_l0_to_l1_def with_flush_lock_def Let_def split: if_splits)

lemma reach_inv: "lsm_reach e \<Longrightarrow> lsm_inv e \<and> ls_sst_sequence e \<le> 1000000"
proof (induction rule: lsm_reach.induct)
  case (reach_empty e)
  have "durable lsm_empty" unfolding durable_def
    by (intro exI [of _ "[]"]) (simp add: lsm_empty_def log_of_def memtable_new_def)
  then show ?case using reach_empty lsm_empty_wf lsm_open_empty by (auto simp: lsm_inv_def lsm_empty_def)
next
  case (reach_write e op e')
  then have wf: "lsm_wf e" "durable e" by (simp_all add: lsm_inv_def)
  obtain ix where ix: "bt_shape (si_tree ix)" "apply_op lsm_set lsm_delete e op = maybe_flush (written e op ix)"
    using lsm_write [OF wf(1) reach_write(2,3)] by blast
  have "lsm_wf (written e op ix)" using wf(1) ix(1) by (simp add: lsm_wf_def mem_op_inv)
  then have "lsm_inv (written e op ix)" using written_durable [OF wf(2) reach_write(2,3)] by (simp add: lsm_inv_def)
  then show ?case using maybe_flush_Inr ix(2) reach_write(4,5) by simp
next
  case (reach_batch e ops e')
  then show ?case using lsm_write_batch_eq [of e ops] maybe_flush_Inr by auto
next
  case (reach_flush e e')
  have "lsm_inv (e\<lparr>ls_memtable := (ls_memtable e)\<lparr>mt_size_limit := 0\<rparr>\<rparr>)"
    using reach_flush by (simp add: lsm_inv_def lsm_wf_def mt_inv_def durable_def)
  then show ?case using reach_flush flush_memtable_Inr by (auto simp: lsm_flush_def split: if_splits)
next
  case (reach_compact e f e')
  have wf: "lsm_wf e" "durable e" using reach_compact by (simp_all add: lsm_inv_def)
  then have "lsm_wf e'" using compact_ok [OF wf(1) reach_compact(2)] reach_compact(3) by auto
  moreover have "durable e'" using wf(2) compact_memtable [OF reach_compact(3)] by (simp add: durable_def)
  ultimately show ?case using reach_compact(4) by (simp add: lsm_inv_def)
next
  case (reach_restart e e')
  then show ?case using lsm_inv_restart [of e] by auto
qed

lemma same_reads:
  assumes "lsm_wf e" "lsm_wf e'" "content e' = content e"
  shows "list_all is_scalar k \<Longrightarrow> lsm_get e' k = lsm_get e k" "lsm_scan e' a b = lsm_scan e a b"
proof -
  have v: "view e' = view e"
    by (rule sorted_pairs_unique [OF view_ok(1) view_ok(1)]) (simp add: view_ok(2) assms(3))
  show "list_all is_scalar k \<Longrightarrow> lsm_get e' k = lsm_get e k" by (simp add: wf_get assms)
  show "lsm_scan e' a b = lsm_scan e a b" by (simp add: lsm.scan_view assms v)
qed

text \<open>
  Crash recovery of the LSM engine (C2). Restart a reachable engine from its files alone, either
  after its last operation or in the middle of the next one, when only the first \<open>n\<close> bytes of the
  log record of that operation were written, \<open>n\<close> short of the whole record. The restart succeeds and
  every lookup and every range scan is what it was before that operation.
\<close>
theorem lsm_recovers:
  assumes "lsm_reach e" "op_ok op" "op_logged (ls_wal e) op" "op_call op = (opn, key, val)"
    "n < length (frame (mk_entry (wal_sequence (ls_wal e)) opn key val))"
    "log_bytes = wal_file (ls_wal e) \<or> log_bytes = torn_append (ls_wal e) opn key val n"
  shows "\<exists>e'. lsm_open (ls_files e) log_bytes = Inr e' \<and>
    (\<forall>k. list_all is_scalar k \<longrightarrow> lsm_get e' k = lsm_get e k) \<and> (\<forall>a b. lsm_scan e' a b = lsm_scan e a b)"
proof -
  have inv: "lsm_wf e" "durable e" "ls_sst_sequence e \<le> 1000000" using reach_inv [OF assms(1)] by (auto simp: lsm_inv_def)
  let ?e = "mk_entry (wal_sequence (ls_wal e)) opn key val"
  obtain es m where es: "list_all entry_ok es" "wal_file (ls_wal e) = log_of es" "replay es = (m, False, [])"
    "mt_data m = mt_data (ls_memtable e)" using inv(2) by (auto simp: durable_def)
  have ok: "entry_ok ?e" using assms(3,4) by (simp add: op_logged_def)
  have "torn_append (ls_wal e) opn key val n = log_of es @ take n (frame ?e)"
    using es(2) by (simp add: torn_append_def wal_append_ok ok)
  then have r: "wal_read log_bytes = (es, None)"
    using assms(5,6) wal_read_log [OF es(1)] wal_read_log_torn [OF es(1) ok, of n "[]"] es(2) by auto
  obtain e' where e': "lsm_open (ls_files e) log_bytes = Inr e'" "lsm_wf e'" "content e' = content e"
    using lsm_restart [OF inv(1,3) r] es(3,4) by auto
  then show ?thesis using same_reads [OF inv(1) e'(2,3)] by blast
qed

text \<open>
  Atomic batches (C3). Let the log of a reachable engine be cut anywhere in the records that
  \<open>write_batch\<close> appends. The engine restarts, and it reads as before the batch if any byte of the
  records is missing, and as after the whole batch if none is.
\<close>
theorem lsm_batch_atomic:
  assumes "lsm_reach e" "list_all op_ok ops" "list_all (\<lambda>op. wo_value op \<noteq> Some TOMBSTONE) ops"
    "list_all entry_ok (numbered (wal_sequence (ls_wal e)) (batch_calls ops))"
    "log_calls (ls_wal e) (batch_calls ops) = Inr w" "list_all is_scalar k"
  shows "\<exists>e'. lsm_open (ls_files e) (take (length (wal_file (ls_wal e)) + n) (wal_file w)) = Inr e' \<and>
    lsm_get e k = Inr (content e k) \<and>
    lsm_get e' k = Inr (if length (wal_file (ls_wal e)) + n < length (wal_file w) then content e k
                        else fold op_effect ops (content e) k)"
proof -
  have inv: "lsm_inv e" "lsm_wf e" "durable e" "ls_sst_sequence e \<le> 1000000"
    using reach_inv [OF assms(1)] by (auto simp: lsm_inv_def)
  let ?bs = "numbered (wal_sequence (ls_wal e)) (batch_calls ops)"
  obtain es m where es: "list_all entry_ok es" "wal_file (ls_wal e) = log_of es" "replay es = (m, False, [])"
    "mt_data m = mt_data (ls_memtable e)" using inv(3) by (auto simp: durable_def)
  have w: "wal_file w = log_of es @ log_of ?bs"
    using log_calls_ok [OF assms(4)] assms(5) append_all_file [OF assms(4)] es(2) by simp
  show ?thesis
  proof (cases "n < length (log_of ?bs)")
    case True
    obtain j where j: "j < length ?bs" "wal_read (log_of es @ take n (log_of ?bs)) = (es @ take j ?bs, None)"
      using wal_read_cut [of es ?bs n] es(1) assms(4) True by auto
    have "mt_data (fst (replay (es @ take j ?bs))) = mt_data (ls_memtable e)"
      using replay_cut_batch [OF assms(2) j(1)] es(3,4) by (simp add: replay_append)
    then obtain e' where e': "lsm_open (ls_files e) (log_of es @ take n (log_of ?bs)) = Inr e'" "lsm_wf e'" "content e' = content e"
      using lsm_restart [OF inv(2,4) j(2)] by blast
    then show ?thesis using True wf_get [OF e'(2) assms(6)] wf_get [OF inv(2) assms(6)] by (simp add: w es(2))
  next
    case False
    obtain e1 where e1: "lsm_wf e1" "content e1 = fold op_effect ops (content e)"
      "ls_files e1 = ls_files e" "ls_sst_sequence e1 = ls_sst_sequence e" "ls_memtable e1 = foldl mem_op (ls_memtable e) ops"
      using apply_batch_ok [OF inv(2) assms(2) batch_scalars [OF assms(4)]] assms(3) by auto
    have r: "wal_read (log_of (es @ ?bs)) = (es @ ?bs, None)" by (rule wal_read_log) (simp add: es(1) assms(4))
    have "mt_data (fst (replay (es @ ?bs))) = mt_data (ls_memtable e1)"
      using replay_batch [OF assms(2)] es(3) foldl_mem_op_data [OF es(4)] e1(5) by (simp add: replay_append)
    then obtain e' where e': "lsm_open (ls_files e) (log_of (es @ ?bs)) = Inr e'" "lsm_wf e'" "content e' = content e1"
      using lsm_restart [OF e1(1) _ r] inv(4) e1(3,4) by auto
    then show ?thesis using False wf_get [OF e'(2) assms(6)] wf_get [OF inv(2) assms(6)] e1(2)
      by (simp add: w es(2) log_of_append)
  qed
qed

theorem lsm_recovers_witness:
  "\<exists>e'. lsm_open [] (torn_append fresh_wal (str ''SET'') (str ''city'') (Some (str ''Oslo'')) 5) = Inr e' \<and>
     lsm_get e' (str ''city'') = Inr None"
proof -
  let ?op = "wo_put (str ''city'') (str ''Oslo'')"
  have l: "lsm_reach lsm_empty" by (rule reach_empty [OF lsm_open_empty])
  have op: "op_ok ?op" "op_logged (ls_wal lsm_empty) ?op" using demo_op_guard by (simp_all add: lsm_guard_def)
  have c: "op_call ?op = (str ''SET'', str ''city'', Some (str ''Oslo''))" by (simp add: op_call_def wo_put_def)
  have n: "5 < length (frame (mk_entry (wal_sequence (ls_wal lsm_empty)) (str ''SET'') (str ''city'') (Some (str ''Oslo''))))"
    by (simp add: length_frame)
  have k: "list_all is_scalar (str ''city'')" by code_simp
  have "lsm_get lsm_empty (str ''city'') = Inr None" using wf_get [OF lsm_empty_wf(1) k] lsm_empty_wf(2) by simp
  moreover have "ls_files lsm_empty = []" "ls_wal lsm_empty = fresh_wal" by (simp_all add: lsm_empty_def)
  ultimately show ?thesis using lsm_recovers [OF l op c n disjI2 [OF refl]] k by auto
qed

theorem lsm_batch_atomic_witness:
  "\<exists>w e'. log_calls fresh_wal (batch_calls [wo_put (str ''city'') (str ''Oslo''), wo_delete (str ''x'')]) = Inr w \<and>
     lsm_open [] (take 5 (wal_file w)) = Inr e' \<and> lsm_get e' (str ''city'') = Inr None"
proof -
  let ?ops = "[wo_put (str ''city'') (str ''Oslo''), wo_delete (str ''x'')]"
  have l: "lsm_reach lsm_empty" by (rule reach_empty [OF lsm_open_empty])
  have ops: "list_all op_ok ?ops" "list_all (\<lambda>op. wo_value op \<noteq> Some TOMBSTONE) ?ops"
    "list_all entry_ok (numbered 0 (batch_calls ?ops))" "list_all is_scalar (str ''city'')" by code_simp+
  have e: "ls_files lsm_empty = []" "ls_wal lsm_empty = fresh_wal" by (simp_all add: lsm_empty_def)
  let ?w = "append_all fresh_wal (batch_calls ?ops)"
  have w: "log_calls fresh_wal (batch_calls ?ops) = Inr ?w" using log_calls_ok [of fresh_wal] ops(3) by simp
  have "5 < length (wal_file ?w)"
    using append_all_file [of fresh_wal "batch_calls ?ops"] ops(3) by (simp add: batch_numbered log_of_def length_frame)
  then show ?thesis
    using lsm_batch_atomic [OF l ops(1,2), of ?w "str ''city''" 5] ops(3,4) w lsm_empty_wf(2) by (auto simp: e)
qed

text \<open>
  An acknowledged write lost after a crash (C35). A crash in the middle of a batch leaves its BEGIN
  record in the log, and the restart does not remove it. A write made after the restart is appended
  behind it and acknowledged, and the next restart takes it for a part of the unfinished batch: the
  engine reads as before the crash, for every key, whatever was written.
\<close>
theorem lsm_write_after_crash_lost:
  assumes "lsm_reach e" "list_all op_ok ops"
    "list_all entry_ok (numbered (wal_sequence (ls_wal e)) (batch_calls ops))"
    "write_batch_simulate_crash e ops = Inr e1" "lsm_open (ls_files e1) (wal_file (ls_wal e1)) = Inr e2"
    "op_ok op" "op_logged (ls_wal e2) op" "\<not> mt_should_flush (mem_op (ls_memtable e2) op)"
  shows "\<exists>e3 e4. apply_op lsm_set lsm_delete e2 op = Inr e3 \<and>
    lsm_open (ls_files e3) (wal_file (ls_wal e3)) = Inr e4 \<and>
    (\<forall>k. list_all is_scalar k \<longrightarrow> lsm_get e4 k = lsm_get e k)"
proof -
  let ?cs = "(str ''BEGIN'', [], None) # map op_call ops" and ?q = "wal_sequence (ls_wal e)"
  have inv: "lsm_wf e" "durable e" "ls_sst_sequence e \<le> 1000000"
    using reach_inv [OF assms(1)] by (auto simp: lsm_inv_def)
  obtain es m where es: "list_all entry_ok es" "wal_file (ls_wal e) = log_of es" "replay es = (m, False, [])"
    "mt_data m = mt_data (ls_memtable e)" using inv(2) by (auto simp: durable_def)
  have ok: "list_all entry_ok (numbered ?q ?cs)" using assms(3) by (simp add: batch_numbered)
  define es2 where "es2 = es @ numbered ?q ?cs"
  have e1: "ls_files e1 = ls_files e" "wal_file (ls_wal e1) = log_of es2"
    using assms(4) log_calls_ok [OF ok] append_all_file [OF ok] es(2)
    by (auto simp: write_batch_simulate_crash_def log_of_append es2_def)
  have rp: "replay es2 = (m, True, numbered (?q + 1) (map op_call ops))"
    using replay_open_batch [OF assms(2)] es(3) by (simp only: es2_def replay_append numbered.simps)
  have es2: "list_all entry_ok es2" using es(1) ok by (simp add: es2_def)
  have r: "wal_read (log_of es2) = (es2, None)" by (rule wal_read_log [OF es2])
  obtain e2' where e2': "lsm_open (ls_files e) (log_of es2) = Inr e2'" "lsm_wf e2'" "content e2' = content e"
    "ls_sst_sequence e2' \<le> 1000000" "ls_memtable e2' = m" "wal_file (ls_wal e2') = log_of es2"
    using lsm_restart [OF inv(1,3) r] rp es(4) by auto
  have e2: "e2 = e2'" using assms(5) e1 e2'(1) by simp
  obtain ix where ix: "bt_shape (si_tree ix)" "apply_op lsm_set lsm_delete e2 op = maybe_flush (written e2 op ix)"
    using lsm_write [OF _ assms(6,7)] e2'(2) e2 by blast
  let ?e3 = "written e2 op ix"
  obtain opn key val where c: "op_call op = (opn, key, val)" using prod_cases3 by blast
  let ?n = "mk_entry (wal_sequence (ls_wal e2)) opn key val"
  have ok': "entry_ok ?n" using assms(7) c by (simp add: op_logged_def)
  have w3: "wal_file (ls_wal ?e3) = log_of (es2 @ [?n])"
    using append_all_file [of "ls_wal e2" "[op_call op]"] assms(7) e2'(6) e2 c
    by (simp add: op_logged_def log_of_append)
  have r3: "wal_read (log_of (es2 @ [?n])) = (es2 @ [?n], None)"
    by (rule wal_read_log) (use es2 ok' in simp)
  have rp3: "fst (replay (es2 @ [?n])) = m"
    using rp op_entry(2,3) [OF assms(6) c] by (simp add: replay_append mk_entry_def)
  obtain e4 where e4: "lsm_open (ls_files e2') (wal_file (ls_wal ?e3)) = Inr e4" "lsm_wf e4" "content e4 = content e2'"
    unfolding w3 using lsm_restart [OF e2'(2,4) r3] rp3 e2'(5) by auto
  have "maybe_flush ?e3 = Inr ?e3" using assms(8) by (simp add: maybe_flush_def)
  then show ?thesis using ix(2) e4 same_reads(1) [OF inv(1) e4(2)] e2'(3) e2 by auto
qed

theorem lsm_write_after_crash_lost_witness:
  "\<exists>e1 e2 e3 e4. write_batch_simulate_crash lsm_empty [wo_put (str ''a'') []] = Inr e1 \<and>
     lsm_open (ls_files e1) (wal_file (ls_wal e1)) = Inr e2 \<and>
     apply_op lsm_set lsm_delete e2 (wo_put (str ''city'') (str ''Oslo'')) = Inr e3 \<and>
     lsm_open (ls_files e3) (wal_file (ls_wal e3)) = Inr e4 \<and> lsm_get e4 (str ''city'') = Inr None"
proof -
  let ?ops = "[wo_put (str ''a'') []]" and ?op = "wo_put (str ''city'') (str ''Oslo'')"
  let ?cs = "(str ''BEGIN'', [], None) # map op_call ?ops"
  have l: "lsm_reach lsm_empty" by (rule reach_empty [OF lsm_open_empty])
  have ops: "list_all op_ok ?ops" "list_all entry_ok (numbered 0 (batch_calls ?ops))" "list_all entry_ok (numbered 0 ?cs)"
    "list_all entry_ok (numbered 2 [op_call ?op])" "list_all is_scalar (str ''city'')" by code_simp+
  have e: "ls_files lsm_empty = []" "ls_wal lsm_empty = fresh_wal" "ls_memtable lsm_empty = memtable_new MEMTABLE_SIZE_LIMIT"
    "ls_sst_sequence lsm_empty \<le> 1000000" by (simp_all add: lsm_empty_def)
  let ?w = "append_all fresh_wal ?cs"
  have w: "wal_file ?w = log_of (numbered 0 ?cs)" using append_all_file [of fresh_wal ?cs] ops(3) by simp
  have e1: "write_batch_simulate_crash lsm_empty ?ops = Inr (lsm_empty\<lparr>ls_wal := ?w\<rparr>)"
    using log_calls_ok [of fresh_wal ?cs] ops(3) by (simp add: write_batch_simulate_crash_def e)
  have "replay (numbered 0 ?cs) = (memtable_new MEMTABLE_SIZE_LIMIT, True, numbered 1 (map op_call ?ops))"
    using replay_open_batch [OF ops(1), of "memtable_new MEMTABLE_SIZE_LIMIT" 0 1] by simp
  then obtain e2 where e2: "lsm_open [] (wal_file ?w) = Inr e2" "ls_memtable e2 = memtable_new MEMTABLE_SIZE_LIMIT"
    "ls_wal e2 = \<lparr>wal_file = wal_file ?w, wal_sequence = next_sequence 0 (numbered 0 ?cs)\<rparr>"
    using lsm_restart [OF lsm_empty_wf(1) e(4) wal_read_log [OF ops(3)]] unfolding w e by auto
  have "next_sequence 0 (numbered 0 ?cs) = 2" using next_sequence_numbered [of 0 ?cs] by simp
  then have lg: "op_logged (ls_wal e2) ?op" using ops(4) e2(3) by (simp add: op_logged_def)
  have nf: "\<not> mt_should_flush (mem_op (ls_memtable e2) ?op)" unfolding e2(2) by code_simp
  have o: "lsm_open (ls_files (lsm_empty\<lparr>ls_wal := ?w\<rparr>)) (wal_file (ls_wal (lsm_empty\<lparr>ls_wal := ?w\<rparr>))) = Inr e2"
    using e2(1) by (simp add: e)
  have "lsm_get lsm_empty (str ''city'') = Inr None" using wf_get [OF lsm_empty_wf(1) ops(5)] lsm_empty_wf(2) by simp
  then show ?thesis
    using lsm_write_after_crash_lost [OF l ops(1) _ e1 o _ lg nf] ops(2,5) e1 o by (auto simp: e)
qed

end
