(* ===== verification/Transactions.thy ===== *)
theory Transactions
  imports Py_Base
begin

text \<open>
  \<open>transactions.py\<close>: the in-memory multi-version store with its lock manager and the transactions on
  it. A transaction is a record beside the store; every method takes both and returns both with its
  result, so that what a raising call left behind is kept. Interleavings of transactions are lists of
  method calls (\<open>db_run\<close>).

  Blocking is not time: \<open>acquire\<close> is one attempt of the loop of the source, on the table the attempt
  finds. A call that waits and then succeeds is the call at its last attempt; a call that finds the lock
  taken at the deadline raises \<open>TimeoutErr\<close>.
\<close>

section \<open>Lock manager\<close>

datatype lock_type = SHARED | EXCLUSIVE

record lock_entry =
  le_shared :: "nat set"
  le_exclusive :: "nat option"

type_synonym lock_table = "(pystr, lock_entry) dict"

definition lock_entry_of :: "lock_table \<Rightarrow> pystr \<Rightarrow> lock_table \<times> lock_entry" where
  "lock_entry_of tbl key =
     (case dict_get tbl key of
        Some en \<Rightarrow> (tbl, en)
      | None \<Rightarrow> let en = \<lparr>le_shared = {}, le_exclusive = None\<rparr> in (dict_set key en tbl, en))"

definition acquire :: "lock_table \<Rightarrow> pystr \<Rightarrow> lock_type \<Rightarrow> nat \<Rightarrow> lock_table \<times> unit result" where
  "acquire tbl key lt txid =
     (let (tbl, en) = lock_entry_of tbl key;
          free = (le_exclusive en = None \<or> le_exclusive en = Some txid) in
      case lt of
        SHARED \<Rightarrow>
          if free then (dict_set key (en\<lparr>le_shared := insert txid (le_shared en)\<rparr>) tbl, Inr ())
          else (tbl, Inl TimeoutErr)
      | EXCLUSIVE \<Rightarrow>
          if free \<and> le_shared en - {txid} = {}
          then (dict_set key \<lparr>le_shared = le_shared en - {txid}, le_exclusive = Some txid\<rparr> tbl, Inr ())
          else (tbl, Inl TimeoutErr))"

definition release_entry :: "nat \<Rightarrow> lock_entry \<Rightarrow> lock_entry" where
  "release_entry txid en =
     \<lparr>le_shared = le_shared en - {txid},
      le_exclusive = (if le_exclusive en = Some txid then None else le_exclusive en)\<rparr>"

definition release_all :: "lock_table \<Rightarrow> nat \<Rightarrow> lock_table" where
  "release_all tbl txid = map (\<lambda>(key, en). (key, release_entry txid en)) tbl"

definition held_by :: "lock_table \<Rightarrow> nat \<Rightarrow> (pystr \<times> lock_type) list" where
  "held_by tbl txid =
     concat (map (\<lambda>(key, en).
       (if txid \<in> le_shared en then [(key, SHARED)] else []) @
       (if le_exclusive en = Some txid then [(key, EXCLUSIVE)] else [])) tbl)"

section \<open>The store\<close>

definition TX_TOMBSTONE :: pystr where
  "TX_TOMBSTONE = str ''__DELETED__''"

datatype tx_mode = OPTIMISTIC | PESSIMISTIC

record version =
  v_txid :: nat
  v_value :: pystr
  v_committed :: bool

record mvcc_store =
  ms_versions :: "(pystr, version list) dict"
  ms_next_txid :: nat
  ms_committed :: "nat set"
  ms_active :: "nat set"
  ms_locks :: lock_table

definition mvcc_new :: mvcc_store where
  "mvcc_new = \<lparr>ms_versions = [], ms_next_txid = 1, ms_committed = {0}, ms_active = {}, ms_locks = []\<rparr>"

text \<open>A transaction; the keys of the write set are listed once each.\<close>

record transaction =
  tx_id :: nat
  tx_snapshot :: nat
  tx_mode :: tx_mode
  tx_write_set :: "pystr list"
  tx_committed :: bool
  tx_aborted :: bool
  tx_reads :: nat
  tx_writes :: nat

definition begin_transaction :: "mvcc_store \<Rightarrow> tx_mode \<Rightarrow> mvcc_store \<times> transaction" where
  "begin_transaction s mode =
     (let txid = ms_next_txid s;
          snapshot = (if ms_committed s \<noteq> {} then Max (ms_committed s) else 0) in
      (s\<lparr>ms_next_txid := txid + 1, ms_active := insert txid (ms_active s)\<rparr>,
       \<lparr>tx_id = txid, tx_snapshot = snapshot, tx_mode = mode, tx_write_set = [],
        tx_committed = False, tx_aborted = False, tx_reads = 0, tx_writes = 0\<rparr>))"

definition versions_of :: "mvcc_store \<Rightarrow> pystr \<Rightarrow> version list" where
  "versions_of s key = (case dict_get (ms_versions s) key of Some vs \<Rightarrow> vs | None \<Rightarrow> [])"

text \<open>One key of the loop of \<open>_abort\<close>.\<close>

definition drop_versions :: "nat \<Rightarrow> pystr \<Rightarrow> (pystr, version list) dict \<Rightarrow> (pystr, version list) dict" where
  "drop_versions txid key d =
     (case dict_get d key of
        None \<Rightarrow> d
      | Some vs \<Rightarrow>
          let vs' = filter (\<lambda>v. v_txid v \<noteq> txid) vs in
          if vs' = [] then dict_del key d else dict_set key vs' d)"

definition store_abort :: "mvcc_store \<Rightarrow> transaction \<Rightarrow> mvcc_store" where
  "store_abort s tx =
     s\<lparr>ms_versions := fold (drop_versions (tx_id tx)) (tx_write_set tx) (ms_versions s),
       ms_active := ms_active s - {tx_id tx}\<rparr>"

definition conflicting :: "transaction \<Rightarrow> version \<Rightarrow> bool" where
  "conflicting tx v \<longleftrightarrow> v_txid v \<noteq> tx_id tx \<and> v_committed v \<and> v_txid v > tx_snapshot tx"

definition commit_versions :: "nat \<Rightarrow> pystr \<Rightarrow> (pystr, version list) dict \<Rightarrow> (pystr, version list) dict" where
  "commit_versions txid key d =
     (case dict_get d key of
        None \<Rightarrow> d
      | Some vs \<Rightarrow> dict_set key (map (\<lambda>v. if v_txid v = txid then v\<lparr>v_committed := True\<rparr> else v) vs) d)"

definition store_commit :: "mvcc_store \<Rightarrow> transaction \<Rightarrow> mvcc_store \<times> bool" where
  "store_commit s tx =
     (if list_ex (\<lambda>key. list_ex (conflicting tx) (versions_of s key)) (tx_write_set tx)
      then (store_abort s tx, False)
      else (s\<lparr>ms_versions := fold (commit_versions (tx_id tx)) (tx_write_set tx) (ms_versions s),
              ms_committed := insert (tx_id tx) (ms_committed s),
              ms_active := ms_active s - {tx_id tx}\<rparr>, True))"

definition visible :: "nat \<Rightarrow> nat \<Rightarrow> version \<Rightarrow> bool" where
  "visible snapshot own v \<longleftrightarrow> (v_committed v \<and> v_txid v \<le> snapshot) \<or> v_txid v = own"

fun best_version :: "nat \<Rightarrow> nat \<Rightarrow> version option \<Rightarrow> version list \<Rightarrow> version option" where
  "best_version snapshot own best [] = best"
| "best_version snapshot own best (v # vs) =
     best_version snapshot own
       (if visible snapshot own v
        then (case best of None \<Rightarrow> Some v | Some b \<Rightarrow> if v_txid v > v_txid b then Some v else Some b)
        else best) vs"

definition store_read :: "mvcc_store \<Rightarrow> pystr \<Rightarrow> nat \<Rightarrow> nat \<Rightarrow> pystr option" where
  "store_read s key snapshot own =
     (case dict_get (ms_versions s) key of
        None \<Rightarrow> None
      | Some vs \<Rightarrow>
          (case best_version snapshot own None vs of
             None \<Rightarrow> None
           | Some b \<Rightarrow> if v_value b = TX_TOMBSTONE then None else Some (v_value b)))"

definition store_write :: "mvcc_store \<Rightarrow> pystr \<Rightarrow> pystr \<Rightarrow> nat \<Rightarrow> mvcc_store" where
  "store_write s key val txid =
     s\<lparr>ms_versions := dict_set key
         (sort_key v_txid (filter (\<lambda>v. v_txid v \<noteq> txid) (versions_of s key) @
                           [\<lparr>v_txid = txid, v_value = val, v_committed = False\<rparr>]))
         (ms_versions s)\<rparr>"

section \<open>Vacuum\<close>

definition min_active :: "mvcc_store \<Rightarrow> nat" where
  "min_active s = (if ms_active s = {} then Max (ms_committed s) + 1 else Min (ms_active s))"

definition vacuum_keeps :: "nat \<Rightarrow> version list \<Rightarrow> version list" where
  "vacuum_keeps bound vs =
     (let cs = filter v_committed vs in
      if length cs \<le> 1 then vs
      else let newest = Max (set (map v_txid cs)) in
           filter (\<lambda>v. \<not> (v_committed v \<and> v_txid v < newest \<and> v_txid v < bound)) vs)"

fun vacuum_keys :: "nat \<Rightarrow> pystr list \<Rightarrow> (pystr, version list) dict \<Rightarrow> nat \<Rightarrow> (pystr, version list) dict \<times> nat" where
  "vacuum_keys bound [] d deleted = (d, deleted)"
| "vacuum_keys bound (key # keys) d deleted =
     (case dict_get d key of
        None \<Rightarrow> vacuum_keys bound keys d deleted
      | Some vs \<Rightarrow>
          let vs' = vacuum_keeps bound vs in
          vacuum_keys bound keys (if vs' = [] \<and> vs \<noteq> [] then dict_del key d else dict_set key vs' d)
            (deleted + (length vs - length vs')))"

definition vacuum :: "mvcc_store \<Rightarrow> mvcc_store \<times> nat" where
  "vacuum s =
     (let (d, deleted) = vacuum_keys (min_active s) (dict_keys (ms_versions s)) (ms_versions s) 0
      in (s\<lparr>ms_versions := d\<rparr>, deleted))"

definition version_count :: "mvcc_store \<Rightarrow> (pystr \<times> nat) list" where
  "version_count s = map (\<lambda>(k, vs). (k, length vs)) (ms_versions s)"

definition store_stats :: "mvcc_store \<Rightarrow> (pystr \<times> nat) list" where
  "store_stats s =
     [(str ''keys'', length (ms_versions s)),
      (str ''total_versions'', \<Sum>(k, vs)\<leftarrow>ms_versions s. length vs),
      (str ''next_txid'', ms_next_txid s),
      (str ''active_transactions'', card (ms_active s)),
      (str ''committed_transactions'', card (ms_committed s))]"

section \<open>Transactions\<close>

definition check_active :: "transaction \<Rightarrow> unit result" where
  "check_active tx = (if tx_committed tx \<or> tx_aborted tx then Inl RuntimeErr else Inr ())"

text \<open>\<open>acquire\<close> on the table of the store.\<close>

definition lock_key :: "mvcc_store \<Rightarrow> pystr \<Rightarrow> lock_type \<Rightarrow> nat \<Rightarrow> mvcc_store \<times> unit result" where
  "lock_key s key lt txid = (let (tbl, r) = acquire (ms_locks s) key lt txid in (s\<lparr>ms_locks := tbl\<rparr>, r))"

type_synonym 'a tx_result = "mvcc_store \<times> transaction \<times> 'a result"

definition tx_get :: "mvcc_store \<Rightarrow> transaction \<Rightarrow> pystr \<Rightarrow> pystr option tx_result" where
  "tx_get s tx key =
     (case check_active tx of
        Inl e \<Rightarrow> (s, tx, Inl e)
      | Inr _ \<Rightarrow>
          let tx = tx\<lparr>tx_reads := tx_reads tx + 1\<rparr> in
          if tx_mode tx = PESSIMISTIC then
            (case lock_key s key SHARED (tx_id tx) of
               (s, Inl e) \<Rightarrow> (s, tx, Inl e)
             | (s, Inr _) \<Rightarrow> (s, tx, Inr (store_read s key (tx_snapshot tx) (tx_id tx))))
          else (s, tx, Inr (store_read s key (tx_snapshot tx) (tx_id tx))))"

definition tx_get_for_update :: "mvcc_store \<Rightarrow> transaction \<Rightarrow> pystr \<Rightarrow> pystr option tx_result" where
  "tx_get_for_update s tx key =
     (case check_active tx of
        Inl e \<Rightarrow> (s, tx, Inl e)
      | Inr _ \<Rightarrow>
          let tx = tx\<lparr>tx_reads := tx_reads tx + 1\<rparr> in
          (case lock_key s key EXCLUSIVE (tx_id tx) of
             (s, Inl e) \<Rightarrow> (s, tx, Inl e)
           | (s, Inr _) \<Rightarrow> (s, tx, Inr (store_read s key (tx_snapshot tx) (tx_id tx)))))"

definition tx_set :: "mvcc_store \<Rightarrow> transaction \<Rightarrow> pystr \<Rightarrow> pystr \<Rightarrow> unit tx_result" where
  "tx_set s tx key val =
     (case check_active tx of
        Inl e \<Rightarrow> (s, tx, Inl e)
      | Inr _ \<Rightarrow>
          let tx = tx\<lparr>tx_writes := tx_writes tx + 1\<rparr> in
          (case (if tx_mode tx = PESSIMISTIC then lock_key s key EXCLUSIVE (tx_id tx) else (s, Inr ())) of
             (s, Inl e) \<Rightarrow> (s, tx, Inl e)
           | (s, Inr _) \<Rightarrow>
               (store_write s key val (tx_id tx),
                tx\<lparr>tx_write_set := List.insert key (tx_write_set tx)\<rparr>, Inr ())))"

definition tx_delete :: "mvcc_store \<Rightarrow> transaction \<Rightarrow> pystr \<Rightarrow> unit tx_result" where
  "tx_delete s tx key =
     (case check_active tx of
        Inl e \<Rightarrow> (s, tx, Inl e)
      | Inr _ \<Rightarrow>
          let tx = tx\<lparr>tx_writes := tx_writes tx + 1\<rparr> in
          (case (if tx_mode tx = PESSIMISTIC then lock_key s key EXCLUSIVE (tx_id tx) else (s, Inr ())) of
             (s, Inl e) \<Rightarrow> (s, tx, Inl e)
           | (s, Inr _) \<Rightarrow>
               (store_write s key TX_TOMBSTONE (tx_id tx),
                tx\<lparr>tx_write_set := List.insert key (tx_write_set tx)\<rparr>, Inr ())))"

definition release_pessimistic :: "mvcc_store \<Rightarrow> transaction \<Rightarrow> mvcc_store" where
  "release_pessimistic s tx =
     (if tx_mode tx = PESSIMISTIC then s\<lparr>ms_locks := release_all (ms_locks s) (tx_id tx)\<rparr> else s)"

definition tx_commit :: "mvcc_store \<Rightarrow> transaction \<Rightarrow> bool tx_result" where
  "tx_commit s tx =
     (case check_active tx of
        Inl e \<Rightarrow> (s, tx, Inl e)
      | Inr _ \<Rightarrow>
          (case store_commit s tx of (s, ok) \<Rightarrow>
             (release_pessimistic s tx, tx\<lparr>tx_committed := ok, tx_aborted := (if ok then tx_aborted tx else True)\<rparr>, Inr ok)))"

definition tx_abort :: "mvcc_store \<Rightarrow> transaction \<Rightarrow> unit tx_result" where
  "tx_abort s tx =
     (if \<not> tx_committed tx \<and> \<not> tx_aborted tx
      then (release_pessimistic (store_abort s tx) tx, tx\<lparr>tx_aborted := True\<rparr>, Inr ())
      else (s, tx, Inr ()))"

text \<open>\<open>__exit__\<close>: abort after an exception, else commit what is still open.\<close>

definition tx_exit :: "mvcc_store \<Rightarrow> transaction \<Rightarrow> bool \<Rightarrow> unit tx_result" where
  "tx_exit s tx raised =
     (if raised then tx_abort s tx
      else if \<not> tx_committed tx \<and> \<not> tx_aborted tx
      then (case tx_commit s tx of (s, tx, _) \<Rightarrow> (s, tx, Inr ()))
      else (s, tx, Inr ()))"

section \<open>Interleavings\<close>

record db =
  db_store :: mvcc_store
  db_txs :: "(nat, transaction) dict"

datatype tx_call =
    Begin tx_mode
  | Get nat pystr
  | GetForUpdate nat pystr
  | Put nat pystr pystr
  | Del nat pystr
  | Commit nat
  | Abort nat
  | Vacuum

definition db_new :: db where
  "db_new = \<lparr>db_store = mvcc_new, db_txs = []\<rparr>"

text \<open>A method of an existing transaction; its result is not kept.\<close>

definition on_tx :: "db \<Rightarrow> nat \<Rightarrow> (mvcc_store \<Rightarrow> transaction \<Rightarrow> 'a tx_result) \<Rightarrow> db" where
  "on_tx d t f =
     (case dict_get (db_txs d) t of
        None \<Rightarrow> d
      | Some tx \<Rightarrow> (case f (db_store d) tx of (s, tx', _) \<Rightarrow> \<lparr>db_store = s, db_txs = dict_set t tx' (db_txs d)\<rparr>))"

fun db_step :: "db \<Rightarrow> tx_call \<Rightarrow> db" where
  "db_step d (Begin mode) =
     (case begin_transaction (db_store d) mode of (s, tx) \<Rightarrow>
        \<lparr>db_store = s, db_txs = dict_set (tx_id tx) tx (db_txs d)\<rparr>)"
| "db_step d (Get t key) = on_tx d t (\<lambda>s tx. tx_get s tx key)"
| "db_step d (GetForUpdate t key) = on_tx d t (\<lambda>s tx. tx_get_for_update s tx key)"
| "db_step d (Put t key val) = on_tx d t (\<lambda>s tx. tx_set s tx key val)"
| "db_step d (Del t key) = on_tx d t (\<lambda>s tx. tx_delete s tx key)"
| "db_step d (Commit t) = on_tx d t tx_commit"
| "db_step d (Abort t) = on_tx d t tx_abort"
| "db_step d Vacuum = d\<lparr>db_store := fst (vacuum (db_store d))\<rparr>"

fun db_run :: "db \<Rightarrow> tx_call list \<Rightarrow> db" where
  "db_run d [] = d"
| "db_run d (c # cs) = db_run (db_step d c) cs"

text \<open>What transaction \<open>t\<close> would read now.\<close>

definition db_read :: "db \<Rightarrow> nat \<Rightarrow> pystr \<Rightarrow> pystr option" where
  "db_read d t key =
     (case dict_get (db_txs d) t of
        None \<Rightarrow> None
      | Some tx \<Rightarrow> store_read (db_store d) key (tx_snapshot tx) (tx_id tx))"

end
