(* ===== verification/Tx_Invariant.thy ===== *)
theory Tx_Invariant
  imports Transactions
begin

text \<open>
  The invariant of the multi-version store under every interleaving of transactions: version chains are
  sorted by transaction number, a version is committed exactly when its writer is, and an open
  transaction has a version of exactly the keys it wrote. What a call of one transaction can change for
  another one is the lemma \<open>effect_visible\<close>.
\<close>

section \<open>Version chains\<close>

definition latest_of :: "version list \<Rightarrow> pystr option" where
  "latest_of vs = (if vs = [] \<or> v_value (last vs) = TX_TOMBSTONE then None else Some (v_value (last vs)))"

definition chain :: "version list \<Rightarrow> bool" where
  "chain vs \<longleftrightarrow> sorted_wrt (<) (map v_txid vs)"

lemma chain_filter: "chain vs \<Longrightarrow> chain (filter P vs)"
  by (simp add: chain_def sorted_wrt_map sorted_wrt_filter)

lemma best_version_chain:
  "chain vs \<Longrightarrow> (\<And>b v. best = Some b \<Longrightarrow> v \<in> set vs \<Longrightarrow> v_txid b < v_txid v) \<Longrightarrow>
     best_version sn own best vs =
       (if filter (visible sn own) vs = [] then best else Some (last (filter (visible sn own) vs)))"
proof (induction vs arbitrary: best)
  case (Cons v vs)
  have c: "chain vs" "\<forall>u\<in>set vs. v_txid v < v_txid u" using Cons.prems(1) by (auto simp: chain_def)
  show ?case
  proof (cases "visible sn own v")
    case True
    have "best_version sn own best (v # vs) = best_version sn own (Some v) vs"
      using Cons.prems(2) [of _ v] True by (cases best) auto
    moreover have "best_version sn own (Some v) vs =
        (if filter (visible sn own) vs = [] then Some v else Some (last (filter (visible sn own) vs)))"
      by (rule Cons.IH [OF c(1)]) (use c(2) in auto)
    ultimately show ?thesis using True by simp
  next
    case False
    then show ?thesis using Cons.IH [OF c(1), of best] Cons.prems(2) by auto
  qed
qed simp

lemma store_read_chain:
  assumes "chain (versions_of s k)"
  shows "store_read s k sn own = latest_of (filter (visible sn own) (versions_of s k))"
proof (cases "dict_get (ms_versions s) k")
  case None
  then show ?thesis by (simp add: store_read_def versions_of_def latest_of_def)
next
  case (Some vs)
  then show ?thesis using best_version_chain [of vs None sn own] assms
    by (simp add: store_read_def versions_of_def latest_of_def)
qed

text \<open>Two stores whose visible versions agree read the same.\<close>

lemma filter_map_same: "(\<And>x. x \<in> set xs \<Longrightarrow> g x \<noteq> x \<Longrightarrow> \<not> P x \<and> \<not> P (g x)) \<Longrightarrow> filter P (map g xs) = filter P xs"
proof (induction xs)
  case (Cons x xs)
  then show ?case by (cases "g x = x") auto
qed simp

section \<open>The store operations on version chains\<close>

lemma versions_write:
  "versions_of (store_write s key val t) k =
     (if k = key then sort_key v_txid (filter (\<lambda>v. v_txid v \<noteq> t) (versions_of s key) @
                        [\<lparr>v_txid = t, v_value = val, v_committed = False\<rparr>])
      else versions_of s k)"
  by (simp add: store_write_def versions_of_def dict_simps)

definition chain_of :: "(pystr, version list) dict \<Rightarrow> pystr \<Rightarrow> version list" where
  "chain_of d k = (case dict_get d k of Some vs \<Rightarrow> vs | None \<Rightarrow> [])"

lemma chain_of_simps [simp]:
  "chain_of (dict_set a vs d) k = (if k = a then vs else chain_of d k)"
  "chain_of (dict_del a d) k = (if k = a then [] else chain_of d k)"
  "dict_get d k = Some vs \<Longrightarrow> chain_of d k = vs" "dict_get d k = None \<Longrightarrow> chain_of d k = []"
  by (simp_all add: chain_of_def dict_simps)

lemma versions_of_chain: "versions_of s k = chain_of (ms_versions s) k"
  by (simp add: versions_of_def chain_of_def)

lemma drop_versions_chain:
  "chain_of (drop_versions t key d) k = (if k = key then filter (\<lambda>v. v_txid v \<noteq> t) (chain_of d k) else chain_of d k)"
  by (cases "dict_get d key") (auto simp: drop_versions_def Let_def)

lemma fold_drop_versions:
  "chain_of (fold (drop_versions t) keys d) k =
     (if k \<in> set keys then filter (\<lambda>v. v_txid v \<noteq> t) (chain_of d k) else chain_of d k)"
  by (induction keys arbitrary: d) (auto simp: drop_versions_chain)

lemma commit_versions_chain:
  "chain_of (commit_versions t key d) k =
     (if k = key then map (\<lambda>v. if v_txid v = t then v\<lparr>v_committed := True\<rparr> else v) (chain_of d k) else chain_of d k)"
  by (cases "dict_get d key") (auto simp: commit_versions_def)

lemma fold_commit_versions:
  "chain_of (fold (commit_versions t) keys d) k =
     (if k \<in> set keys then map (\<lambda>v. if v_txid v = t then v\<lparr>v_committed := True\<rparr> else v) (chain_of d k) else chain_of d k)"
  by (induction keys arbitrary: d) (auto simp: commit_versions_chain comp_def)

lemma versions_abort:
  "versions_of (store_abort s tx) k =
     (if k \<in> set (tx_write_set tx) then filter (\<lambda>v. v_txid v \<noteq> tx_id tx) (versions_of s k) else versions_of s k)"
  by (simp add: store_abort_def versions_of_chain fold_drop_versions)

lemma versions_commit:
  assumes "store_commit s tx = (s', True)"
  shows "versions_of s' k =
     (if k \<in> set (tx_write_set tx)
      then map (\<lambda>v. if v_txid v = tx_id tx then v\<lparr>v_committed := True\<rparr> else v) (versions_of s k) else versions_of s k)"
    and "k \<in> set (tx_write_set tx) \<Longrightarrow> v \<in> set (versions_of s k) \<Longrightarrow> \<not> conflicting tx v"
    and "ms_committed s' = insert (tx_id tx) (ms_committed s)" "ms_active s' = ms_active s - {tx_id tx}"
    and "ms_next_txid s' = ms_next_txid s" "ms_locks s' = ms_locks s"
  using assms by (auto simp: store_commit_def versions_of_chain fold_commit_versions list_ex_iff split: if_splits)

lemma vacuum_keys_chain:
  "distinct keys \<Longrightarrow> chain_of (fst (vacuum_keys bound keys d n)) k =
     (if k \<in> set keys then vacuum_keeps bound (chain_of d k) else chain_of d k)"
proof (induction keys arbitrary: d n)
  case (Cons key keys)
  have "vacuum_keeps bound [] = []" by (simp add: vacuum_keeps_def)
  then show ?case using Cons by (cases "dict_get d key") (auto simp: Let_def)
qed simp

lemma versions_vacuum:
  "dict_wf (ms_versions s) \<Longrightarrow> versions_of (fst (vacuum s)) k = vacuum_keeps (min_active s) (versions_of s k)"
proof -
  assume "dict_wf (ms_versions s)"
  then have d: "distinct (dict_keys (ms_versions s))" by (simp add: dict_wf_def)
  have "k \<notin> set (dict_keys (ms_versions s)) \<Longrightarrow> versions_of s k = []"
    by (simp add: versions_of_chain chain_of_def map_of_eq_None_iff [THEN iffD2])
  moreover have "vacuum_keeps b [] = []" for b by (simp add: vacuum_keeps_def)
  ultimately show ?thesis
    using vacuum_keys_chain [OF d, of "min_active s" "ms_versions s" 0 k]
    by (auto simp: vacuum_def versions_of_chain split: prod.splits)
qed

lemma chain_write:
  assumes "chain vs"
  shows "chain (sort_key v_txid (filter (\<lambda>v. v_txid v \<noteq> t) vs @ [\<lparr>v_txid = t, v_value = val, v_committed = c\<rparr>]))"
proof -
  let ?ys = "filter (\<lambda>v. v_txid v \<noteq> t) vs @ [\<lparr>v_txid = t, v_value = val, v_committed = c\<rparr>]"
  have "distinct (map v_txid ?ys)" using chain_filter [OF assms] by (auto simp: chain_def strict_sorted_iff)
  moreover have "mset (map v_txid (sort_key v_txid ?ys)) = mset (map v_txid ?ys)" by (simp only: mset_map mset_sort)
  ultimately have "distinct (map v_txid (sort_key v_txid ?ys))" by (metis mset_eq_imp_distinct_iff)
  then show ?thesis by (simp add: chain_def strict_sorted_iff)
qed

lemma filter_write:
  assumes "chain vs" "\<And>v. v \<in> set vs \<Longrightarrow> v_txid v = t \<Longrightarrow> \<not> P v" "\<not> P \<lparr>v_txid = t, v_value = val, v_committed = c\<rparr>"
  shows "filter P (sort_key v_txid (filter (\<lambda>v. v_txid v \<noteq> t) vs @ [\<lparr>v_txid = t, v_value = val, v_committed = c\<rparr>])) = filter P vs"
proof -
  have "filter P (filter (\<lambda>v. v_txid v \<noteq> t) vs) = filter P vs"
    using assms(2) by (auto intro: filter_cong)
  moreover have "sorted (map v_txid (filter P vs))"
    using chain_filter [OF assms(1), of P] by (simp add: chain_def strict_sorted_iff)
  ultimately show ?thesis using assms(3) by (simp add: filter_sort sort_key_id_if_sorted)
qed

section \<open>What a call does\<close>

text \<open>Every method of a transaction does one of four things to the store and to the transaction.\<close>

inductive tx_effect :: "mvcc_store \<Rightarrow> transaction \<Rightarrow> mvcc_store \<Rightarrow> transaction \<Rightarrow> bool" where
  eff_none: "tx_effect s tx (s\<lparr>ms_locks := l\<rparr>) (tx\<lparr>tx_reads := r, tx_writes := w\<rparr>)"
| eff_write: "\<not> tx_committed tx \<Longrightarrow> \<not> tx_aborted tx \<Longrightarrow>
    tx_effect s tx ((store_write s k v (tx_id tx))\<lparr>ms_locks := l\<rparr>)
      (tx\<lparr>tx_writes := w, tx_write_set := List.insert k (tx_write_set tx)\<rparr>)"
| eff_commit: "\<not> tx_committed tx \<Longrightarrow> \<not> tx_aborted tx \<Longrightarrow> store_commit s tx = (s', True) \<Longrightarrow>
    tx_effect s tx (s'\<lparr>ms_locks := l\<rparr>) (tx\<lparr>tx_committed := True\<rparr>)"
| eff_abort: "\<not> tx_committed tx \<Longrightarrow> \<not> tx_aborted tx \<Longrightarrow>
    tx_effect s tx ((store_abort s tx)\<lparr>ms_locks := l\<rparr>) (tx\<lparr>tx_committed := False, tx_aborted := True\<rparr>)"

lemma eff_refl: "tx_effect s tx s tx"
  using eff_none [where s = s and tx = tx and l = "ms_locks s" and r = "tx_reads tx" and w = "tx_writes tx"] by simp

lemma lock_key_cases: "\<exists>l r. lock_key s key lt t = (s\<lparr>ms_locks := l\<rparr>, r)"
  by (cases "acquire (ms_locks s) key lt t") (auto simp: lock_key_def)

lemma tx_get_effect: "tx_get s tx key = (s', tx', r) \<Longrightarrow> tx_effect s tx s' tx'"
  using lock_key_cases [of s key SHARED "tx_id tx"] eff_none [where s = s and tx = tx and r = "tx_reads tx + 1" and w = "tx_writes tx"]
    eff_none [where s = s and tx = tx and l = "ms_locks s" and r = "tx_reads tx + 1" and w = "tx_writes tx"] eff_refl
  by (auto simp: tx_get_def check_active_def Let_def split: sum.splits if_splits)

lemma tx_get_for_update_effect: "tx_get_for_update s tx key = (s', tx', r) \<Longrightarrow> tx_effect s tx s' tx'"
  using lock_key_cases [of s key EXCLUSIVE "tx_id tx"] eff_none [where s = s and tx = tx and r = "tx_reads tx + 1" and w = "tx_writes tx"] eff_refl
  by (auto simp: tx_get_for_update_def check_active_def Let_def split: sum.splits if_splits)

lemma store_write_locks: "store_write (s\<lparr>ms_locks := l\<rparr>) k v t = (store_write s k v t)\<lparr>ms_locks := l\<rparr>"
  by (simp add: store_write_def versions_of_def)

lemma store_write_locks_same: "(store_write s k v t)\<lparr>ms_locks := ms_locks s\<rparr> = store_write s k v t"
  by (simp add: store_write_def)

lemma tx_set_effect: "tx_set s tx key val = (s', tx', r) \<Longrightarrow> tx_effect s tx s' tx'"
  using lock_key_cases [of s key EXCLUSIVE "tx_id tx"] eff_none [where s = s and tx = tx and r = "tx_reads tx" and w = "tx_writes tx + 1"]
    eff_write [where tx = tx and s = s and k = key and v = val and w = "tx_writes tx + 1"]
    eff_write [where tx = tx and s = s and k = key and v = val and l = "ms_locks s" and w = "tx_writes tx + 1", unfolded store_write_locks_same] eff_refl
  by (auto simp: tx_set_def check_active_def Let_def store_write_locks split: sum.splits if_splits)

lemma tx_delete_set: "tx_delete s tx key = tx_set s tx key TX_TOMBSTONE"
  by (simp add: tx_delete_def tx_set_def)

lemma release_cases: "\<exists>l. release_pessimistic s tx = s\<lparr>ms_locks := l\<rparr>"
proof -
  have "s = s\<lparr>ms_locks := ms_locks s\<rparr>" by simp
  then show ?thesis unfolding release_pessimistic_def by (metis (full_types))
qed

lemma tx_commit_effect: "tx_commit s tx = (s', tx', r) \<Longrightarrow> tx_effect s tx s' tx'"
proof -
  assume r: "tx_commit s tx = (s', tx', r)"
  show ?thesis
  proof (cases "tx_committed tx \<or> tx_aborted tx")
    case False
    obtain s1 ok where c: "store_commit s tx = (s1, ok)" by (cases "store_commit s tx")
    obtain l where l: "release_pessimistic s1 tx = s1\<lparr>ms_locks := l\<rparr>" using release_cases by blast
    show ?thesis
    proof (cases ok)
      case True
      then show ?thesis using eff_commit [of tx s s1 l] r c l False by (auto simp: tx_commit_def check_active_def)
    next
      case no: False
      then have "s1 = store_abort s tx" using c by (simp add: store_commit_def split: if_splits)
      then show ?thesis using eff_abort [of tx s l] r c l False no by (auto simp: tx_commit_def check_active_def)
    qed
  qed (use r eff_refl in \<open>auto simp: tx_commit_def check_active_def\<close>)
qed

lemma tx_abort_effect: "tx_abort s tx = (s', tx', r) \<Longrightarrow> tx_effect s tx s' tx'"
proof -
  assume r: "tx_abort s tx = (s', tx', r)"
  show ?thesis
  proof (cases "tx_committed tx \<or> tx_aborted tx")
    case True
    then show ?thesis using r eff_refl by (auto simp: tx_abort_def)
  next
    case False
    obtain l where l: "release_pessimistic (store_abort s tx) tx = (store_abort s tx)\<lparr>ms_locks := l\<rparr>"
      using release_cases by blast
    have "tx' = tx\<lparr>tx_committed := False, tx_aborted := True\<rparr>" "s' = (store_abort s tx)\<lparr>ms_locks := l\<rparr>"
      using r l False by (cases tx, auto simp: tx_abort_def)+
    then show ?thesis using eff_abort [of tx s l] False by simp
  qed
qed

section \<open>The invariant\<close>

definition store_inv :: "mvcc_store \<Rightarrow> bool" where
  "store_inv s \<longleftrightarrow> dict_wf (ms_versions s) \<and> (\<forall>k. chain (versions_of s k)) \<and>
     (\<forall>k. \<forall>v\<in>set (versions_of s k). 0 < v_txid v \<and> (v_committed v \<longleftrightarrow> v_txid v \<in> ms_committed s) \<and>
        v_txid v \<in> ms_committed s \<union> ms_active s) \<and>
     0 \<in> ms_committed s \<and> finite (ms_committed s) \<and> finite (ms_active s) \<and> ms_committed s \<inter> ms_active s = {} \<and>
     0 \<notin> ms_active s \<and> ms_committed s \<union> ms_active s \<subseteq> {..<ms_next_txid s}"

definition wrote :: "mvcc_store \<Rightarrow> pystr \<Rightarrow> nat \<Rightarrow> bool" where
  "wrote s k t \<longleftrightarrow> t \<in> v_txid ` set (versions_of s k)"

definition tx_inv :: "mvcc_store \<Rightarrow> transaction \<Rightarrow> bool" where
  "tx_inv s tx \<longleftrightarrow> tx_snapshot tx < tx_id tx \<and> tx_id tx < ms_next_txid s \<and>
     (tx_id tx \<in> ms_active s \<longleftrightarrow> \<not> tx_committed tx \<and> \<not> tx_aborted tx) \<and>
     (tx_id tx \<in> ms_committed s \<longleftrightarrow> tx_committed tx) \<and>
     (\<forall>k. wrote s k (tx_id tx) \<longrightarrow> k \<in> set (tx_write_set tx)) \<and>
     (tx_id tx \<in> ms_active s \<longrightarrow> (\<forall>k\<in>set (tx_write_set tx). wrote s k (tx_id tx)))"

lemma versions_locks [simp]: "versions_of (s\<lparr>ms_locks := l\<rparr>) k = versions_of s k"
  by (simp add: versions_of_def)

lemma wrote_locks [simp]: "wrote (s\<lparr>ms_locks := l\<rparr>) k t = wrote s k t"
  by (simp add: wrote_def)

lemma inv_locks [simp]: "store_inv (s\<lparr>ms_locks := l\<rparr>) = store_inv s" "tx_inv (s\<lparr>ms_locks := l\<rparr>) tx = tx_inv s tx"
  by (simp_all add: store_inv_def tx_inv_def wrote_def)

lemma wrote_write: "wrote (store_write s key val t) k u \<longleftrightarrow> wrote s k u \<or> (k = key \<and> u = t)"
  by (auto simp: wrote_def versions_write image_iff)

lemma wrote_abort: "wrote (store_abort s tx) k u \<longleftrightarrow> wrote s k u \<and> \<not> (k \<in> set (tx_write_set tx) \<and> u = tx_id tx)"
  by (auto simp: wrote_def versions_abort image_iff)

lemma wrote_commit: "store_commit s tx = (s', True) \<Longrightarrow> wrote s' k u \<longleftrightarrow> wrote s k u"
proof -
  assume "store_commit s tx = (s', True)"
  then have "map v_txid (versions_of s' k) = map v_txid (versions_of s k)" by (simp add: versions_commit(1))
  then show ?thesis unfolding wrote_def by (metis set_map)
qed

lemma write_fields [simp]:
  "ms_committed (store_write s k v t) = ms_committed s" "ms_active (store_write s k v t) = ms_active s"
  "ms_next_txid (store_write s k v t) = ms_next_txid s"
  by (simp_all add: store_write_def)

lemma abort_fields [simp]:
  "ms_committed (store_abort s tx) = ms_committed s" "ms_active (store_abort s tx) = ms_active s - {tx_id tx}"
  "ms_next_txid (store_abort s tx) = ms_next_txid s"
  by (simp_all add: store_abort_def)

lemma dict_wf_fold:
  "dict_wf d \<Longrightarrow> dict_wf (fold (drop_versions t) ks d)" "dict_wf d \<Longrightarrow> dict_wf (fold (commit_versions t) ks d)"
proof -
  have "dict_wf d \<Longrightarrow> dict_wf (drop_versions t k d)" "dict_wf d \<Longrightarrow> dict_wf (commit_versions t k d)" for k d
    by (auto simp: drop_versions_def commit_versions_def Let_def split: option.splits)
  then show "dict_wf d \<Longrightarrow> dict_wf (fold (drop_versions t) ks d)" "dict_wf d \<Longrightarrow> dict_wf (fold (commit_versions t) ks d)"
    by (induction ks arbitrary: d) auto
qed

lemma version_inv:
  assumes "store_inv s" "v \<in> set (versions_of s k)"
  shows "0 < v_txid v" "v_committed v \<longleftrightarrow> v_txid v \<in> ms_committed s" "v_txid v \<in> ms_committed s \<union> ms_active s"
    "v_txid v < ms_next_txid s"
  using assms unfolding store_inv_def by blast+

lemma own_key:
  assumes "tx_inv s tx" "u \<in> set (versions_of s k)" "v_txid u = tx_id tx"
  shows "k \<in> set (tx_write_set tx)"
proof -
  have "wrote s k (tx_id tx)" using assms(2,3) unfolding wrote_def by (metis image_eqI)
  then show ?thesis using assms(1) by (simp add: tx_inv_def)
qed

lemma commit_store_inv:
  assumes inv: "store_inv s" "tx_inv s tx" and ac: "tx_id tx \<in> ms_active s" and c: "store_commit s tx = (s', True)"
  shows "store_inv s'"
proof -
  note v = versions_commit [OF c]
  have d: "dict_wf (ms_versions s')"
    using c inv(1) by (auto simp: store_commit_def store_inv_def dict_wf_fold split: if_splits)
  let ?g = "\<lambda>v. if v_txid v = tx_id tx then v\<lparr>v_committed := True\<rparr> else v"
  have ch: "chain (map ?g vs)" if "chain vs" for vs
  proof -
    have "map v_txid (map ?g vs) = map v_txid vs" by simp
    then show ?thesis using that unfolding chain_def by (simp only:)
  qed
  have own: "k \<in> set (tx_write_set tx)" if "u \<in> set (versions_of s k)" "v_txid u = tx_id tx" for k u
    by (rule own_key [OF inv(2) that])
  have "0 < v_txid u \<and> (v_committed u \<longleftrightarrow> v_txid u \<in> insert (tx_id tx) (ms_committed s)) \<and>
      v_txid u \<in> insert (tx_id tx) (ms_committed s) \<union> (ms_active s - {tx_id tx})"
    if u: "u \<in> set (versions_of s' k)" for u k
  proof (cases "k \<in> set (tx_write_set tx)")
    case True
    then obtain w where w: "w \<in> set (versions_of s k)" "u = ?g w" using u by (auto simp: v(1))
    then have "0 < v_txid w" "v_committed w \<longleftrightarrow> v_txid w \<in> ms_committed s" "v_txid w \<in> ms_committed s \<union> ms_active s"
      using inv(1) by (auto simp: store_inv_def)
    then show ?thesis using w(2) by auto
  next
    case False
    then have "u \<in> set (versions_of s k)" "v_txid u \<noteq> tx_id tx" using u own [of u k] by (auto simp: v(1))
    then show ?thesis using inv(1) by (auto simp: store_inv_def)
  qed
  moreover have "chain (versions_of s' k)" for k using inv(1) ch by (simp add: v(1) store_inv_def)
  ultimately show ?thesis using inv ac d unfolding store_inv_def v(3,4,5) by (auto simp: tx_inv_def)
qed

lemma abort_store_inv:
  assumes inv: "store_inv s" "tx_inv s tx" and ac: "tx_id tx \<in> ms_active s"
  shows "store_inv (store_abort s tx)"
proof -
  have own: "k \<in> set (tx_write_set tx)" if "u \<in> set (versions_of s k)" "v_txid u = tx_id tx" for k u
    by (rule own_key [OF inv(2) that])
  have old: "u \<in> set (versions_of s k)" "v_txid u \<noteq> tx_id tx" if "u \<in> set (versions_of (store_abort s tx) k)" for u k
    using that own [of u k] by (auto simp: versions_abort split: if_splits)
  have "0 < v_txid u \<and> (v_committed u \<longleftrightarrow> v_txid u \<in> ms_committed s) \<and> v_txid u \<in> ms_committed s \<union> (ms_active s - {tx_id tx})"
    if "u \<in> set (versions_of (store_abort s tx) k)" for u k
    using old [OF that] version_inv(1-3) [OF inv(1)] by blast
  moreover have "chain (versions_of (store_abort s tx) k)" for k
    using inv(1) by (simp add: versions_abort store_inv_def chain_filter)
  moreover have "dict_wf (ms_versions (store_abort s tx))"
    using inv(1) by (simp add: store_abort_def store_inv_def dict_wf_fold)
  ultimately show ?thesis using inv(1) unfolding store_inv_def abort_fields by blast
qed

lemma write_store_inv:
  assumes inv: "store_inv s" and ac: "t \<in> ms_active s"
  shows "store_inv (store_write s key val t)"
proof -
  have "chain (versions_of (store_write s key val t) k)" for k
    using inv chain_write by (simp add: versions_write store_inv_def)
  moreover have "u \<in> set (versions_of s k) \<or> u = \<lparr>v_txid = t, v_value = val, v_committed = False\<rparr>"
    if "u \<in> set (versions_of (store_write s key val t) k)" for u k
    using that by (auto simp: versions_write split: if_splits)
  moreover have "dict_wf (ms_versions (store_write s key val t))"
    using inv by (simp add: store_write_def store_inv_def)
  moreover have "t \<notin> ms_committed s" "0 < t" using inv ac by (auto simp: store_inv_def intro: gr0I)
  ultimately show ?thesis using inv ac by (fastforce simp: store_inv_def)
qed

lemma tx_inv_active: "tx_inv s tx \<Longrightarrow> \<not> tx_committed tx \<Longrightarrow> \<not> tx_aborted tx \<Longrightarrow> tx_id tx \<in> ms_active s"
  by (simp add: tx_inv_def)

lemma effect_store_inv:
  assumes "tx_effect s tx s' tx'" "store_inv s" "tx_inv s tx"
  shows "store_inv s'"
  using assms
proof (induction rule: tx_effect.induct)
  case (eff_write tx s l k v w)
  then show ?case using write_store_inv [OF _ tx_inv_active] by simp
next
  case (eff_commit tx s s' l)
  then show ?case using commit_store_inv [OF _ _ tx_inv_active] by simp
next
  case (eff_abort tx s l)
  then show ?case using abort_store_inv [OF _ _ tx_inv_active] by simp
qed simp

lemma effect_own_inv:
  assumes "tx_effect s tx s' tx'" "store_inv s" "tx_inv s tx"
  shows "tx_inv s' tx' \<and> tx_id tx' = tx_id tx \<and> tx_snapshot tx' = tx_snapshot tx"
  using assms
proof (induction rule: tx_effect.induct)
  case (eff_none s tx l w r)
  then show ?case by (simp add: tx_inv_def)
next
  case (eff_write tx s l k v w)
  then show ?case unfolding tx_inv_def by (simp (no_asm) add: wrote_write) blast
next
  case (eff_commit tx s s' l)
  then show ?case using wrote_commit [OF eff_commit(3)] versions_commit(3-5) [OF eff_commit(3)] by (simp add: tx_inv_def)
next
  case (eff_abort tx s l)
  then show ?case by (auto simp: tx_inv_def wrote_abort)
qed

lemma effect_other_inv:
  assumes "tx_effect s tx s' tx'" "store_inv s" "tx_inv s tx" "tx_inv s u" "tx_id u \<noteq> tx_id tx"
  shows "tx_inv s' u"
  using assms
proof (induction rule: tx_effect.induct)
  case (eff_write tx s l k v w)
  then show ?case by (simp add: tx_inv_def wrote_write)
next
  case (eff_commit tx s s' l)
  then show ?case using wrote_commit [OF eff_commit(3)] versions_commit(3-5) [OF eff_commit(3)] by (simp add: tx_inv_def)
next
  case (eff_abort tx s l)
  then show ?case by (simp add: tx_inv_def wrote_abort)
qed simp

section \<open>Reads of other transactions\<close>

text \<open>A call of one transaction changes what another one sees only by committing with a number within its snapshot.\<close>

lemma effect_visible:
  assumes "tx_effect s tx s' tx'" "store_inv s" "tx_inv s tx" "own \<noteq> tx_id tx"
    "tx_committed tx' \<longrightarrow> tx_committed tx \<or> sn < tx_id tx"
  shows "filter (visible sn own) (versions_of s' k) = filter (visible sn own) (versions_of s k)"
  using assms
proof (induction rule: tx_effect.induct)
  case (eff_write tx s l key v w)
  then have "tx_id tx \<notin> ms_committed s" by (simp add: tx_inv_def)
  then have nv: "\<not> visible sn own u" if "u \<in> set (versions_of s key)" "v_txid u = tx_id tx" for u
    using that eff_write(3,5) by (auto simp: visible_def store_inv_def)
  have "chain (versions_of s key)" using eff_write(3) by (simp add: store_inv_def)
  then have "filter (visible sn own) (versions_of (store_write s key v (tx_id tx)) key) = filter (visible sn own) (versions_of s key)"
    unfolding versions_write if_P [OF refl] by (rule filter_write) (use nv eff_write(5) in \<open>simp_all add: visible_def\<close>)
  then show ?case by (cases "k = key") (simp_all add: versions_write)
next
  case (eff_commit tx s s' l)
  let ?g = "\<lambda>v. if v_txid v = tx_id tx then v\<lparr>v_committed := True\<rparr> else v"
  have "sn < tx_id tx" using eff_commit by simp
  then have "filter (visible sn own) (map ?g vs) = filter (visible sn own) vs" for vs
    using eff_commit(6) by (intro filter_map_same) (auto simp: visible_def split: if_splits)
  then show ?case by (simp add: versions_commit(1) [OF eff_commit(3)])
next
  case (eff_abort tx s l)
  then have "tx_id tx \<notin> ms_committed s" by (simp add: tx_inv_def)
  then have "\<not> visible sn own u" if "u \<in> set (versions_of s k)" "v_txid u = tx_id tx" for u
    using that eff_abort(3,5) by (auto simp: visible_def store_inv_def)
  then have "filter (visible sn own) (filter (\<lambda>v. v_txid v \<noteq> tx_id tx) (versions_of s k)) = filter (visible sn own) (versions_of s k)"
    by (auto intro: filter_cong)
  then show ?case by (simp add: versions_abort)
qed simp

lemma inv_read:
  "store_inv s \<Longrightarrow> store_read s k sn own = latest_of (filter (visible sn own) (versions_of s k))"
  by (rule store_read_chain) (simp add: store_inv_def)

lemma effect_read:
  assumes "tx_effect s tx s' tx'" "store_inv s" "tx_inv s tx" "own \<noteq> tx_id tx"
    "tx_committed tx' \<longrightarrow> tx_committed tx \<or> sn < tx_id tx"
  shows "store_read s' k sn own = store_read s k sn own"
  using effect_visible [OF assms] effect_store_inv [OF assms(1-3)] assms(2) by (simp add: inv_read)

section \<open>Interleavings\<close>

definition db_inv :: "db \<Rightarrow> bool" where
  "db_inv d \<longleftrightarrow> store_inv (db_store d) \<and>
     (\<forall>t tx. dict_get (db_txs d) t = Some tx \<longrightarrow> tx_id tx = t \<and> tx_inv (db_store d) tx) \<and>
     (\<forall>t\<in>ms_active (db_store d). dict_get (db_txs d) t \<noteq> None)"

lemma db_inv_new: "db_inv db_new"
  by (simp add: db_inv_def db_new_def store_inv_def mvcc_new_def versions_of_def chain_def)

lemma begin_fields:
  assumes "begin_transaction s mode = (s', tx)"
  shows "versions_of s' = versions_of s" "ms_committed s' = ms_committed s" "ms_locks s' = ms_locks s"
    "ms_active s' = insert (ms_next_txid s) (ms_active s)" "ms_next_txid s' = Suc (ms_next_txid s)"
    "tx_id tx = ms_next_txid s" "tx_write_set tx = []" "\<not> tx_committed tx" "\<not> tx_aborted tx"
    "ms_versions s' = ms_versions s" "tx_mode tx = mode"
    "ms_committed s \<noteq> {} \<Longrightarrow> tx_snapshot tx = Max (ms_committed s)"
  using assms by (auto simp: begin_transaction_def Let_def versions_of_def fun_eq_iff)

lemma begin_inv:
  assumes b: "begin_transaction s mode = (s', tx)" and inv: "store_inv s"
  shows "store_inv s'" "tx_inv s' tx" "tx_inv s u \<Longrightarrow> tx_inv s' u"
proof -
  note f = begin_fields [OF b]
  have c: "finite (ms_committed s)" "ms_committed s \<noteq> {}" "ms_committed s \<subseteq> {..<ms_next_txid s}"
    "ms_active s \<subseteq> {..<ms_next_txid s}" "0 \<in> ms_committed s"
    using inv by (auto simp: store_inv_def)
  then have n: "Max (ms_committed s) < ms_next_txid s" "0 < ms_next_txid s" by auto
  show "store_inv s'" using inv c n unfolding store_inv_def f by auto
  have "\<not> wrote s k (ms_next_txid s)" for k
  proof
    assume "wrote s k (ms_next_txid s)"
    then obtain v where "v \<in> set (versions_of s k)" "v_txid v = ms_next_txid s" by (auto simp: wrote_def)
    then show False using version_inv(4) [OF inv] by fastforce
  qed
  moreover have w: "wrote s' k t = wrote s k t" for k t by (simp add: wrote_def f(1))
  moreover have "ms_next_txid s \<notin> ms_committed s" using c(3) by auto
  ultimately show "tx_inv s' tx" using n f by (simp add: tx_inv_def c(2))
  show "tx_inv s u \<Longrightarrow> tx_inv s' u" using f w by (auto simp: tx_inv_def)
qed

definition changed :: "db \<Rightarrow> nat \<Rightarrow> db \<Rightarrow> bool" where
  "changed d t d' \<longleftrightarrow> d' = d \<or> (\<exists>tx s' tx'. dict_get (db_txs d) t = Some tx \<and> tx_effect (db_store d) tx s' tx' \<and>
     d' = \<lparr>db_store = s', db_txs = dict_set t tx' (db_txs d)\<rparr>)"

lemma on_tx_effect:
  assumes "\<And>s tx s' tx' r. f s tx = (s', tx', r) \<Longrightarrow> tx_effect s tx s' tx'"
  shows "changed d t (on_tx d t f)"
proof (cases "dict_get (db_txs d) t")
  case (Some tx)
  obtain s' tx' r where f: "f (db_store d) tx = (s', tx', r)" using prod_cases3 by blast
  show ?thesis unfolding changed_def using assms [OF f] Some f by (intro disjI2 exI conjI) (auto simp: on_tx_def)
qed (simp add: on_tx_def changed_def)

fun caller :: "tx_call \<Rightarrow> nat option" where
  "caller (Begin m) = None" | "caller (Get t k) = Some t" | "caller (GetForUpdate t k) = Some t"
| "caller (Put t k v) = Some t" | "caller (Del t k) = Some t" | "caller (Commit t) = Some t"
| "caller (Abort t) = Some t" | "caller Vacuum = None"

lemma db_step_effect: "caller c = Some t \<Longrightarrow> changed d t (db_step d c)"
proof (cases c)
  case (Get u k)
  then show "caller c = Some t \<Longrightarrow> changed d t (db_step d c)" using on_tx_effect [OF tx_get_effect] by auto
next
  case (GetForUpdate u k)
  then show "caller c = Some t \<Longrightarrow> changed d t (db_step d c)" using on_tx_effect [OF tx_get_for_update_effect] by auto
next
  case (Put u k v)
  then show "caller c = Some t \<Longrightarrow> changed d t (db_step d c)" using on_tx_effect [OF tx_set_effect] by auto
next
  case (Del u k)
  then show "caller c = Some t \<Longrightarrow> changed d t (db_step d c)" using on_tx_effect [OF tx_set_effect] by (auto simp: tx_delete_set)
next
  case (Commit u)
  then show "caller c = Some t \<Longrightarrow> changed d t (db_step d c)" using on_tx_effect [OF tx_commit_effect] by auto
next
  case (Abort u)
  then show "caller c = Some t \<Longrightarrow> changed d t (db_step d c)" using on_tx_effect [OF tx_abort_effect] by auto
qed simp_all

lemma vacuum_keeps_inv:
  "chain vs \<Longrightarrow> chain (vacuum_keeps b vs)" "set (vacuum_keeps b vs) \<subseteq> set vs"
  "v \<in> set vs \<Longrightarrow> \<not> v_committed v \<Longrightarrow> v \<in> set (vacuum_keeps b vs)"
  by (auto simp: vacuum_keeps_def Let_def chain_filter)

lemma vacuum_fields:
  "ms_committed (fst (vacuum s)) = ms_committed s" "ms_active (fst (vacuum s)) = ms_active s"
  "ms_next_txid (fst (vacuum s)) = ms_next_txid s" "ms_locks (fst (vacuum s)) = ms_locks s"
  by (simp_all add: vacuum_def split: prod.splits)

lemma vacuum_keys_wf: "dict_wf d \<Longrightarrow> dict_wf (fst (vacuum_keys b ks d n))"
  by (induction b ks d n rule: vacuum_keys.induct) (auto simp: Let_def split: option.splits)

lemma vacuum_inv:
  assumes "store_inv s"
  shows "store_inv (fst (vacuum s))" "tx_inv s tx \<Longrightarrow> tx_inv (fst (vacuum s)) tx"
proof -
  have wf: "dict_wf (ms_versions s)" and ch: "chain (versions_of s k)" for k using assms by (auto simp: store_inv_def)
  note v = versions_vacuum [OF wf]
  have sub: "u \<in> set (versions_of (fst (vacuum s)) k) \<Longrightarrow> u \<in> set (versions_of s k)" for u k
    using vacuum_keeps_inv(2) by (auto simp: v)
  have "dict_wf (ms_versions (fst (vacuum s)))" using vacuum_keys_wf [OF wf] by (simp add: vacuum_def split: prod.splits) (metis fst_conv)
  moreover have "chain (versions_of (fst (vacuum s)) k)" for k using vacuum_keeps_inv(1) [OF ch] by (simp add: v)
  ultimately show "store_inv (fst (vacuum s))"
    using assms version_inv(1-3) [OF assms sub] unfolding store_inv_def vacuum_fields by blast
  have w: "wrote (fst (vacuum s)) k t \<Longrightarrow> wrote s k t" for k t using sub by (auto simp: wrote_def)
  have w2: "wrote (fst (vacuum s)) k t" if h: "wrote s k t" "t \<notin> ms_committed s" for k t
  proof -
    obtain u where u: "u \<in> set (versions_of s k)" "v_txid u = t" using h(1) by (auto simp: wrote_def)
    then have "\<not> v_committed u" using version_inv(2) [OF assms] h(2) by blast
    then show ?thesis using vacuum_keeps_inv(3) [OF u(1)] u(2) by (auto simp: wrote_def v)
  qed
  have "t \<in> ms_active s \<Longrightarrow> t \<notin> ms_committed s" for t using assms by (auto simp: store_inv_def)
  then show "tx_inv s tx \<Longrightarrow> tx_inv (fst (vacuum s)) tx"
    using w w2 unfolding tx_inv_def vacuum_fields by blast
qed

lemma changed_inv:
  assumes "changed d t d'" "db_inv d"
  shows "db_inv d'"
proof (cases "d' = d")
  case False
  then obtain tx s' tx' where c: "dict_get (db_txs d) t = Some tx" "tx_effect (db_store d) tx s' tx'"
    "d' = \<lparr>db_store = s', db_txs = dict_set t tx' (db_txs d)\<rparr>" using assms(1) by (auto simp: changed_def)
  have inv: "store_inv (db_store d)" "tx_inv (db_store d) tx" "tx_id tx = t" using assms(2) c(1) by (auto simp: db_inv_def)
  note e = effect_store_inv [OF c(2) inv(1,2)] effect_own_inv [OF c(2) inv(1,2)]
  have "ms_active s' \<subseteq> ms_active (db_store d)"
    using c(2) by (cases rule: tx_effect.cases) (auto simp: versions_commit(4))
  moreover have "tx_id u = x \<and> tx_inv s' u" if "dict_get (db_txs d) x = Some u" "x \<noteq> t" for x u
    using that assms(2) inv(3) effect_other_inv [OF c(2) inv(1,2)] by (auto simp: db_inv_def)
  ultimately show ?thesis using e inv(3) assms(2) by (auto simp: db_inv_def c(3) dict_simps)
qed (use assms(2) in simp)

lemma db_step_inv: "db_inv d \<Longrightarrow> db_inv (db_step d c)"
proof (cases "caller c")
  case None
  assume inv: "db_inv d"
  show ?thesis
  proof (cases c)
    case (Begin m)
    obtain s tx where b: "begin_transaction (db_store d) m = (s, tx)" by (cases "begin_transaction (db_store d) m")
    have si: "store_inv (db_store d)" using inv by (simp add: db_inv_def)
    have d': "db_step d c = \<lparr>db_store = s, db_txs = dict_set (tx_id tx) tx (db_txs d)\<rparr>" using Begin b by simp
    show ?thesis unfolding d' using inv begin_inv [OF b si] begin_fields(4,6) [OF b]
      by (auto simp: db_inv_def dict_simps)
  next
    case Vacuum
    then show ?thesis using inv vacuum_inv by (simp add: db_inv_def vacuum_fields)
  qed (use None in simp_all)
next
  case (Some t)
  then show "db_inv d \<Longrightarrow> ?thesis" using changed_inv [OF db_step_effect] by blast
qed

lemma db_run_inv: "db_inv d \<Longrightarrow> db_inv (db_run d cs)"
  by (induction d cs rule: db_run.induct) (simp_all add: db_step_inv)

lemma db_run_append: "db_run d (xs @ ys) = db_run (db_run d xs) ys"
  by (induction d xs rule: db_run.induct) simp_all

end
