(* ===== verification/Tx_Isolation.thy ===== *)
theory Tx_Isolation
  imports Tx_Invariant
begin

text \<open>
  What the transactions of \<open>transactions.py\<close> guarantee under every interleaving: reads of committed
  data and of own writes, repeatable reads, atomic commit, vacuum, two-phase locking; and the runs in
  which they give less than the module's description promises.
\<close>

section \<open>Reads\<close>






definition open_tx :: "transaction \<Rightarrow> bool" where
  "open_tx tx \<longleftrightarrow> \<not> tx_committed tx \<and> \<not> tx_aborted tx"

lemma run_inv:
  assumes "d = db_run db_new cs" "dict_get (db_txs d) t = Some tx"
  shows "store_inv (db_store d)" "tx_inv (db_store d) tx" "tx_id tx = t" "db_inv d"
  using db_run_inv [OF db_inv_new, of cs] assms by (auto simp: db_inv_def)


section \<open>Repeatable reads\<close>

lemma changed_read:
  assumes "changed d u d'" "db_inv d" "dict_get (db_txs d) t = Some tx" "u \<noteq> t"
    "\<forall>w\<in>ms_active (db_store d). w \<noteq> t \<longrightarrow> tx_snapshot tx < w"
  shows "db_read d' t k = db_read d t k" "dict_get (db_txs d') t = Some tx" "ms_active (db_store d') \<subseteq> ms_active (db_store d)"
proof -
  have "db_read d' t k = db_read d t k \<and> dict_get (db_txs d') t = Some tx \<and> ms_active (db_store d') \<subseteq> ms_active (db_store d)"
  proof (cases "d' = d")
    case False
    then obtain v s' v' where v: "dict_get (db_txs d) u = Some v" and e: "tx_effect (db_store d) v s' v'"
      and d': "d' = \<lparr>db_store = s', db_txs = dict_set u v' (db_txs d)\<rparr>" using assms(1) by (auto simp: changed_def)
    have inv: "store_inv (db_store d)" "tx_inv (db_store d) v" "tx_id v = u" "tx_id tx = t"
      using assms(2,3) v by (auto simp: db_inv_def)
    have c: "tx_committed v' \<longrightarrow> tx_committed v \<or> tx_snapshot tx < tx_id v"
      using e assms(4,5) inv tx_inv_active [OF inv(2)] by (auto elim: tx_effect.cases)
    have "store_read s' k (tx_snapshot tx) t = store_read (db_store d) k (tx_snapshot tx) t"
      using effect_read [OF e inv(1,2) _ c] assms(4) inv(3) by simp
    moreover have "ms_active s' \<subseteq> ms_active (db_store d)"
      using e by (cases rule: tx_effect.cases) (auto simp: versions_commit)
    ultimately show ?thesis using assms(3,4) inv(4) by (simp add: d' db_read_def dict_simps)
  qed (simp add: assms)
  then show "db_read d' t k = db_read d t k" "dict_get (db_txs d') t = Some tx" "ms_active (db_store d') \<subseteq> ms_active (db_store d)"
    by auto
qed

text \<open>The transactions that could still commit into the snapshot of \<open>t\<close>.\<close>

definition settled :: "db \<Rightarrow> nat \<Rightarrow> bool" where
  "settled d t \<longleftrightarrow> (\<forall>tx. dict_get (db_txs d) t = Some tx \<longrightarrow> (\<forall>w\<in>ms_active (db_store d). w \<noteq> t \<longrightarrow> tx_snapshot tx < w))"

fun quiet :: "nat \<Rightarrow> tx_call \<Rightarrow> bool" where
  "quiet t Vacuum = False"
| "quiet t c = (caller c \<noteq> Some t)"

lemma quiet_step:
  assumes "db_inv d" "dict_get (db_txs d) t = Some tx" "settled d t" "quiet t c"
  shows "db_read (db_step d c) t k = db_read d t k" "dict_get (db_txs (db_step d c)) t = Some tx" "settled (db_step d c) t"
proof -
  have "db_read (db_step d c) t k = db_read d t k \<and> dict_get (db_txs (db_step d c)) t = Some tx \<and> settled (db_step d c) t"
  proof (cases "caller c")
    case (Some u)
    then have "u \<noteq> t" using assms(4) by (cases c) auto
    from changed_read [OF db_step_effect [OF Some] assms(1,2) this] assms(2,3) show ?thesis by (auto simp: settled_def)
  next
    case None
    then obtain m where c: "c = Begin m" using assms(4) by (cases c) auto
    obtain s' n where b: "begin_transaction (db_store d) m = (s', n)" by (metis surj_pair)
    note f = begin_fields [OF b]
    have t: "t < ms_next_txid (db_store d)" "tx_snapshot tx < t" "tx_id tx = t" using assms(1,2) by (auto simp: db_inv_def tx_inv_def)
    have "store_read s' k (tx_snapshot tx) t = store_read (db_store d) k (tx_snapshot tx) t" using f by (simp add: store_read_def)
    then show ?thesis using assms(2,3) t f by (auto simp: c b db_read_def settled_def dict_simps)
  qed
  then show "db_read (db_step d c) t k = db_read d t k" "dict_get (db_txs (db_step d c)) t = Some tx" "settled (db_step d c) t"
    by auto
qed

lemma quiet_run:
  "db_inv d \<Longrightarrow> dict_get (db_txs d) t = Some tx \<Longrightarrow> settled d t \<Longrightarrow> list_all (quiet t) cs \<Longrightarrow>
     db_read (db_run d cs) t k = db_read d t k"
proof (induction cs arbitrary: d)
  case (Cons c cs)
  have q: "quiet t c" "list_all (quiet t) cs" using Cons.prems(4) by auto
  note st = quiet_step [OF Cons.prems(1-3) q(1)]
  show ?case using Cons.IH [OF db_step_inv [OF Cons.prems(1)] st(2,3) q(2)] st(1) [of k] by simp
qed simp

text \<open>
  Repeatable reads (C14). Once no other open transaction has a number within the snapshot of \<open>t\<close> (in
  particular when \<open>t\<close> was begun after every other one had finished), no interleaving of calls of the
  other transactions, begins, commits and aborts included, changes what \<open>t\<close> reads; only \<open>vacuum\<close> is left out.
\<close>
theorem repeatable_read:
  assumes "d = db_run db_new cs" "dict_get (db_txs d) t = Some tx" "settled d t" "list_all (quiet t) later"
  shows "db_read (db_run d later) t k = db_read d t k"
  using quiet_run [OF run_inv(4) [OF assms(1,2)] assms(2-4)] .

theorem repeatable_read_witness:
  "let d = db_run db_new [Begin OPTIMISTIC, Put 1 (str ''x'') (str ''old''), Commit 1, Begin OPTIMISTIC];
       later = [Begin OPTIMISTIC, Put 3 (str ''x'') (str ''new''), Commit 3] in
   db_read (db_run d later) 2 (str ''x'') = db_read d 2 (str ''x'') \<and> db_read d 2 (str ''x'') = Some (str ''old'')"
proof -
  define d where "d = db_run db_new [Begin OPTIMISTIC, Put 1 (str ''x'') (str ''old''), Commit 1, Begin OPTIMISTIC]"
  have *: "dict_get (db_txs d) 2 = Some \<lparr>tx_id = 2, tx_snapshot = 1, tx_mode = OPTIMISTIC, tx_write_set = [],
       tx_committed = False, tx_aborted = False, tx_reads = 0, tx_writes = 0\<rparr>"
    "ms_active (db_store d) = {2}" "db_read d 2 (str ''x'') = Some (str ''old'')"
    unfolding d_def by code_simp+
  have "settled d 2" by (simp add: settled_def *)
  from repeatable_read [OF d_def *(1) this, of "[Begin OPTIMISTIC, Put 3 (str ''x'') (str ''new''), Commit 3]" "str ''x''"]
  show ?thesis using *(3) by (simp add: Let_def d_def)
qed


section \<open>Commit\<close>

definition latest :: "mvcc_store \<Rightarrow> pystr \<Rightarrow> pystr option" where
  "latest s k = latest_of (filter v_committed (versions_of s k))"

lemma latest_locks [simp]: "latest (s\<lparr>ms_locks := l\<rparr>) k = latest s k"
  by (simp add: latest_def)

lemma latest_release [simp]: "latest (release_pessimistic s tx) k = latest s k"
  using release_cases [of s tx] by auto






lemma chain_last_Max:
  assumes "chain vs" "vs \<noteq> []"
  shows "Max (v_txid ` set vs) = v_txid (last vs)"
proof (rule Max_eqI)
  fix n
  assume "n \<in> v_txid ` set vs"
  then show "n \<le> v_txid (last vs)"
    using assms by (induction vs) (auto simp: chain_def less_imp_le)
qed (use assms in auto)

lemma last_filter_keep: "xs \<noteq> [] \<Longrightarrow> P (last xs) \<Longrightarrow> filter P xs \<noteq> [] \<and> last (filter P xs) = last xs"
  by (induction xs rule: rev_induct) auto

lemma vacuum_keeps_latest_of:
  assumes "chain vs"
  shows "latest_of (filter v_committed (vacuum_keeps b vs)) = latest_of (filter v_committed vs)"
proof (cases "length (filter v_committed vs) \<le> 1")
  case False
  let ?cs = "filter v_committed vs"
  have ne: "?cs \<noteq> []" using False by auto
  have m: "Max (v_txid ` {v \<in> set vs. v_committed v}) = v_txid (last ?cs)"
    using chain_last_Max [OF chain_filter [OF assms] ne] by simp
  let ?P = "\<lambda>v. \<not> (v_committed v \<and> v_txid v < v_txid (last ?cs) \<and> v_txid v < b)"
  have "filter v_committed (vacuum_keeps b vs) = filter ?P ?cs"
    using False by (auto simp: vacuum_keeps_def Let_def m intro!: filter_cong)
  moreover have "filter ?P ?cs \<noteq> [] \<and> last (filter ?P ?cs) = last ?cs" by (rule last_filter_keep [OF ne]) simp
  ultimately show ?thesis using ne by (simp only: latest_of_def simp_thms)
qed (simp add: vacuum_keeps_def)

lemma vacuum_keeps_open: "filter (\<lambda>v. \<not> v_committed v) (vacuum_keeps b vs) = filter (\<lambda>v. \<not> v_committed v) vs"
  by (auto simp: vacuum_keeps_def Let_def intro!: filter_cong)

text \<open>
  Vacuum keeps the current data (C28). In every interleaving, a vacuum leaves the newest committed value
  of every key as it was and drops no version that is not committed.
\<close>
theorem vacuum_keeps_latest:
  assumes "d = db_run db_new cs"
  shows "latest (fst (vacuum (db_store d))) k = latest (db_store d) k \<and>
     filter (\<lambda>v. \<not> v_committed v) (versions_of (fst (vacuum (db_store d))) k) = filter (\<lambda>v. \<not> v_committed v) (versions_of (db_store d) k)"
proof -
  have inv: "store_inv (db_store d)" using db_run_inv [OF db_inv_new, of cs] assms by (simp add: db_inv_def)
  then have "versions_of (fst (vacuum (db_store d))) k = vacuum_keeps (min_active (db_store d)) (versions_of (db_store d) k)"
    by (simp add: versions_vacuum store_inv_def)
  then show ?thesis using inv by (simp add: latest_def vacuum_keeps_latest_of vacuum_keeps_open store_inv_def)
qed

theorem vacuum_keeps_latest_witness:
  "let s = db_store (db_run db_new [Begin OPTIMISTIC, Put 1 (str ''x'') (str ''a''), Commit 1,
       Begin OPTIMISTIC, Put 2 (str ''x'') (str ''b''), Commit 2]) in
   snd (vacuum s) = 1 \<and> latest (fst (vacuum s)) (str ''x'') = Some (str ''b'')"
proof -
  define d where "d = db_run db_new [Begin OPTIMISTIC, Put 1 (str ''x'') (str ''a''), Commit 1,
       Begin OPTIMISTIC, Put 2 (str ''x'') (str ''b''), Commit 2]"
  have "snd (vacuum (db_store d)) = 1" "latest (db_store d) (str ''x'') = Some (str ''b'')" unfolding d_def by code_simp+
  then show ?thesis using vacuum_keeps_latest [OF d_def, of "str ''x''"] unfolding Let_def d_def [symmetric] by simp
qed

section \<open>Locks\<close>

definition holds_x :: "lock_table \<Rightarrow> pystr \<Rightarrow> nat \<Rightarrow> bool" where
  "holds_x tbl k t \<longleftrightarrow> (\<exists>en. dict_get tbl k = Some en \<and> le_exclusive en = Some t)"

lemma acquire_holds:
  assumes "acquire tbl key lt u = (tbl', r)"
  shows "holds_x tbl k t \<Longrightarrow> holds_x tbl' k t"
    "lt = EXCLUSIVE \<Longrightarrow> r = Inr () \<Longrightarrow> holds_x tbl' key u"
  using assms
  by (auto simp: acquire_def lock_entry_of_def holds_x_def Let_def dict_simps split: option.splits if_splits lock_type.splits)

lemma release_get: "dict_get (release_all tbl t) k = map_option (release_entry t) (dict_get tbl k)"
  by (induction tbl) (auto simp: release_all_def)

lemma release_holds: "holds_x tbl k t \<Longrightarrow> t \<noteq> u \<Longrightarrow> holds_x (release_all tbl u) k t"
  by (force simp: holds_x_def release_get release_entry_def)

text \<open>What a call of \<open>tx\<close> does to the locks: the others keep theirs, and an open pessimistic transaction holds those of the keys it wrote.\<close>

definition locks_ok :: "mvcc_store \<Rightarrow> transaction \<Rightarrow> bool" where
  "locks_ok s tx \<longleftrightarrow> (tx_mode tx = PESSIMISTIC \<and> open_tx tx \<longrightarrow> (\<forall>k\<in>set (tx_write_set tx). holds_x (ms_locks s) k (tx_id tx)))"

definition keeps_locks :: "mvcc_store \<Rightarrow> transaction \<Rightarrow> mvcc_store \<Rightarrow> transaction \<Rightarrow> bool" where
  "keeps_locks s tx s' tx' \<longleftrightarrow>
     (\<forall>k t. t \<noteq> tx_id tx \<longrightarrow> holds_x (ms_locks s) k t \<longrightarrow> holds_x (ms_locks s') k t) \<and> (locks_ok s tx \<longrightarrow> locks_ok s' tx')"

lemma lock_key_holds:
  assumes "lock_key s key lt u = (s', r)"
  shows "holds_x (ms_locks s) k t \<Longrightarrow> holds_x (ms_locks s') k t"
    "lt = EXCLUSIVE \<Longrightarrow> r = Inr () \<Longrightarrow> holds_x (ms_locks s') key u"
  using assms acquire_holds [of "ms_locks s" key lt u] by (auto simp: lock_key_def split: prod.splits)

lemma write_locks [simp]: "ms_locks (store_write s k v t) = ms_locks s"
  by (simp add: store_write_def)

lemma tx_get_keeps_locks: "tx_get s tx key = (s', tx', r) \<Longrightarrow> keeps_locks s tx s' tx'"
  by (auto simp: tx_get_def keeps_locks_def locks_ok_def open_tx_def Let_def split: sum.splits if_splits prod.splits
      intro: lock_key_holds(1))

lemma tx_get_for_update_keeps_locks: "tx_get_for_update s tx key = (s', tx', r) \<Longrightarrow> keeps_locks s tx s' tx'"
  by (auto simp: tx_get_for_update_def keeps_locks_def locks_ok_def open_tx_def Let_def split: sum.splits if_splits prod.splits
      intro: lock_key_holds(1))

lemma tx_set_keeps_locks: "tx_set s tx key val = (s', tx', r) \<Longrightarrow> keeps_locks s tx s' tx'"
  by (auto simp: tx_set_def check_active_def keeps_locks_def locks_ok_def open_tx_def Let_def split: sum.splits if_splits prod.splits)
     (blast intro: lock_key_holds)+

lemma release_keeps:
  "t \<noteq> tx_id tx \<Longrightarrow> holds_x (ms_locks s) k t \<Longrightarrow> holds_x (ms_locks (release_pessimistic s tx)) k t"
  by (auto simp: release_pessimistic_def release_holds)

lemma abort_locks [simp]: "ms_locks (store_abort s tx) = ms_locks s"
  by (simp add: store_abort_def)

lemma commit_locks: "store_commit s tx = (s', ok) \<Longrightarrow> ms_locks s' = ms_locks s"
  by (auto simp: store_commit_def split: if_splits)

lemma tx_commit_keeps_locks: "tx_commit s tx = (s', tx', r) \<Longrightarrow> keeps_locks s tx s' tx'"
  by (auto simp: tx_commit_def keeps_locks_def locks_ok_def open_tx_def check_active_def split: sum.splits if_splits prod.splits
      dest!: commit_locks intro!: release_keeps)

lemma tx_abort_keeps_locks: "tx_abort s tx = (s', tx', r) \<Longrightarrow> keeps_locks s tx s' tx'"
  by (auto simp: tx_abort_def keeps_locks_def locks_ok_def open_tx_def split: if_splits intro!: release_keeps)

lemmas keeps_locks_intros =
  tx_get_keeps_locks tx_get_for_update_keeps_locks tx_set_keeps_locks tx_commit_keeps_locks tx_abort_keeps_locks

definition db_locks :: "db \<Rightarrow> bool" where
  "db_locks d \<longleftrightarrow> (\<forall>t tx. dict_get (db_txs d) t = Some tx \<longrightarrow> locks_ok (db_store d) tx)"

lemma on_tx_locks:
  assumes "\<And>s tx s' tx' r. f s tx = (s', tx', r) \<Longrightarrow> keeps_locks s tx s' tx'" "db_inv d" "db_locks d"
  shows "db_locks (on_tx d t f)"
proof (cases "dict_get (db_txs d) t")
  case (Some tx)
  obtain s' tx' r where f: "f (db_store d) tx = (s', tx', r)" by (metis prod_cases3)
  have id: "tx_id u = w" if "dict_get (db_txs d) w = Some u" for u w using that assms(2) by (simp add: db_inv_def)
  show ?thesis using assms(1) [OF f] assms(3) Some id
    by (auto simp: on_tx_def f db_locks_def dict_simps keeps_locks_def locks_ok_def)
qed (simp add: on_tx_def assms)

lemma db_step_locks: "db_inv d \<Longrightarrow> db_locks d \<Longrightarrow> db_locks (db_step d c)"
proof (cases c)
  case (Begin m)
  obtain s' n where b: "begin_transaction (db_store d) m = (s', n)" by fastforce
  assume "db_locks d"
  then show ?thesis using begin_fields [OF b] by (auto simp: Begin b db_locks_def locks_ok_def dict_simps)
next
  case Vacuum
  assume "db_locks d"
  then show ?thesis by (simp add: Vacuum db_locks_def locks_ok_def vacuum_fields)
qed (auto simp: tx_delete_set intro!: on_tx_locks intro: keeps_locks_intros)

lemma db_run_locks: "db_inv d \<Longrightarrow> db_locks d \<Longrightarrow> db_locks (db_run d cs)"
  by (induction cs arbitrary: d) (simp_all add: db_step_inv db_step_locks)

text \<open>
  Two-phase locking (C13). In every interleaving, two open pessimistic transactions never have written
  the same key: the exclusive lock taken by the first write is held until commit or abort.
\<close>
theorem pessimistic_exclusion:
  assumes "d = db_run db_new cs" "dict_get (db_txs d) t = Some tx" "dict_get (db_txs d) u = Some ux" "t \<noteq> u"
    "open_tx tx" "open_tx ux" "tx_mode tx = PESSIMISTIC" "tx_mode ux = PESSIMISTIC"
  shows "set (tx_write_set tx) \<inter> set (tx_write_set ux) = {}"
proof -
  have "db_locks d" using db_run_locks [OF db_inv_new, of cs] assms(1) by (simp add: db_locks_def db_new_def)
  then have "locks_ok (db_store d) tx" "locks_ok (db_store d) ux" using assms(2,3) by (auto simp: db_locks_def)
  moreover have "tx_id tx = t" "tx_id ux = u" using run_inv(3) [OF assms(1)] assms(2,3) by auto
  ultimately show ?thesis using assms(4-8) by (fastforce simp: locks_ok_def holds_x_def)
qed

theorem pessimistic_exclusion_witness:
  "let d = db_run db_new [Begin PESSIMISTIC, Begin PESSIMISTIC, Put 1 (str ''x'') (str ''a''), Put 2 (str ''x'') (str ''b''), Put 2 (str ''y'') (str ''b'')];
       ws = (\<lambda>t. tx_write_set (the (dict_get (db_txs d) t))) in
   set (ws 1) \<inter> set (ws 2) = {} \<and> ws 1 = [str ''x''] \<and> ws 2 = [str ''y'']"
proof -
  define d where "d = db_run db_new [Begin PESSIMISTIC, Begin PESSIMISTIC, Put 1 (str ''x'') (str ''a''), Put 2 (str ''x'') (str ''b''), Put 2 (str ''y'') (str ''b'')]"
  define tx where "tx = (\<lambda>t. the (dict_get (db_txs d) t))"
  have *: "dict_get (db_txs d) 1 = Some (tx 1)" "dict_get (db_txs d) 2 = Some (tx 2)" unfolding tx_def d_def by code_simp+
  have o: "open_tx (tx 1)" "open_tx (tx 2)" "tx_mode (tx 1) = PESSIMISTIC" "tx_mode (tx 2) = PESSIMISTIC"
    unfolding tx_def d_def by code_simp+
  have w: "tx_write_set (tx 1) = [str ''x'']" "tx_write_set (tx 2) = [str ''y'']" unfolding tx_def d_def by code_simp+
  show ?thesis using pessimistic_exclusion [OF d_def * _ o] w unfolding Let_def d_def [symmetric] tx_def [symmetric] by (simp add: tx_def)
qed

section \<open>Anomalies\<close>

text \<open>
  A snapshot is the largest committed number, so a transaction with a smaller number that commits later
  enters it: transaction 3 reads the key twice and gets two answers, with no write of its own.
\<close>
lemma snapshot_moves:
  "let d = db_run db_new [Begin OPTIMISTIC, Put 1 (str ''x'') (str ''new''), Begin OPTIMISTIC, Commit 2, Begin OPTIMISTIC] in
   db_read d 3 (str ''x'') = None \<and> db_read (db_step d (Commit 1)) 3 (str ''x'') = Some (str ''new'')"
  by code_simp



text \<open>
  A pessimistic commit can fail: the lock of 2 is taken after 1 committed, but the snapshot of 2 is older.
\<close>
lemma pessimistic_commit_fails:
  "let d = db_run db_new [Begin PESSIMISTIC, Begin PESSIMISTIC, Put 1 (str ''x'') (str ''a''), Commit 1, Put 2 (str ''x'') (str ''b''), Commit 2] in
   tx_aborted (the (dict_get (db_txs d) 2))"
  by code_simp

text \<open>The exclusive lock of \<open>get_for_update\<close> in an optimistic transaction outlives the transaction.\<close>

lemma for_update_lock_leaks:
  "let d = db_run db_new [Begin OPTIMISTIC, GetForUpdate 1 (str ''x''), Commit 1] in
   \<not> open_tx (the (dict_get (db_txs d) 1)) \<and> held_by (ms_locks (db_store d)) 1 = [(str ''x'', EXCLUSIVE)]"
  by code_simp

end
