(* ===== verification/Py_Hash.thy ===== *)
theory Py_Hash
  imports Py_Bytes
begin

text \<open>
  \<open>hashlib.md5\<close>: the MD5 digest of a byte string (RFC 1321), on numbers below \<open>2 ^ 32\<close> with the
  wrap-around written out.
\<close>

unbundle bit_operations_syntax

type_synonym md5_state = "nat \<times> nat \<times> nat \<times> nat"

definition le_bytes :: "nat \<Rightarrow> nat \<Rightarrow> bytes" where
  "le_bytes w n = map (\<lambda>i. n div 256 ^ i mod 256) [0..<w]"

definition md5_pad :: "bytes \<Rightarrow> bytes" where
  "md5_pad data =
     (let n = length data in data @ 0x80 # replicate ((119 - n mod 64) mod 64) 0 @ le_bytes 8 (8 * n))"

fun le_words :: "bytes \<Rightarrow> nat list" where
  "le_words (a # b # c # d # bs) = (a + 256 * (b + 256 * (c + 256 * d))) # le_words bs"
| "le_words _ = []"

definition not32 :: "nat \<Rightarrow> nat" where
  "not32 x = x XOR 0xFFFFFFFF"

definition add32 :: "nat \<Rightarrow> nat \<Rightarrow> nat" where
  "add32 x y = (x + y) mod 2 ^ 32"

definition rotl32 :: "nat \<Rightarrow> nat \<Rightarrow> nat" where
  "rotl32 s x = (x * 2 ^ s) mod 2 ^ 32 + x div 2 ^ (32 - s)"

text \<open>A step of a round: message word, shift and constant. The four rounds differ in the table and in the mixing function.\<close>

fun md5_round :: "(nat \<Rightarrow> nat \<Rightarrow> nat \<Rightarrow> nat) \<Rightarrow> nat list \<Rightarrow> (nat \<times> nat \<times> nat) list \<Rightarrow> md5_state \<Rightarrow> md5_state" where
  "md5_round f m [] st = st"
| "md5_round f m ((g, s, k) # rs) (a, b, c, d) =
     md5_round f m rs (d, add32 b (rotl32 s ((f b c d + a + k + m ! g) mod 2 ^ 32)), b, c)"

definition md5_table1 :: "(nat \<times> nat \<times> nat) list" where
  "md5_table1 =
     [(0, 7, 0xD76AA478), (1, 12, 0xE8C7B756), (2, 17, 0x242070DB), (3, 22, 0xC1BDCEEE),
      (4, 7, 0xF57C0FAF), (5, 12, 0x4787C62A), (6, 17, 0xA8304613), (7, 22, 0xFD469501),
      (8, 7, 0x698098D8), (9, 12, 0x8B44F7AF), (10, 17, 0xFFFF5BB1), (11, 22, 0x895CD7BE),
      (12, 7, 0x6B901122), (13, 12, 0xFD987193), (14, 17, 0xA679438E), (15, 22, 0x49B40821)]"

definition md5_table2 :: "(nat \<times> nat \<times> nat) list" where
  "md5_table2 =
     [(1, 5, 0xF61E2562), (6, 9, 0xC040B340), (11, 14, 0x265E5A51), (0, 20, 0xE9B6C7AA),
      (5, 5, 0xD62F105D), (10, 9, 0x02441453), (15, 14, 0xD8A1E681), (4, 20, 0xE7D3FBC8),
      (9, 5, 0x21E1CDE6), (14, 9, 0xC33707D6), (3, 14, 0xF4D50D87), (8, 20, 0x455A14ED),
      (13, 5, 0xA9E3E905), (2, 9, 0xFCEFA3F8), (7, 14, 0x676F02D9), (12, 20, 0x8D2A4C8A)]"

definition md5_table3 :: "(nat \<times> nat \<times> nat) list" where
  "md5_table3 =
     [(5, 4, 0xFFFA3942), (8, 11, 0x8771F681), (11, 16, 0x6D9D6122), (14, 23, 0xFDE5380C),
      (1, 4, 0xA4BEEA44), (4, 11, 0x4BDECFA9), (7, 16, 0xF6BB4B60), (10, 23, 0xBEBFBC70),
      (13, 4, 0x289B7EC6), (0, 11, 0xEAA127FA), (3, 16, 0xD4EF3085), (6, 23, 0x04881D05),
      (9, 4, 0xD9D4D039), (12, 11, 0xE6DB99E5), (15, 16, 0x1FA27CF8), (2, 23, 0xC4AC5665)]"

definition md5_table4 :: "(nat \<times> nat \<times> nat) list" where
  "md5_table4 =
     [(0, 6, 0xF4292244), (7, 10, 0x432AFF97), (14, 15, 0xAB9423A7), (5, 21, 0xFC93A039),
      (12, 6, 0x655B59C3), (3, 10, 0x8F0CCC92), (10, 15, 0xFFEFF47D), (1, 21, 0x85845DD1),
      (8, 6, 0x6FA87E4F), (15, 10, 0xFE2CE6E0), (6, 15, 0xA3014314), (13, 21, 0x4E0811A1),
      (4, 6, 0xF7537E82), (11, 10, 0xBD3AF235), (2, 15, 0x2AD7D2BB), (9, 21, 0xEB86D391)]"

definition md5_block :: "nat list \<Rightarrow> md5_state \<Rightarrow> md5_state" where
  "md5_block m st =
     (let st1 = md5_round (\<lambda>b c d. (b AND c) OR (not32 b AND d)) m md5_table1 st;
          st2 = md5_round (\<lambda>b c d. (d AND b) OR (not32 d AND c)) m md5_table2 st1;
          st3 = md5_round (\<lambda>b c d. b XOR c XOR d) m md5_table3 st2;
          st4 = md5_round (\<lambda>b c d. c XOR (b OR not32 d)) m md5_table4 st3 in
      case st of (a, b, c, d) \<Rightarrow> case st4 of (a', b', c', d') \<Rightarrow>
        (add32 a a', add32 b b', add32 c c', add32 d d'))"

fun md5_blocks :: "nat list \<Rightarrow> md5_state \<Rightarrow> md5_state" where
  "md5_blocks [] st = st"
| "md5_blocks (w # ws) st = md5_blocks (drop 15 ws) (md5_block (w # take 15 ws) st)"

definition md5 :: "bytes \<Rightarrow> bytes" where
  "md5 data =
     (case md5_blocks (le_words (md5_pad data)) (0x67452301, 0xEFCDAB89, 0x98BADCFE, 0x10325476) of
        (a, b, c, d) \<Rightarrow> le_bytes 4 a @ le_bytes 4 b @ le_bytes 4 c @ le_bytes 4 d)"

section \<open>Evaluation\<close>

lemma replicate_numeral_Cons: "replicate (numeral k) x = x # replicate (pred_numeral k) x"
  by (simp add: numeral_eq_Suc)

lemma upt_4_8: "[0..<4] = [0, 1, 2, 3::nat]" "[0..<8] = [0, 1, 2, 3, 4, 5, 6, 7::nat]"
  by (simp_all add: upt_rec)

lemmas md5_words_eval = md5_pad_def le_bytes_def upt_4_8 replicate_numeral_Cons Let_def
lemmas md5_eval = md5_def md5_block_def md5_table1_def md5_table2_def md5_table3_def md5_table4_def
  not32_def add32_def rotl32_def md5_words_eval unpack_be_def

text \<open>The digest of \<open>abc\<close> in the test suite of RFC 1321.\<close>

lemma md5_check_value: "unpack_be (md5 (str ''abc'')) = 0x900150983cd24fb0d6963f7d28e17f72"
  by (simp add: md5_eval str_def)

end
