(* ===== verification/Sharding.thy ===== *)
theory Sharding
  imports Py_Hash Py_Text
begin

text \<open>
  \<open>sharding.py\<close>: the consistent-hash ring with virtual nodes and the sharded store routed by it.
  Methods that change an object return it with their result, so that the changes made before a raise
  are kept. A set of node names is a set; the percentages of \<open>load_distribution\<close>, which are floats,
  are left as the sizes they are computed from.
\<close>

section \<open>Positions\<close>

definition RING_SIZE :: nat where
  "RING_SIZE = 2 ^ 32"

definition ring_hash :: "pystr \<Rightarrow> nat result" where
  "ring_hash key = bindE (utf8_encode key) (\<lambda>b. Inr (unpack_be (md5 b) mod RING_SIZE))"

record vnode =
  vn_position :: nat
  vn_node_id :: pystr
  vn_vnode_id :: nat

section \<open>The ring\<close>

record ring =
  vnodes_per_node :: nat
  rg_ring :: "nat list"
  rg_vnodes :: "(nat, vnode) dict"
  rg_nodes :: "pystr set"

definition ring_new :: "nat \<Rightarrow> ring" where
  "ring_new vpn = \<lparr>vnodes_per_node = vpn, rg_ring = [], rg_vnodes = [], rg_nodes = {}\<rparr>"

definition vnode_name :: "pystr \<Rightarrow> nat \<Rightarrow> pystr" where
  "vnode_name node_id i = node_id @ str '':vnode:'' @ str_of_nat i"

fun add_vnodes :: "pystr \<Rightarrow> nat list \<Rightarrow> ring \<Rightarrow> nat list \<Rightarrow> ring \<times> nat list result" where
  "add_vnodes node_id [] r positions = (r, Inr positions)"
| "add_vnodes node_id (i # is) r positions =
     (case ring_hash (vnode_name node_id i) of
        Inl e \<Rightarrow> (r, Inl e)
      | Inr pos \<Rightarrow>
          let vn = \<lparr>vn_position = pos, vn_node_id = node_id, vn_vnode_id = i\<rparr> in
          add_vnodes node_id is
            (r\<lparr>rg_vnodes := dict_set pos vn (rg_vnodes r),
               rg_ring := list_insert (bisect_right (rg_ring r) pos) pos (rg_ring r)\<rparr>)
            (positions @ [pos]))"

definition ring_add_node :: "ring \<Rightarrow> pystr \<Rightarrow> ring \<times> nat list result" where
  "ring_add_node r node_id =
     (if node_id \<in> rg_nodes r then (r, Inl ValueError)
      else case add_vnodes node_id [0..<vnodes_per_node r] r [] of
             (r, Inl e) \<Rightarrow> (r, Inl e)
           | (r, Inr positions) \<Rightarrow> (r\<lparr>rg_nodes := insert node_id (rg_nodes r)\<rparr>, Inr positions))"

definition remove_position :: "nat \<Rightarrow> ring \<Rightarrow> ring" where
  "remove_position pos r =
     (let idx = bisect_left (rg_ring r) pos in
      r\<lparr>rg_vnodes := dict_del pos (rg_vnodes r),
        rg_ring := (if idx < length (rg_ring r) \<and> rg_ring r ! idx = pos
                    then list_remove_at idx (rg_ring r) else rg_ring r)\<rparr>)"

definition ring_remove_node :: "ring \<Rightarrow> pystr \<Rightarrow> ring \<times> nat result" where
  "ring_remove_node r node_id =
     (if node_id \<notin> rg_nodes r then (r, Inl ValueError)
      else let positions = map fst (filter (\<lambda>(pos, vn). vn_node_id vn = node_id) (rg_vnodes r));
               r' = fold remove_position positions r in
           (r'\<lparr>rg_nodes := rg_nodes r' - {node_id}\<rparr>, Inr (length positions)))"

text \<open>\<open>self._vnodes[self._ring[idx]].node_id\<close>\<close>

definition node_at :: "ring \<Rightarrow> nat \<Rightarrow> pystr result" where
  "node_at r idx =
     bindE (nth_err (rg_ring r) idx) (\<lambda>pos.
       case dict_get (rg_vnodes r) pos of None \<Rightarrow> Inl KeyError | Some vn \<Rightarrow> Inr (vn_node_id vn))"

definition get_node :: "ring \<Rightarrow> pystr \<Rightarrow> pystr option result" where
  "get_node r key =
     (if rg_ring r = [] then Inr None
      else bindE (ring_hash key) (\<lambda>pos.
           bindE (node_at r (bisect_right (rg_ring r) pos mod length (rg_ring r))) (\<lambda>n. Inr (Some n))))"

text \<open>The walk; \<open>seen\<close> has the members of \<open>nodes\<close>. The first argument counts the iterations left.\<close>

fun walk_ring :: "nat list \<Rightarrow> ring \<Rightarrow> nat \<Rightarrow> nat \<Rightarrow> pystr list \<Rightarrow> pystr list result" where
  "walk_ring [] r n idx nodes = Inr nodes"
| "walk_ring (_ # it) r n idx nodes =
     bindE (node_at r idx) (\<lambda>node.
       if node \<notin> set nodes
       then (if length (nodes @ [node]) = n then Inr (nodes @ [node])
             else walk_ring it r n (Suc idx mod length (rg_ring r)) (nodes @ [node]))
       else walk_ring it r n (Suc idx mod length (rg_ring r)) nodes)"

definition get_nodes :: "ring \<Rightarrow> pystr \<Rightarrow> nat \<Rightarrow> pystr list result" where
  "get_nodes r key n =
     (if rg_ring r = [] then Inr []
      else bindE (ring_hash key) (\<lambda>pos.
           walk_ring [0..<length (rg_ring r)] r (min n (card (rg_nodes r)))
             (bisect_right (rg_ring r) pos mod length (rg_ring r)) []))"

record token_range =
  tr_node :: pystr
  tr_start :: nat
  tr_end :: nat
  tr_size :: int

fun token_ranges_from :: "ring \<Rightarrow> nat \<Rightarrow> nat list \<Rightarrow> token_range list result" where
  "token_ranges_from r prev_pos [] = Inr []"
| "token_ranges_from r prev_pos (pos # ps) =
     (case dict_get (rg_vnodes r) pos of
        None \<Rightarrow> Inl KeyError
      | Some vn \<Rightarrow>
          bindE (token_ranges_from r pos ps) (\<lambda>rs.
          Inr (\<lparr>tr_node = vn_node_id vn, tr_start = prev_pos, tr_end = pos, tr_size = int pos - int prev_pos\<rparr> # rs)))"

definition get_token_ranges :: "ring \<Rightarrow> token_range list result" where
  "get_token_ranges r = token_ranges_from r 0 (rg_ring r)"

definition node_size :: "token_range list \<Rightarrow> pystr \<Rightarrow> int" where
  "node_size rs node = (\<Sum>t\<leftarrow>filter (\<lambda>t. tr_node t = node) rs. tr_size t)"

definition load_sizes :: "ring \<Rightarrow> ((pystr \<Rightarrow> int) \<times> int) result" where
  "load_sizes r =
     bindE (get_token_ranges r) (\<lambda>rs.
     if list_all (\<lambda>t. tr_node t \<in> rg_nodes r) rs
     then Inr (node_size rs, \<Sum>t\<leftarrow>rs. tr_size t) else Inl KeyError)"

definition ring_stats :: "ring \<Rightarrow> (pystr \<times> nat) list" where
  "ring_stats r =
     [(str ''nodes'', card (rg_nodes r)), (str ''vnodes'', length (rg_ring r)),
      (str ''vnodes_per_node'', vnodes_per_node r), (str ''ring_size'', RING_SIZE)]"

section \<open>The sharded store\<close>

type_synonym shard = "(pystr, pystr) dict"

record sharded =
  sh_ring :: ring
  replication_factor :: nat
  sh_shards :: "(pystr, shard) dict"

definition sharded_new :: "nat \<Rightarrow> nat \<Rightarrow> sharded" where
  "sharded_new rf vpn = \<lparr>sh_ring = ring_new vpn, replication_factor = rf, sh_shards = []\<rparr>"

fun keys_to_move :: "ring \<Rightarrow> pystr \<Rightarrow> pystr list \<Rightarrow> pystr list result" where
  "keys_to_move r node_id [] = Inr []"
| "keys_to_move r node_id (key # keys) =
     bindE (get_node r key) (\<lambda>new_primary.
     bindE (keys_to_move r node_id keys) (\<lambda>ks.
     Inr (if new_primary = Some node_id then key # ks else ks)))"

text \<open>\<open>self._shards[node_id][key] = self._shards[existing].pop(key)\<close>, the two shards given.\<close>

fun move_keys :: "pystr list \<Rightarrow> shard \<Rightarrow> shard \<Rightarrow> shard \<times> shard \<times> unit result" where
  "move_keys [] from to = (from, to, Inr ())"
| "move_keys (key # keys) from to =
     (case dict_get from key of
        None \<Rightarrow> (from, to, Inl KeyError)
      | Some val \<Rightarrow> move_keys keys (dict_del key from) (dict_set key val to))"

fun rebalance :: "pystr \<Rightarrow> pystr list \<Rightarrow> sharded \<Rightarrow> nat \<Rightarrow> sharded \<times> nat result" where
  "rebalance node_id [] st moved = (st, Inr moved)"
| "rebalance node_id (existing # ns) st moved =
     (if existing = node_id then rebalance node_id ns st moved
      else case (dict_get (sh_shards st) existing, dict_get (sh_shards st) node_id) of
             (Some from, Some to) \<Rightarrow>
               (case keys_to_move (sh_ring st) node_id (dict_keys from) of
                  Inl e \<Rightarrow> (st, Inl e)
                | Inr ks \<Rightarrow>
                    (case move_keys ks from to of (from', to', r) \<Rightarrow>
                       let st = st\<lparr>sh_shards := dict_set node_id to' (dict_set existing from' (sh_shards st))\<rparr> in
                       (case r of
                          Inl e \<Rightarrow> (st, Inl e)
                        | Inr _ \<Rightarrow> rebalance node_id ns st (moved + length ks))))
           | _ \<Rightarrow> (st, Inl KeyError))"

definition sh_add_node :: "sharded \<Rightarrow> pystr \<Rightarrow> sharded \<times> nat result" where
  "sh_add_node st node_id =
     (let st = st\<lparr>sh_shards := dict_set node_id [] (sh_shards st)\<rparr> in
      case ring_add_node (sh_ring st) node_id of
        (r, Inl e) \<Rightarrow> (st\<lparr>sh_ring := r\<rparr>, Inl e)
      | (r, Inr _) \<Rightarrow> rebalance node_id (dict_keys (sh_shards st)) (st\<lparr>sh_ring := r\<rparr>) 0)"

fun rehome :: "(pystr \<times> pystr) list \<Rightarrow> sharded \<Rightarrow> nat \<Rightarrow> sharded \<times> nat result" where
  "rehome [] st moved = (st, Inr moved)"
| "rehome ((key, val) # items) st moved =
     (case get_node (sh_ring st) key of
        Inl e \<Rightarrow> (st, Inl e)
      | Inr new_node \<Rightarrow>
          (case new_node of
             None \<Rightarrow> rehome items st moved
           | Some n \<Rightarrow>
               if n = [] then rehome items st moved
               else case dict_get (sh_shards st) n of
                      None \<Rightarrow> (st, Inl KeyError)
                    | Some sh \<Rightarrow>
                        rehome items (st\<lparr>sh_shards := dict_set n (dict_set key val sh) (sh_shards st)\<rparr>) (moved + 1)))"

definition sh_remove_node :: "sharded \<Rightarrow> pystr \<Rightarrow> sharded \<times> nat result" where
  "sh_remove_node st node_id =
     (case dict_get (sh_shards st) node_id of
        None \<Rightarrow> (st, Inl ValueError)
      | Some items \<Rightarrow>
          (case ring_remove_node (sh_ring st) node_id of
             (r, Inl e) \<Rightarrow> (st\<lparr>sh_ring := r\<rparr>, Inl e)
           | (r, Inr _) \<Rightarrow>
               rehome items (st\<lparr>sh_ring := r, sh_shards := dict_del node_id (sh_shards st)\<rparr>) 0))"

fun put_all :: "pystr list \<Rightarrow> pystr \<Rightarrow> pystr \<Rightarrow> (pystr, shard) dict \<Rightarrow> (pystr, shard) dict \<times> unit result" where
  "put_all [] key val shards = (shards, Inr ())"
| "put_all (n # ns) key val shards =
     (case dict_get shards n of
        None \<Rightarrow> (shards, Inl KeyError)
      | Some sh \<Rightarrow> put_all ns key val (dict_set n (dict_set key val sh) shards))"

definition sh_set :: "sharded \<Rightarrow> pystr \<Rightarrow> pystr \<Rightarrow> sharded \<times> pystr result" where
  "sh_set st key val =
     (case get_nodes (sh_ring st) key (replication_factor st) of
        Inl e \<Rightarrow> (st, Inl e)
      | Inr [] \<Rightarrow> (st, Inl RuntimeErr)
      | Inr (primary # ns) \<Rightarrow>
          (case put_all (primary # ns) key val (sh_shards st) of
             (shards, Inl e) \<Rightarrow> (st\<lparr>sh_shards := shards\<rparr>, Inl e)
           | (shards, Inr _) \<Rightarrow> (st\<lparr>sh_shards := shards\<rparr>, Inr primary)))"

definition sh_get :: "sharded \<Rightarrow> pystr \<Rightarrow> pystr option result" where
  "sh_get st key =
     bindE (get_node (sh_ring st) key) (\<lambda>node.
       case node of
         None \<Rightarrow> Inr None
       | Some n \<Rightarrow>
           if n = [] then Inr None
           else case dict_get (sh_shards st) n of None \<Rightarrow> Inl KeyError | Some sh \<Rightarrow> Inr (dict_get sh key))"

fun del_all :: "pystr list \<Rightarrow> pystr \<Rightarrow> (pystr, shard) dict \<Rightarrow> bool \<Rightarrow> (pystr, shard) dict \<times> bool result" where
  "del_all [] key shards found = (shards, Inr found)"
| "del_all (n # ns) key shards found =
     (case dict_get shards n of
        None \<Rightarrow> (shards, Inl KeyError)
      | Some sh \<Rightarrow>
          if dict_get sh key \<noteq> None then del_all ns key (dict_set n (dict_del key sh) shards) True
          else del_all ns key shards found)"

definition sh_delete :: "sharded \<Rightarrow> pystr \<Rightarrow> sharded \<times> bool result" where
  "sh_delete st key =
     (case get_nodes (sh_ring st) key (replication_factor st) of
        Inl e \<Rightarrow> (st, Inl e)
      | Inr nodes \<Rightarrow>
          (case del_all nodes key (sh_shards st) False of (shards, r) \<Rightarrow> (st\<lparr>sh_shards := shards\<rparr>, r)))"

definition shard_sizes :: "sharded \<Rightarrow> (pystr \<times> nat) list" where
  "shard_sizes st = map (\<lambda>(node, sh). (node, length sh)) (sh_shards st)"

definition total_keys :: "sharded \<Rightarrow> nat" where
  "total_keys st = length (remdups (concat (map (\<lambda>(node, sh). dict_keys sh) (sh_shards st))))"

end
