(* ===== verification/Sharding_Ring.thy ===== *)
theory Sharding_Ring
  imports Sharding
begin

text \<open>
  Correctness of the consistent-hash ring: the positions are those of the virtual nodes of the member
  names (\<open>ring_inv\<close>), routing is the successor on the circle (\<open>succ_pos\<close>), and from these the movement of
  keys when the membership changes and the choice of replicas.
\<close>

section \<open>Sorted positions\<close>

definition succ_pos :: "nat set \<Rightarrow> nat \<Rightarrow> nat" where
  "succ_pos S p = (if {q \<in> S. p < q} = {} then Min S else Min {q \<in> S. p < q})"

lemma insort_bisect: "sorted xs \<Longrightarrow> list_insert (bisect_right xs p) p xs = insort p xs"
  by (induction xs) (auto simp: bisect_right_sorted list_insert_def insort_is_Cons)

lemma succ_pos_in:
  assumes "finite S" "S \<noteq> {}"
  shows "succ_pos S p \<in> S"
proof (cases "{q \<in> S. p < q} = {}")
  case True
  then show ?thesis unfolding succ_pos_def using Min_in [OF assms] by simp
next
  case False
  have "Min {q \<in> S. p < q} \<in> {q \<in> S. p < q}" using assms(1) False by (intro Min_in) auto
  then show ?thesis unfolding succ_pos_def if_not_P [OF False] by simp
qed

lemma succ_pos_subset:
  assumes "finite T" "S \<subseteq> T" "succ_pos T p \<in> S"
  shows "succ_pos S p = succ_pos T p"
proof (cases "{q \<in> T. p < q} = {}")
  case True
  then have e: "{q \<in> S. p < q} = {}" using assms(2) by auto
  have "Min S = Min T"
    using assms True finite_subset [OF assms(2,1)] by (intro Min_eqI) (auto simp: succ_pos_def)
  then show ?thesis using True e by (simp add: succ_pos_def)
next
  case False
  let ?m = "Min {q \<in> T. p < q}"
  have m: "?m \<in> {q \<in> T. p < q}" using assms(1) False by (intro Min_in) auto
  have "?m \<in> S" using assms(3) unfolding succ_pos_def if_not_P [OF False] .
  then have "Min {q \<in> S. p < q} = ?m"
    using assms(1,2) m finite_subset [OF assms(2,1)] by (intro Min_eqI) auto
  moreover have "{q \<in> S. p < q} \<noteq> {}" using m \<open>?m \<in> S\<close> by blast
  ultimately show ?thesis unfolding succ_pos_def if_not_P [OF False] by (simp only: if_False)
qed

lemma succ_pos_nth:
  assumes "sorted xs" "xs \<noteq> []"
  shows "xs ! (bisect_right xs p mod length xs) = succ_pos (set xs) p"
proof (cases "\<exists>q\<in>set xs. p < q")
  case True
  let ?t = "takeWhile (\<lambda>y. y \<le> p) xs"
  obtain q r where d: "dropWhile (\<lambda>y. y \<le> p) xs = q # r" "p < q"
    using True by (metis dropWhile_eq_Nil_conv list.exhaust not_less hd_dropWhile list.sel(1))
  have xs: "xs = ?t @ q # r" using takeWhile_dropWhile_id [of "\<lambda>y. y \<le> p" xs] d(1) by simp
  have le: "y \<le> p" if "y \<in> set ?t" for y using set_takeWhileD [OF that] by simp
  have sr: "\<forall>y\<in>set r. q \<le> y" using assms(1) xs by (metis sorted_append sorted_simps(2))
  have "Min {y \<in> set xs. p < y} = q"
  proof (rule Min_eqI)
    show "q \<in> {y \<in> set xs. p < y}" using d(2) xs by (metis (mono_tags) in_set_conv_decomp mem_Collect_eq)
    fix y
    assume "y \<in> {y \<in> set xs. p < y}"
    then have "y \<in> set (?t @ q # r)" "p < y" using xs by auto
    then show "q \<le> y" using le sr by fastforce
  qed simp
  moreover have "{y \<in> set xs. p < y} \<noteq> {}" using True by auto
  moreover have "length ?t < length xs" by (metis xs length_append length_Cons less_add_Suc1 add_Suc_right)
  moreover have "xs ! length ?t = q" by (metis xs nth_append_length)
  ultimately show ?thesis using assms(1) by (auto simp: bisect_right_sorted succ_pos_def)
next
  case False
  then have "takeWhile (\<lambda>y. y \<le> p) xs = xs" by (auto simp: takeWhile_eq_all_conv not_less)
  then have "bisect_right xs p mod length xs = 0" using assms(1) by (simp only: bisect_right_sorted mod_self)
  moreover have "Min (set xs) = xs ! 0" using assms by (intro Min_eqI) (auto simp: sorted_iff_nth_mono in_set_conv_nth)
  moreover have "{q \<in> set xs. p < q} = {}" using False by auto
  ultimately show ?thesis by (simp add: succ_pos_def)
qed

section \<open>The invariant of the ring\<close>

abbreviation vpos :: "pystr \<Rightarrow> nat \<Rightarrow> nat result" where
  "vpos n i \<equiv> ring_hash (vnode_name n i)"

text \<open>The virtual nodes of the names \<open>N\<close> have different positions.\<close>

definition collision_free :: "nat \<Rightarrow> pystr set \<Rightarrow> bool" where
  "collision_free vpn N \<longleftrightarrow>
     (\<forall>n\<in>N. \<forall>i\<in>{..<vpn}. \<exists>p. vpos n i = Inr p) \<and> inj_on (\<lambda>(n, i). vpos n i) (N \<times> {..<vpn})"

definition holds_vnodes :: "(pystr \<times> nat) set \<Rightarrow> ring \<Rightarrow> bool" where
  "holds_vnodes V r \<longleftrightarrow>
     sorted (rg_ring r) \<and> distinct (rg_ring r) \<and> dict_wf (rg_vnodes r) \<and> set (rg_ring r) = fst ` set (rg_vnodes r) \<and>
     (\<forall>pos vn. dict_get (rg_vnodes r) pos = Some vn \<longleftrightarrow>
        (vn_node_id vn, vn_vnode_id vn) \<in> V \<and> vn_position vn = pos \<and> vpos (vn_node_id vn) (vn_vnode_id vn) = Inr pos)"

definition ring_inv :: "ring \<Rightarrow> bool" where
  "ring_inv r \<longleftrightarrow> finite (rg_nodes r) \<and> holds_vnodes (rg_nodes r \<times> {..<vnodes_per_node r}) r"

lemma ring_inv_new: "ring_inv (ring_new vpn)"
  by (simp add: ring_inv_def ring_new_def holds_vnodes_def)

lemma holds_get:
  assumes "holds_vnodes V r"
  shows "pos \<in> set (rg_ring r) \<longleftrightarrow> (\<exists>vn. dict_get (rg_vnodes r) pos = Some vn)"
  using assms by (metis holds_vnodes_def map_of_eq_None_iff not_None_eq)

lemma dict_set_new: "k \<notin> fst ` set d \<Longrightarrow> dict_set k v d = d @ [(k, v)]"
  by (induction d) auto

definition put_vnode :: "pystr \<Rightarrow> nat \<Rightarrow> nat \<Rightarrow> ring \<Rightarrow> ring" where
  "put_vnode n i pos r =
     r\<lparr>rg_vnodes := dict_set pos \<lparr>vn_position = pos, vn_node_id = n, vn_vnode_id = i\<rparr> (rg_vnodes r),
       rg_ring := list_insert (bisect_right (rg_ring r) pos) pos (rg_ring r)\<rparr>"

lemma holds_put:
  assumes h: "holds_vnodes V r" and new: "(n, i) \<notin> V" and pos: "vpos n i = Inr pos"
    and inj: "inj_on (\<lambda>(n, i). vpos n i) (insert (n, i) V)"
  shows "holds_vnodes (insert (n, i) V) (put_vnode n i pos r)"
    "rg_vnodes (put_vnode n i pos r) = rg_vnodes r @ [(pos, \<lparr>vn_position = pos, vn_node_id = n, vn_vnode_id = i\<rparr>)]"
proof -
  have nov: "vpos a b \<noteq> Inr pos" if "(a, b) \<in> V" for a b
    using inj pos new that by (force simp: inj_on_def)
  have no: "dict_get (rg_vnodes r) pos = None"
  proof (rule ccontr)
    assume "dict_get (rg_vnodes r) pos \<noteq> None"
    then obtain vn where vn: "dict_get (rg_vnodes r) pos = Some vn" by auto
    then show False using nov h by (auto simp: holds_vnodes_def)
  qed
  then have nr: "pos \<notin> set (rg_ring r)" using holds_get [OF h] by simp
  have s: "rg_ring (put_vnode n i pos r) = insort pos (rg_ring r)"
    using h by (simp add: put_vnode_def insort_bisect holds_vnodes_def)
  show v: "rg_vnodes (put_vnode n i pos r) = rg_vnodes r @ [(pos, \<lparr>vn_position = pos, vn_node_id = n, vn_vnode_id = i\<rparr>)]"
    using no by (simp add: put_vnode_def dict_set_new map_of_eq_None_iff)
  show "holds_vnodes (insert (n, i) V) (put_vnode n i pos r)"
    unfolding holds_vnodes_def
  proof (intro conjI allI)
    show "sorted (rg_ring (put_vnode n i pos r))" "distinct (rg_ring (put_vnode n i pos r))"
      using h nr by (auto simp: s holds_vnodes_def sorted_insort distinct_insort)
    show "dict_wf (rg_vnodes (put_vnode n i pos r))" using h by (simp add: put_vnode_def holds_vnodes_def)
    show "set (rg_ring (put_vnode n i pos r)) = fst ` set (rg_vnodes (put_vnode n i pos r))"
      using h by (simp add: s v set_insort_key holds_vnodes_def)
    fix q vn
    show "dict_get (rg_vnodes (put_vnode n i pos r)) q = Some vn \<longleftrightarrow>
       (vn_node_id vn, vn_vnode_id vn) \<in> insert (n, i) V \<and> vn_position vn = q \<and> vpos (vn_node_id vn) (vn_vnode_id vn) = Inr q"
      using h no pos nov by (cases vn) (auto simp: put_vnode_def dict_simps holds_vnodes_def)
  qed
qed

lemma put_vnode_fields [simp]:
  "rg_nodes (put_vnode n i pos r) = rg_nodes r" "vnodes_per_node (put_vnode n i pos r) = vnodes_per_node r"
  by (simp_all add: put_vnode_def)

lemma add_vnodes_ok:
  assumes "holds_vnodes V r" "distinct is" "\<forall>i\<in>set is. (n, i) \<notin> V \<and> (\<exists>p. vpos n i = Inr p)"
    "inj_on (\<lambda>(n, i). vpos n i) (V \<union> {n} \<times> set is)"
  shows "\<exists>r' ps' ext. add_vnodes n is r ps = (r', Inr ps') \<and> holds_vnodes (V \<union> {n} \<times> set is) r' \<and>
    rg_nodes r' = rg_nodes r \<and> vnodes_per_node r' = vnodes_per_node r \<and>
    rg_vnodes r' = rg_vnodes r @ ext \<and> (\<forall>(p, vn)\<in>set ext. vn_node_id vn = n) \<and> length ext = length is"
  using assms
proof (induction "is" arbitrary: V r ps)
  case (Cons i "is")
  obtain pos where pos: "vpos n i = Inr pos" using Cons.prems(3) by auto
  have inj: "inj_on (\<lambda>(n, i). vpos n i) (insert (n, i) V)" by (rule inj_on_subset [OF Cons.prems(4)]) auto
  have "(n, i) \<notin> V" using Cons.prems(3) by simp
  note p = holds_put [OF Cons.prems(1) this pos inj]
  have V: "insert (n, i) V \<union> {n} \<times> set is = V \<union> {n} \<times> set (i # is)" by auto
  have ni: "\<forall>j\<in>set is. (n, j) \<notin> insert (n, i) V \<and> (\<exists>p. vpos n j = Inr p)" using Cons.prems(2,3) by auto
  obtain r' ps' ext where ih: "add_vnodes n is (put_vnode n i pos r) (ps @ [pos]) = (r', Inr ps')"
    "holds_vnodes (V \<union> {n} \<times> set (i # is)) r'" "rg_nodes r' = rg_nodes r" "vnodes_per_node r' = vnodes_per_node r"
    "rg_vnodes r' = rg_vnodes (put_vnode n i pos r) @ ext" "\<forall>(p, vn)\<in>set ext. vn_node_id vn = n" "length ext = length is"
    using Cons.IH [OF p(1) _ ni, unfolded V, OF _ Cons.prems(4), of "ps @ [pos]"] Cons.prems(2) by auto
  have "add_vnodes n (i # is) r ps = (r', Inr ps')" using ih(1) pos by (simp add: put_vnode_def Let_def)
  with ih p(2) show ?case by (intro exI [of _ r'] exI [of _ ps'] exI [of _ "(pos, \<lparr>vn_position = pos, vn_node_id = n, vn_vnode_id = i\<rparr>) # ext"]) auto
qed simp

lemma ring_add_ok:
  assumes inv: "ring_inv r" and n: "n \<notin> rg_nodes r" and cf: "collision_free (vnodes_per_node r) (insert n (rg_nodes r))"
  shows "\<exists>r' ps ext. ring_add_node r n = (r', Inr ps) \<and> ring_inv r' \<and> rg_nodes r' = insert n (rg_nodes r) \<and>
    vnodes_per_node r' = vnodes_per_node r \<and> rg_vnodes r' = rg_vnodes r @ ext \<and> (\<forall>(p, vn)\<in>set ext. vn_node_id vn = n) \<and>
    length ext = vnodes_per_node r"
proof -
  let ?k = "vnodes_per_node r"
  have V: "rg_nodes r \<times> {..<?k} \<union> {n} \<times> set [0..<?k] = insert n (rg_nodes r) \<times> {..<?k}" by auto
  obtain r' ps ext where a: "add_vnodes n [0..<?k] r [] = (r', Inr ps)" "holds_vnodes (insert n (rg_nodes r) \<times> {..<?k}) r'"
    "rg_nodes r' = rg_nodes r" "vnodes_per_node r' = ?k" "rg_vnodes r' = rg_vnodes r @ ext" "\<forall>(p, vn)\<in>set ext. vn_node_id vn = n" "length ext = ?k"
    using add_vnodes_ok [of "rg_nodes r \<times> {..<?k}" r "[0..<?k]" n "[]", unfolded V] inv n cf
    by (auto simp: ring_inv_def collision_free_def)
  show ?thesis
    by (intro exI [of _ "r'\<lparr>rg_nodes := insert n (rg_nodes r')\<rparr>"] exI [of _ ps] exI [of _ ext])
       (use a n inv in \<open>auto simp: ring_add_node_def ring_inv_def holds_vnodes_def\<close>)
qed

section \<open>Removal\<close>

lemma list_remove_bisect:
  fixes xs :: "nat list"
  shows "sorted xs \<Longrightarrow>
     (if bisect_left xs p < length xs \<and> xs ! bisect_left xs p = p then list_remove_at (bisect_left xs p) xs else xs) = remove1 p xs"
proof (induction xs)
  case (Cons a xs)
  show ?case
  proof (cases "p < a")
    case True
    then have "p \<notin> set (a # xs)" using Cons.prems by auto
    then show ?thesis using Cons.prems True by (simp add: bisect_left_sorted remove1_idem)
  next
    case False
    then show ?thesis using Cons by (auto simp: bisect_left_sorted list_remove_at_def)
  qed
qed (simp add: list_remove_at_def)

lemma remove_position_sorted:
  "sorted (rg_ring r) \<Longrightarrow> remove_position p r = r\<lparr>rg_vnodes := dict_del p (rg_vnodes r), rg_ring := remove1 p (rg_ring r)\<rparr>"
  by (simp add: remove_position_def Let_def list_remove_bisect)

lemma fold_remove_position:
  "sorted (rg_ring r) \<Longrightarrow> distinct (rg_ring r) \<Longrightarrow>
     fold remove_position ps r =
       r\<lparr>rg_vnodes := filter (\<lambda>(p, vn). p \<notin> set ps) (rg_vnodes r), rg_ring := filter (\<lambda>p. p \<notin> set ps) (rg_ring r)\<rparr>"
proof (induction ps arbitrary: r)
  case (Cons p ps)
  have "fold remove_position (p # ps) r =
      fold remove_position ps (r\<lparr>rg_vnodes := dict_del p (rg_vnodes r), rg_ring := remove1 p (rg_ring r)\<rparr>)"
    using Cons.prems by (simp add: remove_position_sorted)
  also have "\<dots> = r\<lparr>rg_vnodes := filter (\<lambda>(p, vn). p \<notin> set ps) (dict_del p (rg_vnodes r)),
      rg_ring := filter (\<lambda>p. p \<notin> set ps) (remove1 p (rg_ring r))\<rparr>"
    using Cons.IH [of "r\<lparr>rg_vnodes := dict_del p (rg_vnodes r), rg_ring := remove1 p (rg_ring r)\<rparr>"] Cons.prems
    by (simp add: sorted_remove1)
  also have "\<dots> = r\<lparr>rg_vnodes := filter (\<lambda>(q, vn). q \<notin> set (p # ps)) (rg_vnodes r), rg_ring := filter (\<lambda>q. q \<notin> set (p # ps)) (rg_ring r)\<rparr>"
    using Cons.prems(2) by (simp add: distinct_remove1_removeAll removeAll_filter_not_eq AList.delete_eq case_prod_unfold eq_commute [of p])
  finally show ?case .
qed simp

definition without_node :: "pystr \<Rightarrow> ring \<Rightarrow> ring" where
  "without_node n r =
     r\<lparr>rg_vnodes := filter (\<lambda>(p, vn). vn_node_id vn \<noteq> n) (rg_vnodes r),
       rg_ring := filter (\<lambda>p. \<exists>vn. dict_get (rg_vnodes r) p = Some vn \<and> vn_node_id vn \<noteq> n) (rg_ring r),
       rg_nodes := rg_nodes r - {n}\<rparr>"

lemma ring_remove_ok:
  assumes inv: "ring_inv r" and n: "n \<in> rg_nodes r"
  shows "ring_remove_node r n = (without_node n r, Inr (length (filter (\<lambda>(pos, vn). vn_node_id vn = n) (rg_vnodes r))))"
proof -
  define ps where "ps = map fst (filter (\<lambda>(pos, vn). vn_node_id vn = n) (rg_vnodes r))"
  have wf: "dict_wf (rg_vnodes r)" "set (rg_ring r) = fst ` set (rg_vnodes r)" "sorted (rg_ring r)" "distinct (rg_ring r)"
    using inv by (auto simp: ring_inv_def holds_vnodes_def)
  have ps: "p \<in> set ps \<longleftrightarrow> vn_node_id vn = n" if "(p, vn) \<in> set (rg_vnodes r)" for p vn
    
  proof -
    have "p \<in> set ps \<longleftrightarrow> (\<exists>u. (p, u) \<in> set (rg_vnodes r) \<and> vn_node_id u = n)" by (force simp: ps_def)
    then show ?thesis using that eq_key_imp_eq_value [OF wf(1) [unfolded dict_wf_def], of p vn] by blast
  qed
  have v: "filter (\<lambda>(p, vn). p \<notin> set ps) (rg_vnodes r) = filter (\<lambda>(p, vn). vn_node_id vn \<noteq> n) (rg_vnodes r)"
    using ps by (intro filter_cong) auto
  have "p \<notin> set ps \<longleftrightarrow> (\<exists>vn. dict_get (rg_vnodes r) p = Some vn \<and> vn_node_id vn \<noteq> n)" if h: "p \<in> set (rg_ring r)" for p
  proof -
    obtain vn where "(p, vn) \<in> set (rg_vnodes r)" using h [unfolded wf(2)] by auto
    then show ?thesis using ps dict_get_iff [OF wf(1), of p vn] by simp
  qed
  then have g: "filter (\<lambda>p. p \<notin> set ps) (rg_ring r) = filter (\<lambda>p. \<exists>vn. dict_get (rg_vnodes r) p = Some vn \<and> vn_node_id vn \<noteq> n) (rg_ring r)"
    by (intro filter_cong) auto
  have "length ps = length (filter (\<lambda>(pos, vn). vn_node_id vn = n) (rg_vnodes r))" by (simp add: ps_def)
  then show ?thesis using n by (simp add: ring_remove_node_def Let_def fold_remove_position [OF wf(3,4)] without_node_def v g flip: ps_def)
qed


lemma without_node_holds:
  assumes inv: "ring_inv r"
  shows "ring_inv (without_node n r)"
proof -
  have wf: "dict_wf (rg_vnodes r)" "set (rg_ring r) = fst ` set (rg_vnodes r)"
    and m: "\<And>pos vn. dict_get (rg_vnodes r) pos = Some vn \<longleftrightarrow> (vn_node_id vn, vn_vnode_id vn) \<in> rg_nodes r \<times> {..<vnodes_per_node r} \<and>
       vn_position vn = pos \<and> vpos (vn_node_id vn) (vn_vnode_id vn) = Inr pos"
    using inv unfolding ring_inv_def holds_vnodes_def by blast+
  have w: "dict_wf (filter P (rg_vnodes r))" for P using wf(1) by (simp add: dict_wf_def distinct_map_filter)
  have g: "dict_get (filter (\<lambda>(p, vn). vn_node_id vn \<noteq> n) (rg_vnodes r)) pos = Some vn \<longleftrightarrow>
      dict_get (rg_vnodes r) pos = Some vn \<and> vn_node_id vn \<noteq> n" for pos vn
    by (auto simp: dict_get_iff w wf(1))
  let ?r = "without_node n r"
  have s: "p \<in> set (rg_ring ?r) \<longleftrightarrow> p \<in> fst ` set (rg_vnodes ?r)" for p
  proof -
    have "p \<in> set (rg_ring ?r) \<longleftrightarrow> (\<exists>vn. dict_get (rg_vnodes ?r) p = Some vn)"
      unfolding without_node_def by (force simp: g wf(2) dict_get_iff [OF wf(1)])
    then show ?thesis by (metis map_of_eq_None_iff not_None_eq)
  qed
  show ?thesis unfolding ring_inv_def holds_vnodes_def
  proof (intro conjI allI)
    show "set (rg_ring ?r) = fst ` set (rg_vnodes ?r)" using s by auto
    show "dict_get (rg_vnodes ?r) pos = Some vn \<longleftrightarrow>
        (vn_node_id vn, vn_vnode_id vn) \<in> rg_nodes ?r \<times> {..<vnodes_per_node ?r} \<and>
        vn_position vn = pos \<and> vpos (vn_node_id vn) (vn_vnode_id vn) = Inr pos" for pos vn
      using m [of pos vn] by (auto simp: without_node_def g)
  qed (use inv w in \<open>simp_all add: without_node_def ring_inv_def holds_vnodes_def sorted_wrt_filter\<close>)
qed

section \<open>Routing\<close>

lemma ring_empty_iff:
  assumes "ring_inv r" "0 < vnodes_per_node r" "collision_free (vnodes_per_node r) (rg_nodes r)"
  shows "rg_ring r = [] \<longleftrightarrow> rg_nodes r = {}"
proof
  assume "rg_ring r = []"
  then have none: "dict_get (rg_vnodes r) p = None" for p
    using assms(1) by (simp add: ring_inv_def holds_vnodes_def)
  show "rg_nodes r = {}"
  proof (rule ccontr)
    assume "rg_nodes r \<noteq> {}"
    then obtain n where n: "n \<in> rg_nodes r" by auto
    then obtain p where "vpos n 0 = Inr p" using assms(2,3) by (auto simp: collision_free_def)
    then have "dict_get (rg_vnodes r) p = Some \<lparr>vn_position = p, vn_node_id = n, vn_vnode_id = 0\<rparr>"
      using assms(1,2) n by (simp add: ring_inv_def holds_vnodes_def)
    then show False using none by simp
  qed
next
  assume "rg_nodes r = {}"
  then have "dict_get (rg_vnodes r) p \<noteq> Some vn" for p vn using assms(1) by (auto simp: ring_inv_def holds_vnodes_def)
  then show "rg_ring r = []" using holds_get [of _ r] assms(1) by (metis list.set_intros(1) neq_Nil_conv ring_inv_def)
qed

lemma node_at_in:
  assumes "ring_inv r" "i < length (rg_ring r)"
  shows "\<exists>vn. dict_get (rg_vnodes r) (rg_ring r ! i) = Some vn \<and> vn_node_id vn \<in> rg_nodes r \<and> node_at r i = Inr (vn_node_id vn)"
proof -
  have h: "holds_vnodes (rg_nodes r \<times> {..<vnodes_per_node r}) r" using assms(1) by (simp add: ring_inv_def)
  obtain vn where vn: "dict_get (rg_vnodes r) (rg_ring r ! i) = Some vn"
    using holds_get [OF h, of "rg_ring r ! i"] assms(2) by auto
  have "vn_node_id vn \<in> rg_nodes r" using h vn by (auto simp: holds_vnodes_def)
  then show ?thesis using vn assms(2) by (simp add: node_at_def)
qed

lemma get_node_succ:
  assumes "ring_inv r" "rg_ring r \<noteq> []" "ring_hash key = Inr p"
  shows "\<exists>vn. dict_get (rg_vnodes r) (succ_pos (set (rg_ring r)) p) = Some vn \<and> vn_node_id vn \<in> rg_nodes r \<and>
     get_node r key = Inr (Some (vn_node_id vn))"
proof -
  let ?i = "bisect_right (rg_ring r) p mod length (rg_ring r)"
  have "rg_ring r ! ?i = succ_pos (set (rg_ring r)) p"
    using assms by (intro succ_pos_nth) (auto simp: ring_inv_def holds_vnodes_def)
  with node_at_in [OF assms(1), of ?i] assms(2,3) show ?thesis by (auto simp: get_node_def)
qed

lemma get_node_sub:
  assumes "ring_inv r" "ring_inv r'" "set (rg_ring r) \<subseteq> set (rg_ring r')" "rg_ring r \<noteq> []"
    "\<And>p vn. dict_get (rg_vnodes r') p = Some vn \<Longrightarrow> vn_node_id vn \<noteq> n \<Longrightarrow> dict_get (rg_vnodes r) p = Some vn"
    "get_node r' key \<noteq> Inr (Some n)"
  shows "get_node r' key = get_node r key"
proof (cases "ring_hash key")
  case (Inr p)
  have "rg_ring r' \<noteq> []" using assms(3,4) by auto
  from get_node_succ [OF assms(2) this Inr] obtain vn where
    vn: "dict_get (rg_vnodes r') (succ_pos (set (rg_ring r')) p) = Some vn" "get_node r' key = Inr (Some (vn_node_id vn))" by auto
  then have o: "dict_get (rg_vnodes r) (succ_pos (set (rg_ring r')) p) = Some vn" using assms(5,6) by auto
  then have "succ_pos (set (rg_ring r')) p \<in> set (rg_ring r)" using holds_get [of _ r] assms(1) by (auto simp: ring_inv_def)
  then have "succ_pos (set (rg_ring r)) p = succ_pos (set (rg_ring r')) p" by (intro succ_pos_subset assms(3)) auto
  with get_node_succ [OF assms(1,4) Inr] o vn show ?thesis by auto
next
  case (Inl e)
  then show ?thesis using assms(3,4) by (auto simp: get_node_def)
qed

text \<open>The rings \<open>add_node\<close> and \<open>remove_node\<close> build while no two virtual nodes collide.\<close>

inductive ring_reach :: "nat \<Rightarrow> ring \<Rightarrow> bool" for vpn where
  reach_new: "ring_reach vpn (ring_new vpn)"
| reach_add: "ring_reach vpn r \<Longrightarrow> collision_free vpn (insert n (rg_nodes r)) \<Longrightarrow> ring_add_node r n = (r', Inr ps) \<Longrightarrow> ring_reach vpn r'"
| reach_remove: "ring_reach vpn r \<Longrightarrow> ring_remove_node r n = (r', Inr c) \<Longrightarrow> ring_reach vpn r'"

lemma collision_free_subset: "collision_free vpn N \<Longrightarrow> M \<subseteq> N \<Longrightarrow> collision_free vpn M"
  by (auto simp: collision_free_def intro: inj_on_subset)

lemma ring_add_fresh: "ring_add_node r n = (r', Inr ps) \<Longrightarrow> n \<notin> rg_nodes r"
  by (auto simp: ring_add_node_def split: if_splits)

lemma ring_remove_member: "ring_remove_node r n = (r', Inr c) \<Longrightarrow> n \<in> rg_nodes r"
  by (auto simp: ring_remove_node_def split: if_splits)

lemma ring_reach_inv: "ring_reach vpn r \<Longrightarrow> ring_inv r \<and> vnodes_per_node r = vpn \<and> collision_free vpn (rg_nodes r)"
proof (induction rule: ring_reach.induct)
  case (reach_add r n r' ps)
  then show ?case using ring_add_ok [of r n] ring_add_fresh [of r n r' ps] by auto
next
  case (reach_remove r n r' c)
  then have "r' = without_node n r" using ring_remove_ok [of r n] ring_remove_member [of r n r' c] by auto
  then show ?case using reach_remove.IH without_node_holds [of r n]
    by (auto simp: without_node_def intro: collision_free_subset)
qed (simp add: ring_inv_new, simp add: ring_new_def collision_free_def)

lemma add_node_route:
  assumes "ring_inv r" "n \<notin> rg_nodes r" "collision_free (vnodes_per_node r) (insert n (rg_nodes r))" "ring_add_node r n = (r', Inr ps)"
    "rg_ring r \<noteq> []" "get_node r' key \<noteq> Inr (Some n)"
  shows "get_node r' key = get_node r key"
proof -
  obtain ext where r': "ring_inv r'" "rg_vnodes r' = rg_vnodes r @ ext" "\<forall>(p, vn)\<in>set ext. vn_node_id vn = n"
    using ring_add_ok [OF assms(1-3)] assms(4) by auto
  have s: "set (rg_ring r) = fst ` set (rg_vnodes r)" "set (rg_ring r') = fst ` set (rg_vnodes r')"
    using assms(1) r'(1) by (auto simp: ring_inv_def holds_vnodes_def)
  show ?thesis
  proof (rule get_node_sub [OF assms(1) r'(1) _ assms(5) _ assms(6)])
    show "set (rg_ring r) \<subseteq> set (rg_ring r')" by (auto simp: s r'(2))
    show "dict_get (rg_vnodes r) p = Some vn" if "dict_get (rg_vnodes r') p = Some vn" "vn_node_id vn \<noteq> n" for p vn
      using that r'(3) by (auto simp: r'(2) map_add_Some_iff dest: map_of_SomeD)
  qed
qed

lemma remove_node_route:
  assumes "ring_inv r" "n \<in> rg_nodes r" "rg_ring (without_node n r) \<noteq> []" "get_node r key \<noteq> Inr (Some n)"
  shows "get_node (without_node n r) key = get_node r key"
proof -
  have wf: "dict_wf (rg_vnodes r)" using assms(1) by (simp add: ring_inv_def holds_vnodes_def)
  then have w: "dict_wf (filter P (rg_vnodes r))" for P by (simp add: dict_wf_def distinct_map_filter)
  show ?thesis
    by (rule sym, rule get_node_sub [OF without_node_holds [OF assms(1)] assms(1) _ assms(3) _ assms(4)])
       (auto simp: without_node_def dict_get_iff w wf)
qed

text \<open>
  Consistent hashing (C18). Adding a node to a ring moves keys to the new node only, and removing a
  node moves only the keys it owned: every other key keeps its node.
\<close>
theorem ring_minimal_movement:
  assumes "ring_reach vpn r" "0 < vpn" "rg_nodes r \<noteq> {}"
  shows "(collision_free vpn (insert n (rg_nodes r)) \<longrightarrow> ring_add_node r n = (r', Inr ps) \<longrightarrow>
        get_node r' key = Inr (Some n) \<or> get_node r' key = get_node r key) \<and>
     (ring_remove_node r m = (r'', Inr c) \<longrightarrow> rg_nodes r \<noteq> {m} \<longrightarrow>
        get_node r key \<noteq> Inr (Some m) \<longrightarrow> get_node r'' key = get_node r key)"
proof -
  note inv = ring_reach_inv [OF assms(1)]
  have ne: "rg_ring r \<noteq> []" using ring_empty_iff [of r] inv assms(2,3) by auto
  have "get_node r'' key = get_node r key"
    if h: "ring_remove_node r m = (r'', Inr c)" "rg_nodes r \<noteq> {m}" "get_node r key \<noteq> Inr (Some m)"
  proof -
    have m: "m \<in> rg_nodes r" by (rule ring_remove_member [OF h(1)])
    then have r'': "r'' = without_node m r" using ring_remove_ok [of r m] inv h(1) by auto
    have "rg_nodes r'' \<noteq> {}" using m h(2) by (auto simp: r'' without_node_def)
    then have "rg_ring r'' \<noteq> []"
      using ring_empty_iff [of r''] inv assms(2) without_node_holds [of r m] collision_free_subset [of vpn "rg_nodes r" "rg_nodes r''"]
      by (auto simp: r'' without_node_def)
    then show ?thesis using remove_node_route [OF _ m _ h(3)] inv by (simp add: r'')
  qed
  moreover have "get_node r' key = Inr (Some n) \<or> get_node r' key = get_node r key"
    if h: "collision_free vpn (insert n (rg_nodes r))" "ring_add_node r n = (r', Inr ps)"
    using add_node_route [of r n r' ps key] inv h ne ring_add_fresh [OF h(2)] by auto
  ultimately show ?thesis by blast
qed

text \<open>
  Adding and removing a node is no change (C27). When a node is added without a collision, its removal
  restores the ring as it was, positions, virtual nodes and names.
\<close>
theorem ring_add_remove:
  assumes "ring_reach vpn r" "collision_free vpn (insert n (rg_nodes r))" "n \<notin> rg_nodes r"
  shows "\<exists>r' ps. ring_add_node r n = (r', Inr ps) \<and> ring_remove_node r' n = (r, Inr vpn)"
proof -
  note inv = ring_reach_inv [OF assms(1)]
  obtain r' ps ext where a: "ring_add_node r n = (r', Inr ps)" "ring_inv r'" "rg_nodes r' = insert n (rg_nodes r)"
    "vnodes_per_node r' = vpn" "rg_vnodes r' = rg_vnodes r @ ext" "\<forall>(p, vn)\<in>set ext. vn_node_id vn = n" "length ext = vpn"
    using ring_add_ok [of r n] inv assms(2,3) by auto
  have old: "vn_node_id vn \<noteq> n" if "(p, vn) \<in> set (rg_vnodes r)" for p vn
    using that inv assms(3) by (auto simp: ring_inv_def holds_vnodes_def simp flip: dict_get_iff)
  have "filter (\<lambda>(p, vn). vn_node_id vn \<noteq> n) (rg_vnodes r) = rg_vnodes r" "filter (\<lambda>(p, vn). vn_node_id vn \<noteq> n) ext = []"
    "filter (\<lambda>(p, vn). vn_node_id vn = n) (rg_vnodes r) = []" "filter (\<lambda>(p, vn). vn_node_id vn = n) ext = ext"
    using a(6) old by (auto simp: filter_id_conv filter_empty_conv)
  then have f: "filter (\<lambda>(p, vn). vn_node_id vn \<noteq> n) (rg_vnodes r') = rg_vnodes r" "filter (\<lambda>(p, vn). vn_node_id vn = n) (rg_vnodes r') = ext"
    by (simp_all add: a(5))
  have h: "ring_inv (without_node n r')" by (rule without_node_holds [OF a(2)])
  then have "set (rg_ring (without_node n r')) = set (rg_ring r)"
    using f(1) inv by (simp add: ring_inv_def holds_vnodes_def) (simp add: without_node_def)
  then have "rg_ring (without_node n r') = rg_ring r"
    using h inv by (intro sorted_distinct_set_unique) (auto simp: ring_inv_def holds_vnodes_def)
  then have "without_node n r' = r" using f(1) a(3,4) assms(3) inv by (simp add: without_node_def)
  then show ?thesis using ring_remove_ok [OF a(2), of n] a(1,3,7) f(2) by auto
qed

section \<open>Replicas\<close>

fun collect :: "nat \<Rightarrow> pystr list \<Rightarrow> pystr list \<Rightarrow> pystr list" where
  "collect n acc [] = acc"
| "collect n acc (x # xs) =
     (if x \<notin> set acc then (if Suc (length acc) = n then acc @ [x] else collect n (acc @ [x]) xs) else collect n acc xs)"

lemma collect_props:
  "distinct acc \<Longrightarrow> length acc < n \<Longrightarrow>
     distinct (collect n acc xs) \<and> set (collect n acc xs) \<subseteq> set acc \<union> set xs \<and>
     take (length acc) (collect n acc xs) = acc \<and> length (collect n acc xs) = min n (card (set acc \<union> set xs))"
proof (induction n acc xs rule: collect.induct)
  case (2 n acc x xs)
  show ?case
  proof (cases "x \<in> set acc")
    case True
    then show ?thesis using 2 by (auto simp: insert_absorb)
  next
    case False
    have c: "card (insert x (set acc)) = Suc (length acc)" using False 2(3) by (simp add: distinct_card)
    show ?thesis
    proof (cases "Suc (length acc) = n")
      case True
      have "Suc (length acc) \<le> card (set acc \<union> set (x # xs))" unfolding c [symmetric] by (intro card_mono) auto
      then show ?thesis using False True 2(3) by auto
    next
      case ne: False
      have "length (acc @ [x]) < n" "distinct (acc @ [x])" using 2(3,4) ne False by auto
      note ih = 2(1) [OF False ne this(2,1)]
      have "take (length acc) (collect n (acc @ [x]) xs) = take (length acc) (take (length (acc @ [x])) (collect n (acc @ [x]) xs))"
        by (simp add: min_def)
      also have "\<dots> = acc" using ih by simp
      finally show ?thesis using False ne ih by auto
    qed
  qed
qed (auto simp: distinct_card)

lemma collect_hd: "0 < n \<Longrightarrow> hd (collect n [] (x # xs)) = x"
  using collect_props [of "[x]" n xs] by (cases "collect n [x] xs") auto

lemma walk_ring_collect:
  assumes "ring_inv r" "idx < length (rg_ring r)"
  shows "walk_ring it r n idx acc =
     Inr (collect n acc (map (\<lambda>j. projr (node_at r ((idx + j) mod length (rg_ring r)))) [0..<length it]))"
  using assms(2)
proof (induction it arbitrary: idx acc)
  case (Cons u it)
  let ?L = "length (rg_ring r)"
  let ?f = "\<lambda>idx j. projr (node_at r ((idx + j) mod ?L))"
  obtain node where nd: "node_at r idx = Inr node" using node_at_in [OF assms(1) Cons.prems] by auto
  have S: "Suc idx mod ?L < ?L" using Cons.prems by (intro mod_less_divisor) auto
  have "map (?f idx) [0..<length (u # it)] = node # map (\<lambda>j. ?f idx (Suc j)) [0..<length it]"
    using nd Cons.prems by (auto simp: upt_conv_Cons map_Suc_upt [symmetric] simp del: upt_Suc)
  also have "map (\<lambda>j. ?f idx (Suc j)) [0..<length it] = map (?f (Suc idx mod ?L)) [0..<length it]"
    by (simp add: mod_add_left_eq)
  finally have m: "map (?f idx) [0..<length (u # it)] = node # map (?f (Suc idx mod ?L)) [0..<length it]" .
  show ?case unfolding m by (simp add: nd Cons.IH [OF S])
qed simp

lemma rotation_covers:
  fixes L :: nat
  assumes "idx < L"
  shows "(\<lambda>j. (idx + j) mod L) ` {0..<L} = {0..<L}"
proof -
  have "y \<in> (\<lambda>j. (idx + j) mod L) ` {0..<L}" if "y < L" for y
  proof (rule image_eqI)
    have "(idx + (y + L - idx) mod L) mod L = (idx + (y + L - idx)) mod L" by (simp add: mod_add_right_eq)
    then show "y = (idx + (y + L - idx) mod L) mod L" using assms that by simp
    show "(y + L - idx) mod L \<in> {0..<L}" using assms by simp
  qed
  then show ?thesis using assms by auto
qed

lemma all_nodes:
  assumes "ring_inv r" "0 < vnodes_per_node r" "collision_free (vnodes_per_node r) (rg_nodes r)"
  shows "(\<lambda>i. projr (node_at r i)) ` {0..<length (rg_ring r)} = rg_nodes r"
proof (intro set_eqI iffI)
  fix n
  assume "n \<in> (\<lambda>i. projr (node_at r i)) ` {0..<length (rg_ring r)}"
  then show "n \<in> rg_nodes r" using node_at_in [OF assms(1)] by fastforce
next
  fix n
  assume n: "n \<in> rg_nodes r"
  then obtain p where "vpos n 0 = Inr p" using assms(2,3) by (auto simp: collision_free_def)
  then have g: "dict_get (rg_vnodes r) p = Some \<lparr>vn_position = p, vn_node_id = n, vn_vnode_id = 0\<rparr>"
    using assms(1,2) n by (simp add: ring_inv_def holds_vnodes_def)
  then have "p \<in> set (rg_ring r)" using holds_get [of _ r] assms(1) by (auto simp: ring_inv_def)
  then obtain i where i: "i < length (rg_ring r)" "rg_ring r ! i = p" by (auto simp: in_set_conv_nth)
  then have "projr (node_at r i) = n" using g by (simp add: node_at_def)
  then show "n \<in> (\<lambda>i. projr (node_at r i)) ` {0..<length (rg_ring r)}" using i(1) by force
qed

lemma get_nodes_exists:
  assumes "ring_reach vpn r" "0 < vpn" "rg_nodes r \<noteq> {}" "ring_hash key = Inr p" "0 < n"
  shows "\<exists>ns. get_nodes r key n = Inr ns \<and> distinct ns \<and> set ns \<subseteq> rg_nodes r \<and>
     length ns = min n (card (rg_nodes r)) \<and> get_node r key = Inr (Some (hd ns))"
proof -
  note inv = ring_reach_inv [OF assms(1)]
  have ne: "rg_ring r \<noteq> []" using ring_empty_iff [of r] inv assms(2,3) by auto
  let ?L = "length (rg_ring r)" let ?i = "bisect_right (rg_ring r) p mod length (rg_ring r)"
  let ?ns = "map (\<lambda>j. projr (node_at r ((?i + j) mod ?L))) [0..<?L]"
  have i: "?i < ?L" using ne by simp
  have "set ?ns = (\<lambda>i. projr (node_at r i)) ` ((\<lambda>j. (?i + j) mod ?L) ` {0..<?L})" by (simp add: image_image)
  also have "\<dots> = (\<lambda>i. projr (node_at r i)) ` {0..<?L}" by (simp only: rotation_covers [OF i])
  also have "\<dots> = rg_nodes r" by (rule all_nodes) (use inv assms(2) in auto)
  finally have S: "set ?ns = rg_nodes r" .
  let ?m = "min n (card (rg_nodes r))"
  have m: "0 < ?m" using assms(3,5) inv by (auto simp: ring_inv_def card_gt_0_iff)
  let ?c = "collect ?m [] ?ns"
  have g: "get_nodes r key n = Inr ?c"
    using ne assms(4) walk_ring_collect [OF _ i, of "[0..<?L]"] inv by (simp add: get_nodes_def)
  have c: "distinct ?c" "set ?c \<subseteq> rg_nodes r" "length ?c = ?m" using collect_props [of "[]" ?m ?ns] m S by auto
  have "hd ?c = projr (node_at r ?i)"
  proof -
    have ns: "?ns = projr (node_at r ?i) # map (\<lambda>j. projr (node_at r ((?i + j) mod ?L))) [1..<?L]"
      using ne i by (simp add: upt_conv_Cons)
    show ?thesis unfolding ns by (rule collect_hd [OF m])
  qed
  moreover obtain n where "node_at r ?i = Inr n" using node_at_in [of r ?i] inv i by auto
  ultimately have "get_node r key = Inr (Some (hd ?c))" using ne assms(4) by (simp add: get_node_def)
  with g c show ?thesis by blast
qed

text \<open>
  Replica placement (C26). On a ring with nodes, \<open>get_nodes\<close> returns the requested number of different
  nodes, or all of them when there are fewer, and the first is the node \<open>get_node\<close> gives.
\<close>
theorem get_nodes_replicas:
  assumes "ring_reach vpn r" "0 < vpn" "rg_nodes r \<noteq> {}" "ring_hash key = Inr p" "0 < n"
  shows "\<exists>ns. get_nodes r key n = Inr ns \<and> distinct ns \<and> set ns \<subseteq> rg_nodes r \<and>
     length ns = min n (card (rg_nodes r)) \<and> get_node r key = Inr (Some (hd ns))"
  by (rule get_nodes_exists [OF assms])

end
