(* ===== verification/Partition.thy ===== *)
theory Partition
  imports Sharding_Ring
begin

text \<open>
  \<open>partition.py\<close> and \<open>cluster_config.py\<close>: the partition map of the cluster. Shards are placed on the
  consistent-hash ring, each shard on \<open>rf\<close> consecutive nodes of the node list. The environment variables
  of the configuration are arguments.
\<close>

section \<open>Partitioner\<close>

record partitioner =
  pt_shard_ids :: "pystr list"
  pt_nodes :: "pystr list"
  pt_rf :: nat
  pt_ring :: ring
  pt_placement :: "(pystr, pystr list) dict"

text \<open>\<open>[nodes[(i + j) % len(nodes)] for j in range(rf)]\<close>\<close>

definition replica_row :: "pystr list \<Rightarrow> nat \<Rightarrow> nat \<Rightarrow> pystr list" where
  "replica_row nodes rf i = map (\<lambda>j. nodes ! ((i + j) mod length nodes)) [0..<rf]"

fun add_shards :: "pystr list \<Rightarrow> ring \<Rightarrow> ring result" where
  "add_shards [] r = Inr r"
| "add_shards (s # ss) r =
     (case ring_add_node r s of (r', Inl e) \<Rightarrow> Inl e | (r', Inr _) \<Rightarrow> add_shards ss r')"

fun place_from :: "pystr list \<Rightarrow> nat \<Rightarrow> nat \<Rightarrow> pystr list \<Rightarrow> (pystr, pystr list) dict \<Rightarrow> (pystr, pystr list) dict" where
  "place_from nodes rf i [] d = d"
| "place_from nodes rf i (s # ss) d = place_from nodes rf (Suc i) ss (dict_set s (replica_row nodes rf i) d)"

definition partitioner_new :: "pystr list \<Rightarrow> pystr list \<Rightarrow> nat option \<Rightarrow> nat \<Rightarrow> partitioner result" where
  "partitioner_new shard_ids nodes rf_arg vnodes =
     (let rf = (case rf_arg of None \<Rightarrow> length nodes | Some n \<Rightarrow> if n = 0 then length nodes else n) in
      if rf > length nodes then Inl ValueError
      else bindE (add_shards shard_ids (ring_new vnodes)) (\<lambda>r.
           Inr \<lparr>pt_shard_ids = shard_ids, pt_nodes = nodes, pt_rf = rf, pt_ring = r,
                pt_placement = place_from nodes rf 0 shard_ids []\<rparr>))"

definition shard_for :: "partitioner \<Rightarrow> pystr \<Rightarrow> pystr result" where
  "shard_for p key =
     bindE (get_node (pt_ring p) key) (\<lambda>shard. case shard of None \<Rightarrow> Inl AssertionErr | Some s \<Rightarrow> Inr s)"

definition replicas :: "partitioner \<Rightarrow> pystr \<Rightarrow> pystr list result" where
  "replicas p shard_id = (case dict_get (pt_placement p) shard_id of None \<Rightarrow> Inl KeyError | Some ns \<Rightarrow> Inr ns)"

definition preferred_leader :: "partitioner \<Rightarrow> pystr \<Rightarrow> pystr result" where
  "preferred_leader p shard_id = bindE (replicas p shard_id) (\<lambda>ns. nth_err ns 0)"

fun filter_hosted :: "partitioner \<Rightarrow> pystr \<Rightarrow> pystr list \<Rightarrow> pystr list result" where
  "filter_hosted p node_id [] = Inr []"
| "filter_hosted p node_id (s # ss) =
     bindE (replicas p s) (\<lambda>ns.
     bindE (filter_hosted p node_id ss) (\<lambda>rest.
     Inr (if node_id \<in> set ns then s # rest else rest)))"

definition shards_on :: "partitioner \<Rightarrow> pystr \<Rightarrow> pystr list result" where
  "shards_on p node_id = filter_hosted p node_id (pt_shard_ids p)"

fun group_keys :: "partitioner \<Rightarrow> pystr list \<Rightarrow> (pystr, pystr list) dict \<Rightarrow> (pystr, pystr list) dict result" where
  "group_keys p [] groups = Inr groups"
| "group_keys p (k # ks) groups =
     bindE (shard_for p k) (\<lambda>s.
     group_keys p ks (dict_set s ((case dict_get groups s of None \<Rightarrow> [] | Some g \<Rightarrow> g) @ [k]) groups))"

definition shards_for_keys :: "partitioner \<Rightarrow> pystr list \<Rightarrow> (pystr, pystr list) dict result" where
  "shards_for_keys p keys = group_keys p keys []"

fun placement_rows :: "partitioner \<Rightarrow> pystr list \<Rightarrow> (pystr \<times> pystr \<times> pystr list) list result" where
  "placement_rows p [] = Inr []"
| "placement_rows p (s # ss) =
     bindE (replicas p s) (\<lambda>ns.
     bindE (nth_err ns 0) (\<lambda>lead.
     bindE (placement_rows p ss) (\<lambda>rest. Inr ((s, lead, ns) # rest))))"

definition placement :: "partitioner \<Rightarrow> (pystr \<times> pystr \<times> pystr list) list result" where
  "placement p = placement_rows p (pt_shard_ids p)"

text \<open>An arc: shard, start and end.\<close>

definition ring_arcs :: "partitioner \<Rightarrow> (pystr \<times> nat \<times> nat) list result" where
  "ring_arcs p =
     bindE (get_token_ranges (pt_ring p)) (\<lambda>rs.
       let arcs = map (\<lambda>t. (tr_node t, tr_start t, tr_end t)) rs in
       Inr (if arcs \<noteq> [] \<and> snd (snd (last arcs)) < RING_SIZE
            then arcs @ [(fst (hd arcs), snd (snd (last arcs)), RING_SIZE)] else arcs))"

section \<open>Cluster configuration\<close>

definition pool_size :: "nat \<Rightarrow> nat" where
  "pool_size initial = max (initial + 3) 6"

definition node_name :: "nat \<Rightarrow> pystr" where
  "node_name i = str ''node-'' @ str_of_nat i"

definition address_book :: "nat \<Rightarrow> (pystr, pystr \<times> nat) dict" where
  "address_book initial = map (\<lambda>i. (node_name i, (str ''127.0.0.1'', 7000 + i))) [1..<pool_size initial + 1]"

definition initial_nodes :: "nat \<Rightarrow> pystr list" where
  "initial_nodes initial = map node_name [1..<initial + 1]"

definition pd_nodes :: "nat \<Rightarrow> pystr list" where
  "pd_nodes initial = (if length (initial_nodes initial) \<ge> 3 then take 3 (initial_nodes initial) else take 1 (initial_nodes initial))"

definition shard_names :: "nat \<Rightarrow> pystr list" where
  "shard_names n = map (\<lambda>i. str ''shard-'' @ str_of_nat i) [0..<n]"

definition make_partitioner :: "nat \<Rightarrow> nat \<Rightarrow> nat \<Rightarrow> pystr list \<Rightarrow> partitioner result" where
  "make_partitioner initial shards rf nodes =
     partitioner_new (shard_names shards) (if nodes = [] then initial_nodes initial else nodes) (Some rf) 64"

definition compute_placement :: "nat \<Rightarrow> nat \<Rightarrow> pystr list \<Rightarrow> nat \<Rightarrow> (pystr, pystr list) dict" where
  "compute_placement shards REPLICATION_FACTOR nodes rf =
     (let rf = (if rf = 0 then REPLICATION_FACTOR else rf); rf = min rf (length nodes) in
      place_from nodes rf 0 (shard_names shards) [])"

text \<open>\<open>tok.rsplit(":", 1)\<close> unpacked into two names; 58 is the colon, 44 the comma.\<close>

definition rsplit_port :: "pystr \<Rightarrow> (pystr \<times> pystr) result" where
  "rsplit_port tok =
     (if 58 \<notin> set tok then Inl ValueError
      else let port = rev (takeWhile (\<lambda>c. c \<noteq> 58) (rev tok)) in
           Inr (take (length tok - length port - 1) tok, port))"

fun parse_seeds :: "pystr list \<Rightarrow> (pystr \<times> int) list result" where
  "parse_seeds [] = Inr []"
| "parse_seeds (tok # toks) =
     (let tok = py_strip tok in
      if tok = [] then parse_seeds toks
      else bindE (rsplit_port tok) (\<lambda>(host, port).
           bindE (py_int port) (\<lambda>n.
           bindE (parse_seeds toks) (\<lambda>out. Inr ((host, n) # out)))))"

fun lookup_seeds :: "nat \<Rightarrow> pystr list \<Rightarrow> (pystr \<times> int) list result" where
  "lookup_seeds initial [] = Inr []"
| "lookup_seeds initial (n # ns) =
     (case dict_get (address_book initial) n of
        None \<Rightarrow> Inl KeyError
      | Some (host, port) \<Rightarrow> bindE (lookup_seeds initial ns) (\<lambda>out. Inr ((host, int port) # out)))"

definition seed_addrs :: "nat \<Rightarrow> pystr \<Rightarrow> pystr \<Rightarrow> (pystr \<times> int) list result" where
  "seed_addrs initial env_seeds node_id =
     (let raw = py_strip env_seeds in
      if raw \<noteq> [] then parse_seeds (py_split 44 raw)
      else lookup_seeds initial (filter (\<lambda>n. n \<noteq> node_id) (take 2 (initial_nodes initial))))"

end
