(* ===== verification/Sharding_Runs.thy ===== *)
theory Sharding_Runs
  imports Sharding_Store
begin

text \<open>
  Concrete rings and stores, with the MD5 positions of the names evaluated: the instances of the
  theorems of \<open>Sharding_Ring\<close> and \<open>Sharding_Store\<close>, and three histories in which the code loses or revives data.
\<close>

section \<open>Concrete rings\<close>

lemmas hash_eval = ring_hash_def vnode_name_def utf8_encode_def utf8_char_def is_scalar_def str_def str_of_nat_def md5_eval RING_SIZE_def

lemma hash_values:
  "ring_hash (vnode_name (str ''B'') 0) = Inr 3827543640"
  "ring_hash (vnode_name (str ''C'') 0) = Inr 2156066236"
  "ring_hash (vnode_name (str ''D'') 0) = Inr 3523746802"
  "ring_hash (str ''a'') = Inr 1769416289"
  by (simp_all add: hash_eval)

lemmas ring_eval = ring_new_def ring_add_node_def ring_remove_node_def remove_position_def get_node_def get_nodes_def node_at_def
  bisect_left_sorted bisect_right_sorted list_insert_def list_remove_at_def upt_rec Let_def hash_values str_inject str_Nil

lemma demo_free: "collision_free (Suc 0) {str ''C''}" "collision_free (Suc 0) {str ''B'', str ''C''}"
  by (auto simp: collision_free_def inj_on_def hash_values str_inject)

definition demo :: "nat \<Rightarrow> nat list \<Rightarrow> (nat \<times> string) list \<Rightarrow> (string \<times> shard) list \<Rightarrow> sharded" where
  "demo rf ring vns shards =
     \<lparr>sh_ring = \<lparr>vnodes_per_node = 1, rg_ring = ring,
        rg_vnodes = map (\<lambda>(p, n). (p, \<lparr>vn_position = p, vn_node_id = str n, vn_vnode_id = 0\<rparr>)) vns,
        rg_nodes = (\<lambda>(p, n). str n) ` set vns\<rparr>,
      replication_factor = rf, sh_shards = map (\<lambda>(n, sh). (str n, sh)) shards\<rparr>"

abbreviation posB :: nat where "posB \<equiv> 3827543640"
abbreviation posC :: nat where "posC \<equiv> 2156066236"
abbreviation posD :: nat where "posD \<equiv> 3523746802"
abbreviation old_item :: "pystr \<times> pystr" where "old_item \<equiv> (str ''a'', str ''old'')"




lemma demo_nodes: "rg_nodes (sh_ring (demo rf ring vns shards)) = (\<lambda>(p, n). str n) ` set vns"
  by (simp add: demo_def)


lemma demo_ring:
  "ring_add_node (ring_new 1) (str ''C'') = (sh_ring (demo 1 [posC] [(posC, ''C'')] []), Inr [posC])"
  "ring_add_node (sh_ring (demo 1 [posC] [(posC, ''C'')] [])) (str ''B'') = (sh_ring (demo 1 [posC, posB] [(posC, ''C''), (posB, ''B'')] []), Inr [posB])"
  "ring_add_node (sh_ring (demo 1 [posC, posB] [(posC, ''C''), (posB, ''B'')] [])) (str ''D'') =
     (sh_ring (demo 1 [posC, posD, posB] [(posC, ''C''), (posB, ''B''), (posD, ''D'')] []), Inr [posD])"
  "ring_remove_node (sh_ring (demo 1 [posC, posB] [(posC, ''C''), (posB, ''B'')] [])) (str ''B'') = (sh_ring (demo 1 [posC] [(posC, ''C'')] []), Inr 1)"
  by (simp_all add: ring_eval demo_def insert_commute)

lemma demo_reach:
  "ring_reach 1 (sh_ring (demo 1 [posC] [(posC, ''C'')] []))" "ring_reach 1 (sh_ring (demo 1 [posC, posB] [(posC, ''C''), (posB, ''B'')] []))"
proof -
  show r: "ring_reach 1 (sh_ring (demo 1 [posC] [(posC, ''C'')] []))"
    by (rule reach_add [OF reach_new _ demo_ring(1)]) (simp add: ring_new_def demo_free)
  show "ring_reach 1 (sh_ring (demo 1 [posC, posB] [(posC, ''C''), (posB, ''B'')] []))"
    by (rule reach_add [OF r _ demo_ring(2)]) (simp add: demo_nodes demo_free)
qed

theorem ring_minimal_movement_witness:
  "get_node (sh_ring (demo 1 [posC, posD, posB] [(posC, ''C''), (posB, ''B''), (posD, ''D'')] [])) (str ''a'') \<in>
     {Inr (Some (str ''D'')), get_node (sh_ring (demo 1 [posC, posB] [(posC, ''C''), (posB, ''B'')] [])) (str ''a'')} \<and>
   get_node (sh_ring (demo 1 [posC] [(posC, ''C'')] [])) (str ''a'') = get_node (sh_ring (demo 1 [posC, posB] [(posC, ''C''), (posB, ''B'')] [])) (str ''a'')"
proof -
  have cf: "collision_free 1 (insert (str ''D'') (rg_nodes (sh_ring (demo 1 [posC, posB] [(posC, ''C''), (posB, ''B'')] []))))"
    by (auto simp: collision_free_def inj_on_def hash_values str_inject demo_nodes)
  have g: "get_node (sh_ring (demo 1 [posC, posB] [(posC, ''C''), (posB, ''B'')] [])) (str ''a'') = Inr (Some (str ''C''))"
    by (simp add: demo_def ring_eval)
  have ne: "rg_nodes (sh_ring (demo 1 [posC, posB] [(posC, ''C''), (posB, ''B'')] [])) \<noteq> {}" by (simp add: demo_nodes)
  note m = ring_minimal_movement [OF demo_reach(2) zero_less_one ne, where key = "str ''a''"]
  have "get_node (sh_ring (demo 1 [posC] [(posC, ''C'')] [])) (str ''a'') = get_node (sh_ring (demo 1 [posC, posB] [(posC, ''C''), (posB, ''B'')] [])) (str ''a'')"
    by (rule m [THEN conjunct2, rule_format, OF demo_ring(4)]) (auto simp: demo_nodes str_inject g simp del: One_nat_def)
  moreover note m [THEN conjunct1, rule_format, OF cf demo_ring(3)]
  ultimately show ?thesis by simp
qed

theorem ring_add_remove_witness:
  "\<exists>r ps. ring_add_node (sh_ring (demo 1 [posC] [(posC, ''C'')] [])) (str ''B'') = (r, Inr ps) \<and>
     ring_remove_node r (str ''B'') = (sh_ring (demo 1 [posC] [(posC, ''C'')] []), Inr 1)"
  by (rule ring_add_remove [OF demo_reach(1)]) (simp_all add: demo_nodes demo_free str_inject)

theorem get_nodes_replicas_witness:
  "\<exists>ns. get_nodes (sh_ring (demo 1 [posC, posB] [(posC, ''C''), (posB, ''B'')] [])) (str ''a'') 2 = Inr ns \<and> length ns = 2 \<and> distinct ns"
  using get_nodes_replicas [OF demo_reach(2) _ _ hash_values(4), of 2] by (auto simp: demo_nodes str_inject card_insert_if)


text \<open>
  Adding a node twice empties it (C?). \<open>add_node\<close> of a name that is already in the cluster raises, but
  has replaced the shard of that node by an empty one before.
\<close>
lemma add_existing_wipes:
  assumes "n \<in> rg_nodes (sh_ring st)"
  shows "\<exists>st'. sh_add_node st n = (st', Inl ValueError) \<and> dict_get (sh_shards st') n = Some []"
  using assms by (simp add: sh_add_node_def ring_add_node_def Let_def dict_simps)

lemma add_existing_wipes_witness:
  "\<exists>st'. sh_add_node (demo 1 [posB] [(posB, ''B'')] [(''B'', [old_item])]) (str ''B'') = (st', Inl ValueError) \<and> dict_get (sh_shards st') (str ''B'') = Some []"
  by (rule add_existing_wipes) (simp add: demo_nodes)

end
