(* ===== verification/Partition_Props.thy ===== *)
theory Partition_Props
  imports Partition Sharding_Runs
begin

text \<open>
  Correctness of the partition map: replicas and leaders are spread evenly over the nodes, and a list of
  keys is split by owning shard.
\<close>

section \<open>Placement\<close>

lemma nth_mod_inj:
  assumes "distinct nodes" "rf \<le> length nodes" "a < rf" "b < rf" "nodes ! ((i + a) mod length nodes) = nodes ! ((i + b) mod length nodes)"
  shows "a = b"
proof -
  let ?N = "length nodes"
  have N: "0 < ?N" using assms(2,3) by auto
  have e: "(i + a) mod ?N = (i + b) mod ?N" using assms(1,5) N by (simp add: nth_eq_iff_index_eq)
  have "x = y" if "x \<le> y" "y < ?N" "(i + x) mod ?N = (i + y) mod ?N" for x y
    using mod_eq_dvd_iff_nat [of "i + x" "i + y" ?N] that by (auto dest: dvd_imp_le)
  then show ?thesis using e assms(2-4) by (metis le_trans less_le_trans nle_le)
qed

lemma replica_row_props:
  assumes "distinct nodes" "rf \<le> length nodes"
  shows "length (replica_row nodes rf i) = rf" "distinct (replica_row nodes rf i)" "set (replica_row nodes rf i) \<subseteq> set nodes"
    "0 < rf \<Longrightarrow> replica_row nodes rf i ! 0 = nodes ! (i mod length nodes)"
proof -
  show "distinct (replica_row nodes rf i)"
    using nth_mod_inj [OF assms] by (auto simp: replica_row_def distinct_map inj_on_def)
  have "nodes \<noteq> []" if "0 < rf" using assms(2) that by auto
  then show "set (replica_row nodes rf i) \<subseteq> set nodes" by (auto simp: replica_row_def)
qed (simp_all add: replica_row_def)

lemma place_from_get:
  "distinct ss \<Longrightarrow> dict_get (place_from nodes rf i ss d) s =
     (if s \<in> set ss then Some (replica_row nodes rf (i + length (takeWhile (\<lambda>x. x \<noteq> s) ss))) else dict_get d s)"
  by (induction ss arbitrary: i d) (auto simp: dict_simps)

lemma takeWhile_nth: "distinct ss \<Longrightarrow> k < length ss \<Longrightarrow> length (takeWhile (\<lambda>x. x \<noteq> ss ! k) ss) = k"
proof (induction ss arbitrary: k)
  case (Cons a ss)
  then show ?case by (cases k) auto
qed simp

lemma place_from_nth:
  "distinct ss \<Longrightarrow> k < length ss \<Longrightarrow> dict_get (place_from nodes rf i ss d) (ss ! k) = Some (replica_row nodes rf (i + k))"
  by (simp add: place_from_get takeWhile_nth)

lemma partitioner_new_cases:
  assumes "partitioner_new ss nodes rf v = Inr p"
  shows "pt_shard_ids p = ss \<and> pt_nodes p = nodes \<and> pt_rf p \<le> length nodes \<and> (nodes \<noteq> [] \<longrightarrow> 0 < pt_rf p) \<and>
     add_shards ss (ring_new v) = Inr (pt_ring p) \<and> pt_placement p = place_from nodes (pt_rf p) 0 ss []"
  using assms by (auto simp: partitioner_new_def Let_def split: if_splits option.splits)

lemma placement_of:
  assumes "partitioner_new ss nodes rf v = Inr p" "distinct ss" "distinct nodes" "nodes \<noteq> []" "k < length ss"
  shows "replicas p (ss ! k) = Inr (replica_row nodes (pt_rf p) k)" "preferred_leader p (ss ! k) = Inr (nodes ! (k mod length nodes))"
proof -
  note c = partitioner_new_cases [OF assms(1)]
  show r: "replicas p (ss ! k) = Inr (replica_row nodes (pt_rf p) k)" using c assms(2,5) by (simp add: replicas_def place_from_nth)
  show "preferred_leader p (ss ! k) = Inr (nodes ! (k mod length nodes))"
    using r replica_row_props [OF assms(3), of "pt_rf p" k] c assms(4) by (auto simp: preferred_leader_def nth_err_def)
qed

lemma card_mod:
  fixes N :: nat
  assumes "j < N"
  shows "card {k. k < S \<and> k mod N = j} = S div N + (if j < S mod N then 1 else 0)"
proof (induction S)
  case (Suc S)
  have "{k. k < Suc S \<and> k mod N = j} = (if S mod N = j then insert S {k. k < S \<and> k mod N = j} else {k. k < S \<and> k mod N = j})"
    by (auto simp: less_Suc_eq)
  then show ?case using Suc assms by (auto simp: div_Suc mod_Suc)
qed simp

text \<open>
  Balanced placement (C25). Every shard of the partition map has \<open>rf\<close> different nodes of the cluster as
  replicas, and the preferred leaders are spread evenly: with \<open>S\<close> shards on \<open>N\<close> nodes every node leads
  \<open>S div N\<close> shards or one more.
\<close>
theorem placement_balanced:
  assumes "partitioner_new ss nodes rf v = Inr p" "distinct ss" "distinct nodes" "n \<in> set nodes"
  shows "(\<forall>s\<in>set ss. \<exists>row. replicas p s = Inr row \<and> length row = pt_rf p \<and> distinct row \<and> set row \<subseteq> set nodes) \<and>
     card {s \<in> set ss. preferred_leader p s = Inr n} \<in> {length ss div length nodes, length ss div length nodes + 1}"
proof -
  note c = partitioner_new_cases [OF assms(1)]
  have ne: "nodes \<noteq> []" using assms(4) by auto
  note pl = placement_of [OF assms(1-3) ne]
  obtain j where j: "j < length nodes" "nodes ! j = n" using assms(4) by (auto simp: in_set_conv_nth)
  have "nodes ! (k mod length nodes) = n \<longleftrightarrow> k mod length nodes = j" for k
    using j assms(3) ne by (auto simp: nth_eq_iff_index_eq)
  then have "{s \<in> set ss. preferred_leader p s = Inr n} = (!) ss ` {k. k < length ss \<and> k mod length nodes = j}"
    using pl(2) by (auto simp: in_set_conv_nth)
  moreover have "inj_on ((!) ss) {k. k < length ss \<and> k mod length nodes = j}" using assms(2) by (auto simp: inj_on_def nth_eq_iff_index_eq)
  ultimately have "card {s \<in> set ss. preferred_leader p s = Inr n} = length ss div length nodes + (if j < length ss mod length nodes then 1 else 0)"
    by (simp add: card_image card_mod [OF j(1)])
  moreover have "\<exists>row. replicas p s = Inr row \<and> length row = pt_rf p \<and> distinct row \<and> set row \<subseteq> set nodes" if "s \<in> set ss" for s
    using that pl(1) replica_row_props [OF assms(3)] c by (auto simp: in_set_conv_nth)
  ultimately show ?thesis by auto
qed

section \<open>Routing\<close>

lemma add_shards_ok:
  "distinct ss \<Longrightarrow> ring_reach v r \<Longrightarrow> set ss \<inter> rg_nodes r = {} \<Longrightarrow> collision_free v (set ss \<union> rg_nodes r) \<Longrightarrow>
     \<exists>r'. add_shards ss r = Inr r' \<and> ring_reach v r' \<and> rg_nodes r' = set ss \<union> rg_nodes r"
proof (induction ss arbitrary: r)
  case (Cons s ss)
  note inv = ring_reach_inv [OF Cons.prems(2)]
  have cf: "collision_free v (insert s (rg_nodes r))" by (rule collision_free_subset [OF Cons.prems(4)]) auto
  obtain r1 ps where a: "ring_add_node r s = (r1, Inr ps)" "rg_nodes r1 = insert s (rg_nodes r)"
    using ring_add_ok [of r s] inv cf Cons.prems(3) by auto
  have "collision_free v (set ss \<union> rg_nodes r1)" using Cons.prems(4) by (simp add: a(2))
  from Cons.IH [OF _ reach_add [OF Cons.prems(2) cf a(1)] _ this] Cons.prems(1,3) a show ?case by auto
qed simp

lemma partition_routes:
  assumes "partitioner_new ss nodes rf v = Inr p" "distinct ss" "ss \<noteq> []" "0 < v" "collision_free v (set ss)" "ring_hash k = Inr q"
  shows "\<exists>s\<in>set ss. shard_for p k = Inr s"
proof -
  obtain r where r: "pt_ring p = r" "ring_reach v r" "rg_nodes r = set ss"
    using partitioner_new_cases [OF assms(1)] add_shards_ok [OF assms(2) reach_new, of v] assms(5) by (auto simp: ring_new_def)
  have "rg_ring r \<noteq> []" using ring_empty_iff [of r] ring_reach_inv [OF r(2)] r(3) assms(3,4) by auto
  from get_node_succ [OF _ this assms(6)] ring_reach_inv [OF r(2)] r show ?thesis by (auto simp: shard_for_def)
qed

abbreviation group_of :: "(pystr, pystr list) dict \<Rightarrow> pystr \<Rightarrow> pystr list" where
  "group_of g s \<equiv> (case dict_get g s of None \<Rightarrow> [] | Some ks \<Rightarrow> ks)"

lemma group_keys_ok:
  "\<forall>k\<in>set keys. \<exists>s. shard_for p k = Inr s \<Longrightarrow>
     \<exists>g'. group_keys p keys g = Inr g' \<and> (\<forall>s. group_of g' s = group_of g s @ filter (\<lambda>k. shard_for p k = Inr s) keys) \<and>
       (\<forall>s. dict_get g' s = Some [] \<longrightarrow> dict_get g s = Some [])"
proof (induction keys arbitrary: g)
  case (Cons k keys)
  obtain s where s: "shard_for p k = Inr s" using Cons.prems by auto
  let ?g = "dict_set s (group_of g s @ [k]) g"
  obtain g' where g': "group_keys p keys ?g = Inr g'" "\<And>s. group_of g' s = group_of ?g s @ filter (\<lambda>k. shard_for p k = Inr s) keys"
    "\<And>s. dict_get g' s = Some [] \<Longrightarrow> dict_get ?g s = Some []"
    using Cons.IH [of ?g] Cons.prems by auto
  show ?case using s g'(1) by (intro exI [of _ g']) (auto simp: g'(2) dict_simps dest!: g'(3) split: if_splits)
qed simp

text \<open>
  Routing of a set of keys. On a partition map whose shards do not collide, every key belongs to a
  shard of the map, and \<open>shards_for_keys\<close> splits a list of keys into exactly the lists of keys of one
  shard, in the order given, with no empty group.
\<close>
lemma shards_for_keys_partition:
  assumes "partitioner_new ss nodes rf v = Inr p" "distinct ss" "ss \<noteq> []" "0 < v" "collision_free v (set ss)"
    "\<forall>k\<in>set keys. \<exists>q. ring_hash k = Inr q"
  shows "\<exists>g. shards_for_keys p keys = Inr g \<and>
     (\<forall>s. (case dict_get g s of None \<Rightarrow> [] | Some ks \<Rightarrow> ks) = filter (\<lambda>k. shard_for p k = Inr s) keys) \<and>
     (\<forall>s ks. dict_get g s = Some ks \<longrightarrow> s \<in> set ss \<and> ks \<noteq> [])"
proof -
  have r: "\<exists>s\<in>set ss. shard_for p k = Inr s" if "k \<in> set keys" for k using partition_routes [OF assms(1-5)] assms(6) that by blast
  then have ex: "\<forall>k\<in>set keys. \<exists>s. shard_for p k = Inr s" by blast
  obtain g where g: "group_keys p keys [] = Inr g" "\<And>s. group_of g s = filter (\<lambda>k. shard_for p k = Inr s) keys"
    "\<And>s. dict_get g s \<noteq> Some []"
    using group_keys_ok [OF ex, of "[]"] by auto
  have "s \<in> set ss \<and> ks \<noteq> []" if h: "dict_get g s = Some ks" for s ks
  proof -
    have "ks = filter (\<lambda>k. shard_for p k = Inr s) keys" "ks \<noteq> []" using g(2) [of s] g(3) [of s] h by auto
    then obtain k where k: "k \<in> set keys" "shard_for p k = Inr s" by (auto simp: filter_empty_conv)
    show ?thesis using r [OF k(1)] k(2) \<open>ks \<noteq> []\<close> by auto
  qed
  then show ?thesis using g(1,2) by (intro exI [of _ g]) (simp add: shards_for_keys_def)
qed

lemma demo_partition: "\<exists>p. partitioner_new [str ''C'', str ''B''] [str ''n1'', str ''n2''] None 1 = Inr p"
proof -
  have "\<exists>r. add_shards [str ''C'', str ''B''] (ring_new 1) = Inr r"
    using add_shards_ok [of "[str ''C'', str ''B'']" 1 "ring_new 1", OF _ reach_new] demo_free(2)
    by (auto simp: ring_new_def str_inject insert_commute)
  then show ?thesis by (auto simp: partitioner_new_def)
qed

theorem placement_balanced_witness:
  "\<exists>p. partitioner_new [str ''C'', str ''B''] [str ''n1'', str ''n2''] None 1 = Inr p \<and>
     card {s \<in> {str ''C'', str ''B''}. preferred_leader p s = Inr (str ''n1'')} \<in> {1, Suc 1}"
proof -
  obtain p where p: "partitioner_new [str ''C'', str ''B''] [str ''n1'', str ''n2''] None 1 = Inr p" using demo_partition by auto
  from placement_balanced [OF p, of "str ''n1''"] p show ?thesis by (simp add: str_inject)
qed

lemma shards_for_keys_partition_witness:
  "\<exists>p g. partitioner_new [str ''C'', str ''B''] [str ''n1'', str ''n2''] None 1 = Inr p \<and>
     shards_for_keys p [str ''a''] = Inr g \<and> (\<forall>s ks. dict_get g s = Some ks \<longrightarrow> s \<in> {str ''C'', str ''B''} \<and> ks \<noteq> [])"
proof -
  obtain p where p: "partitioner_new [str ''C'', str ''B''] [str ''n1'', str ''n2''] None 1 = Inr p" using demo_partition by auto
  have cf: "collision_free 1 (set [str ''C'', str ''B''])" using demo_free(2) by (simp add: insert_commute)
  have k: "\<forall>k\<in>set [str ''a'']. \<exists>q. ring_hash k = Inr q" by (simp add: hash_values)
  have d: "distinct [str ''C'', str ''B'']" by (simp add: str_inject)
  have ne: "[str ''C'', str ''B''] \<noteq> []" by simp
  from shards_for_keys_partition [OF p d ne zero_less_one cf k] obtain g where
    g: "shards_for_keys p [str ''a''] = Inr g" "\<forall>s ks. dict_get g s = Some ks \<longrightarrow> s \<in> set [str ''C'', str ''B''] \<and> ks \<noteq> []"
    by (elim exE conjE) (rule that)
  show ?thesis by (intro exI conjI, rule p, rule g(1)) (rule g(2) [unfolded list.set])
qed

end
