(* ===== verification/Py_Float.thy ===== *)
theory Py_Float
  imports Complex_Main "HOL-Library.Log_Nat" Py_Text
begin

text \<open>
  Python's \<open>float\<close>: the finite values as rationals, the infinities and \<open>nan\<close> (the sign of zero is left
  out: it changes no comparison). \<open>to_double\<close> rounds to the nearest 53-bit double, ties to even, and
  \<open>py_float\<close> is \<open>float(s)\<close> of a string.
\<close>

datatype pyfloat = Fin rat | PInf | NInf | NaN

definition round_half_even :: "rat \<Rightarrow> int" where
  "round_half_even x =
     (let f = \<lfloor>x\<rfloor>; d = x - of_int f in
      if d < 1 / 2 then f else if d > 1 / 2 then f + 1 else if even f then f else f + 1)"

text \<open>The exponent of the largest power of two below a positive number.\<close>

definition floor_log2 :: "rat \<Rightarrow> int" where
  "floor_log2 x =
     (case quotient_of x of (p, q) \<Rightarrow>
        let k = int (floorlog 2 (nat p)) - int (floorlog 2 (nat q)) in
        if 2 powi k \<le> x then k else k - 1)"

definition to_double :: "rat \<Rightarrow> pyfloat" where
  "to_double x =
     (if x = 0 then Fin 0
      else let a = abs x;
               e = max (floor_log2 a - 52) (-1074);
               y = of_int (round_half_even (a / 2 powi e)) * 2 powi e in
           if y \<noteq> 0 \<and> floor_log2 y \<ge> 1024 then (if x < 0 then NInf else PInf) else Fin (sgn x * y))"

definition lower_ascii :: "nat \<Rightarrow> nat" where
  "lower_ascii c = (if 65 \<le> c \<and> c \<le> 90 then c + 32 else c)"

text \<open>Digits in groups joined by single underscores.\<close>

definition digit_part :: "pystr \<Rightarrow> bool" where
  "digit_part s \<longleftrightarrow> list_all (\<lambda>g. g \<noteq> [] \<and> list_all is_digit g) (py_split 95 s)"

definition plain_digits :: "pystr \<Rightarrow> pystr" where
  "plain_digits s = filter is_digit s"

definition py_sign :: "pystr \<Rightarrow> int \<times> pystr" where
  "py_sign t = (case t of [] \<Rightarrow> (1, []) | c # r \<Rightarrow> if c = 45 then (-1, r) else if c = 43 then (1, r) else (1, t))"

definition py_float :: "pystr \<Rightarrow> pyfloat result" where
  "py_float s =
     (let (sg, t) = py_sign (py_strip s); low = map lower_ascii t in
      if low = str ''inf'' \<or> low = str ''infinity'' then Inr (if sg < 0 then NInf else PInf)
      else if low = str ''nan'' then Inr NaN
      else let mant = takeWhile (\<lambda>c. lower_ascii c \<noteq> 101) t;
               ex = dropWhile (\<lambda>c. lower_ascii c \<noteq> 101) t;
               (es, ed) = py_sign (drop 1 ex);
               ip = takeWhile (\<lambda>c. c \<noteq> 46) mant;
               fp = drop 1 (dropWhile (\<lambda>c. c \<noteq> 46) mant) in
           if (ip = [] \<or> digit_part ip) \<and> (fp = [] \<or> digit_part fp) \<and> ip @ fp \<noteq> [] \<and> (ex = [] \<or> digit_part ed)
           then let n = nat_of_digits (plain_digits ip @ plain_digits fp);
                    e = es * int (nat_of_digits (plain_digits ed)) - int (length (plain_digits fp)) in
                Inr (to_double (of_int sg * of_nat n * 10 powi e))
           else Inl ValueError)"

section \<open>Comparisons\<close>

fun float_eq :: "pyfloat \<Rightarrow> pyfloat \<Rightarrow> bool" where
  "float_eq (Fin a) (Fin b) = (a = b)"
| "float_eq PInf PInf = True"
| "float_eq NInf NInf = True"
| "float_eq _ _ = False"

fun float_lt :: "pyfloat \<Rightarrow> pyfloat \<Rightarrow> bool" where
  "float_lt (Fin a) (Fin b) = (a < b)"
| "float_lt (Fin a) PInf = True"
| "float_lt NInf (Fin b) = True"
| "float_lt NInf PInf = True"
| "float_lt _ _ = False"

definition float_le :: "pyfloat \<Rightarrow> pyfloat \<Rightarrow> bool" where
  "float_le a b \<longleftrightarrow> float_lt a b \<or> float_eq a b"

end
