(* ===== verification/Sql.thy ===== *)
theory Sql
  imports Py_Float
begin

text \<open>
  \<open>sql_parser.py\<close>: tokenizer, recursive-descent parser, expression evaluator and the in-memory database.

  The properties of characters outside ASCII come from the Unicode tables of the runtime and are the
  argument \<open>uc\<close>. The recursive parser functions count down a bound on their recursion depth; \<open>parse_sql\<close>
  starts them with one that is never used up (\<open>Sql_Parse\<close>), and Python's own limit on the depth of the
  stack is not modelled. The texts of result messages are left out: a statement returns a value of
  \<open>sql_result\<close>.
\<close>

section \<open>Values\<close>

datatype sql_val = VNull | VBool bool | VInt int | VFloat pyfloat | VStr pystr

definition is_number :: "sql_val \<Rightarrow> bool" where
  "is_number v = (case v of VBool _ \<Rightarrow> True | VInt _ \<Rightarrow> True | VFloat _ \<Rightarrow> True | _ \<Rightarrow> False)"

definition num_of :: "sql_val \<Rightarrow> pyfloat" where
  "num_of v = (case v of VBool b \<Rightarrow> Fin (if b then 1 else 0) | VInt i \<Rightarrow> Fin (of_int i) | VFloat f \<Rightarrow> f | _ \<Rightarrow> NaN)"

text \<open>\<open>bool(v)\<close>, \<open>a == b\<close> and \<open>a < b\<close>; comparing values of different kinds raises.\<close>

definition truthy :: "sql_val \<Rightarrow> bool" where
  "truthy v = (case v of VNull \<Rightarrow> False | VStr s \<Rightarrow> s \<noteq> [] | _ \<Rightarrow> \<not> float_eq (num_of v) (Fin 0))"

definition val_eq :: "sql_val \<Rightarrow> sql_val \<Rightarrow> bool" where
  "val_eq a b =
     (if is_number a \<and> is_number b then float_eq (num_of a) (num_of b)
      else case (a, b) of (VNull, VNull) \<Rightarrow> True | (VStr s, VStr t) \<Rightarrow> s = t | _ \<Rightarrow> False)"

definition val_cmp :: "(pyfloat \<Rightarrow> pyfloat \<Rightarrow> bool) \<Rightarrow> (pystr \<Rightarrow> pystr \<Rightarrow> bool) \<Rightarrow> sql_val \<Rightarrow> sql_val \<Rightarrow> bool result" where
  "val_cmp num st a b =
     (if is_number a \<and> is_number b then Inr (num (num_of a) (num_of b))
      else case (a, b) of (VStr s, VStr t) \<Rightarrow> Inr (st s t) | _ \<Rightarrow> Inl TypeErr)"

section \<open>Tokenizer\<close>

record unidata =
  uc_space :: "nat \<Rightarrow> bool"
  uc_digit :: "nat \<Rightarrow> bool"
  uc_alpha :: "nat \<Rightarrow> bool"
  uc_alnum :: "nat \<Rightarrow> bool"
  uc_decimal :: "nat \<Rightarrow> nat option"
  uc_upper :: "nat \<Rightarrow> pystr"

definition c_space :: "unidata \<Rightarrow> nat \<Rightarrow> bool" where
  "c_space uc c = (if c < 128 then is_space c \<or> (28 \<le> c \<and> c \<le> 31) else uc_space uc c)"

definition c_digit :: "unidata \<Rightarrow> nat \<Rightarrow> bool" where
  "c_digit uc c = (if c < 128 then is_digit c else uc_digit uc c)"

definition c_alpha :: "unidata \<Rightarrow> nat \<Rightarrow> bool" where
  "c_alpha uc c = (if c < 128 then (65 \<le> c \<and> c \<le> 90) \<or> (97 \<le> c \<and> c \<le> 122) else uc_alpha uc c)"

definition c_alnum :: "unidata \<Rightarrow> nat \<Rightarrow> bool" where
  "c_alnum uc c = (if c < 128 then c_alpha uc c \<or> is_digit c else uc_alnum uc c)"

definition str_upper :: "unidata \<Rightarrow> pystr \<Rightarrow> pystr" where
  "str_upper uc s =
     concat (map (\<lambda>c. if c < 128 then [if 97 \<le> c \<and> c \<le> 122 then c - 32 else c] else uc_upper uc c) s)"

datatype tok_type =
    KW pystr
  | IDENT | STRING | NUMBER | STAR
  | EQ | NEQ | LT | LTE | GT | GTE
  | LPAREN | RPAREN | COMMA | SEMI
  | EOF

definition KEYWORDS :: "pystr list" where
  "KEYWORDS = map str
     [''SELECT'', ''INSERT'', ''UPDATE'', ''DELETE'', ''CREATE'', ''DROP'',
      ''FROM'', ''INTO'', ''TABLE'', ''WHERE'', ''SET'', ''VALUES'',
      ''AND'', ''OR'', ''NOT'', ''ORDER'', ''BY'', ''LIMIT'', ''ASC'', ''DESC'',
      ''TEXT'', ''INT'', ''INTEGER'', ''FLOAT'', ''BOOLEAN'']"

record token =
  tk_type :: tok_type
  tk_value :: sql_val
  tk_pos :: nat

text \<open>The loop of a string literal: its characters, and what follows the closing quote.\<close>

fun scan_string :: "nat \<Rightarrow> pystr \<Rightarrow> pystr \<times> pystr" where
  "scan_string quote [] = ([], [])"
| "scan_string quote (c # cs) =
     (if c = quote then ([], cs)
      else if c = 92 then
        (case cs of
           [] \<Rightarrow> ([c], [])
         | d # ds \<Rightarrow> (case scan_string quote ds of (v, rest) \<Rightarrow> (c # d # v, rest)))
      else (case scan_string quote cs of (v, rest) \<Rightarrow> (c # v, rest)))"

text \<open>Decimal digits of other scripts read as ASCII digits; a digit without decimal value raises.\<close>

fun ascii_digits :: "unidata \<Rightarrow> pystr \<Rightarrow> pystr result" where
  "ascii_digits uc [] = Inr []"
| "ascii_digits uc (c # cs) =
     bindE (ascii_digits uc cs) (\<lambda>r.
     if c < 128 then Inr (c # r) else case uc_decimal uc c of None \<Rightarrow> Inl ValueError | Some d \<Rightarrow> Inr ((48 + d) # r))"

definition number_value :: "unidata \<Rightarrow> pystr \<Rightarrow> sql_val result" where
  "number_value uc raw =
     bindE (ascii_digits uc raw) (\<lambda>s.
     if 46 \<in> set raw then bindE (py_float s) (\<lambda>f. Inr (VFloat f)) else bindE (py_int s) (\<lambda>i. Inr (VInt i)))"

definition operator_token :: "pystr \<Rightarrow> (tok_type \<times> nat) option" where
  "operator_token s =
     (let two = take 2 s; c = hd s in
      if two = str ''!='' then Some (NEQ, 2)
      else if two = str ''<='' then Some (LTE, 2)
      else if two = str ''>='' then Some (GTE, 2)
      else if c = 61 then Some (EQ, 1)
      else if c = 60 then Some (LT, 1)
      else if c = 62 then Some (GT, 1)
      else if c = 42 then Some (STAR, 1)
      else if c = 40 then Some (LPAREN, 1)
      else if c = 41 then Some (RPAREN, 1)
      else if c = 44 then Some (COMMA, 1)
      else if c = 59 then Some (SEMI, 1)
      else None)"

lemma scan_string_length: "length (snd (scan_string q cs)) \<le> length cs"
proof (induction q cs rule: scan_string.induct)
  case (2 q c cs)
  then show ?case by (cases cs) (auto simp: case_prod_beta intro: le_SucI)
qed simp

lemma operator_token_pos: "operator_token s = Some (k, n) \<Longrightarrow> 0 < n"
  by (auto simp: operator_token_def Let_def split: if_splits)

lemma comment_shorter: "take 2 s = str ''--'' \<Longrightarrow> length (dropWhile (\<lambda>c. c \<noteq> 10) s) < length s"
  by (cases s) (auto simp: str_def le_imp_less_Suc length_dropWhile_le)

text \<open>The loop at position \<open>i\<close> with the rest \<open>s\<close> of the text.\<close>

function tokenize_from :: "unidata \<Rightarrow> nat \<Rightarrow> pystr \<Rightarrow> token list result" where
  "tokenize_from uc i s =
     (if s = [] then Inr [\<lparr>tk_type = EOF, tk_value = VNull, tk_pos = i\<rparr>]
      else let c = hd s in
      if c_space uc c then tokenize_from uc (i + 1) (tl s)
      else if take 2 s = str ''--'' then
        (let rest = dropWhile (\<lambda>c. c \<noteq> 10) s in tokenize_from uc (i + (length s - length rest)) rest)
      else if c = 39 \<or> c = 34 then
        (case scan_string c (tl s) of (v, rest) \<Rightarrow>
           bindE (tokenize_from uc (i + (length s - length rest)) rest) (\<lambda>ts.
           Inr (\<lparr>tk_type = STRING, tk_value = VStr v, tk_pos = i\<rparr> # ts)))
      else if c_digit uc c \<or> (c = 45 \<and> tl s \<noteq> [] \<and> c_digit uc (hd (tl s))) then
        (let sgn = (if c = 45 then [c] else []);
             body = takeWhile (\<lambda>c. c_digit uc c \<or> c = 46) (drop (length sgn) s);
             raw = sgn @ body in
         bindE (number_value uc raw) (\<lambda>v.
         bindE (tokenize_from uc (i + length raw) (drop (length raw) s)) (\<lambda>ts.
         Inr (\<lparr>tk_type = NUMBER, tk_value = v, tk_pos = i\<rparr> # ts))))
      else if c_alpha uc c \<or> c = 95 then
        (let word = c # takeWhile (\<lambda>c. c_alnum uc c \<or> c = 95) (tl s);
             upper = str_upper uc word in
         bindE (tokenize_from uc (i + length word) (drop (length word) s)) (\<lambda>ts.
         Inr ((if upper \<in> set KEYWORDS then \<lparr>tk_type = KW upper, tk_value = VStr upper, tk_pos = i\<rparr>
               else \<lparr>tk_type = IDENT, tk_value = VStr word, tk_pos = i\<rparr>) # ts)))
      else case operator_token s of
             None \<Rightarrow> Inl SyntaxErr
           | Some (k, n) \<Rightarrow>
               bindE (tokenize_from uc (i + n) (drop n s)) (\<lambda>ts.
               Inr (\<lparr>tk_type = k, tk_value = VStr (take n s), tk_pos = i\<rparr> # ts)))"
  by pat_completeness auto
termination
proof (relation "measure (\<lambda>(uc, i, s). length s)", goal_cases)
  case (4 uc i s x xa y)
  then have "y = snd (scan_string x (tl s))" by (metis snd_conv)
  then show ?case using scan_string_length [of x "tl s"] 4 by (cases s) auto
next
  case (5 uc i s x sgn body raw xd)
  then show ?case by (cases s) (auto split: if_splits)
qed (auto simp: operator_token_pos comment_shorter)

declare tokenize_from.simps [simp del]

definition tokenize :: "unidata \<Rightarrow> pystr \<Rightarrow> token list result" where
  "tokenize uc sql = tokenize_from uc 0 sql"

section \<open>Syntax trees\<close>

datatype bin_op = OpEq | OpNeq | OpLt | OpLte | OpGt | OpGte | OpAnd | OpOr

datatype expr =
    BinaryExpr bin_op expr expr
  | UnaryNot expr
  | ColumnRef pystr
  | Literal sql_val

record select_stmt =
  se_table :: pystr
  se_columns :: "pystr list"
  se_where :: "expr option"
  se_order_by :: "pystr option"
  se_order_desc :: bool
  se_limit :: "int option"

datatype stmt =
    CreateTable pystr "(pystr \<times> pystr) list"
  | DropTable pystr
  | Insert pystr "pystr list" "sql_val list"
  | Select select_stmt
  | Update pystr "(pystr, sql_val) dict" "expr option"
  | Delete pystr "expr option"

section \<open>Parser\<close>

text \<open>A parsing method takes the tokens from the current position on and returns those it leaves.\<close>

type_synonym 'a parser = "token list \<Rightarrow> ('a \<times> token list) result"

definition peek :: "token list \<Rightarrow> token result" where
  "peek ts = (case ts of [] \<Rightarrow> Inl IndexError | t # _ \<Rightarrow> Inr t)"

definition consume :: "tok_type \<Rightarrow> token parser" where
  "consume k ts =
     (case ts of [] \<Rightarrow> Inl IndexError | t # r \<Rightarrow> if tk_type t \<noteq> k then Inl SyntaxErr else Inr (t, r))"

definition val_name :: "sql_val \<Rightarrow> pystr" where
  "val_name v = (case v of VStr s \<Rightarrow> s | _ \<Rightarrow> [])"

definition consume_name :: "pystr parser" where
  "consume_name ts = bindE (consume IDENT ts) (\<lambda>(t, r). Inr (val_name (tk_value t), r))"

text \<open>\<open>while self.match(COMMA): self.consume(); out.append(item())\<close>\<close>

function comma_loop :: "nat \<Rightarrow> 'a parser \<Rightarrow> 'a list \<Rightarrow> 'a list parser" where
  "comma_loop n item out ts =
     bindE (peek ts) (\<lambda>t.
       if tk_type t = COMMA
       then if n = 0 then Inl RecursionErr
            else bindE (item (tl ts)) (\<lambda>(x, r). comma_loop (n - 1) item (out @ [x]) r)
       else Inr (out, ts))"
  by pat_completeness auto
termination by (relation "measure (\<lambda>(n, _, _, _). n)") auto

declare comma_loop.simps [simp del]

definition comma_list :: "'a parser \<Rightarrow> 'a list parser" where
  "comma_list item ts = bindE (item ts) (\<lambda>(x, r). comma_loop (length ts) item [x] r)"

definition parse_column_list :: "pystr list parser" where
  "parse_column_list ts =
     bindE (peek ts) (\<lambda>t. if tk_type t = STAR then Inr ([str ''*''], tl ts) else comma_list consume_name ts)"

definition parse_literal_value :: "unidata \<Rightarrow> sql_val parser" where
  "parse_literal_value uc ts =
     bindE (peek ts) (\<lambda>t.
       if tk_type t = STRING \<or> tk_type t = NUMBER then Inr (tk_value t, tl ts)
       else if tk_type t = IDENT then
         (let up = str_upper uc (val_name (tk_value t)) in
          Inr (if up = str ''NULL'' then VNull
               else if up = str ''TRUE'' then VBool True
               else if up = str ''FALSE'' then VBool False
               else tk_value t, tl ts))
       else Inl SyntaxErr)"

definition op_of :: "tok_type \<Rightarrow> bin_op option" where
  "op_of k = (case k of EQ \<Rightarrow> Some OpEq | NEQ \<Rightarrow> Some OpNeq | LT \<Rightarrow> Some OpLt | LTE \<Rightarrow> Some OpLte
                | GT \<Rightarrow> Some OpGt | GTE \<Rightarrow> Some OpGte | _ \<Rightarrow> None)"

abbreviation kw :: "string \<Rightarrow> tok_type" where
  "kw s \<equiv> KW (str s)"

text \<open>The methods of the expression grammar; \<open>n\<close> bounds the depth of the calls and loops.\<close>

function (sequential)
  parse_or :: "nat \<Rightarrow> expr parser" and
  or_loop :: "nat \<Rightarrow> expr \<Rightarrow> expr parser" and
  parse_and :: "nat \<Rightarrow> expr parser" and
  and_loop :: "nat \<Rightarrow> expr \<Rightarrow> expr parser" and
  parse_not :: "nat \<Rightarrow> expr parser" and
  parse_compare :: "nat \<Rightarrow> expr parser" and
  parse_term :: "nat \<Rightarrow> expr parser" where
  "parse_or n ts =
     (if n = 0 then Inl RecursionErr else bindE (parse_and (n - 1) ts) (\<lambda>(l, r). or_loop (n - 1) l r))"
| "or_loop n left ts =
     (if n = 0 then Inl RecursionErr
      else bindE (peek ts) (\<lambda>t.
        if tk_type t = kw ''OR''
        then bindE (parse_and (n - 1) (tl ts)) (\<lambda>(x, r). or_loop (n - 1) (BinaryExpr OpOr left x) r)
        else Inr (left, ts)))"
| "parse_and n ts =
     (if n = 0 then Inl RecursionErr else bindE (parse_not (n - 1) ts) (\<lambda>(l, r). and_loop (n - 1) l r))"
| "and_loop n left ts =
     (if n = 0 then Inl RecursionErr
      else bindE (peek ts) (\<lambda>t.
        if tk_type t = kw ''AND''
        then bindE (parse_not (n - 1) (tl ts)) (\<lambda>(x, r). and_loop (n - 1) (BinaryExpr OpAnd left x) r)
        else Inr (left, ts)))"
| "parse_not n ts =
     (if n = 0 then Inl RecursionErr
      else bindE (peek ts) (\<lambda>t.
        if tk_type t = kw ''NOT''
        then bindE (parse_not (n - 1) (tl ts)) (\<lambda>(x, r). Inr (UnaryNot x, r))
        else parse_compare (n - 1) ts))"
| "parse_compare n ts =
     (if n = 0 then Inl RecursionErr
      else bindE (parse_term (n - 1) ts) (\<lambda>(l, r).
           bindE (peek r) (\<lambda>t.
             case op_of (tk_type t) of
               None \<Rightarrow> Inr (l, r)
             | Some b \<Rightarrow> bindE (parse_term (n - 1) (tl r)) (\<lambda>(x, r'). Inr (BinaryExpr b l x, r')))))"
| "parse_term n ts =
     (if n = 0 then Inl RecursionErr
      else bindE (peek ts) (\<lambda>t.
        if tk_type t = LPAREN
        then bindE (parse_or (n - 1) (tl ts)) (\<lambda>(x, r). bindE (consume RPAREN r) (\<lambda>(_, r'). Inr (x, r')))
        else if tk_type t = IDENT then Inr (ColumnRef (val_name (tk_value t)), tl ts)
        else if tk_type t = STRING \<or> tk_type t = NUMBER then Inr (Literal (tk_value t), tl ts)
        else Inl SyntaxErr))"
  by pat_completeness auto
termination
  by (relation "measure (\<lambda>x. case x of Inl (Inl (n, _)) \<Rightarrow> n | Inl (Inr (Inl (n, _))) \<Rightarrow> n | Inl (Inr (Inr (n, _))) \<Rightarrow> n
        | Inr (Inl (Inl (n, _))) \<Rightarrow> n | Inr (Inl (Inr (n, _))) \<Rightarrow> n | Inr (Inr (Inl (n, _))) \<Rightarrow> n | Inr (Inr (Inr (n, _))) \<Rightarrow> n)") auto

declare parse_or.simps [simp del] or_loop.simps [simp del] parse_and.simps [simp del] and_loop.simps [simp del]
  parse_not.simps [simp del] parse_compare.simps [simp del] parse_term.simps [simp del]

text \<open>Seven calls per nesting level and one per token of a loop are enough.\<close>

definition parse_expr :: "expr parser" where
  "parse_expr ts = parse_or (7 * length ts + 7) ts"

definition parse_where :: "expr option parser" where
  "parse_where ts =
     bindE (peek ts) (\<lambda>t.
       if tk_type t = kw ''WHERE'' then bindE (parse_expr (tl ts)) (\<lambda>(e, r). Inr (Some e, r)) else Inr (None, ts))"

definition parse_order :: "(pystr option \<times> bool) parser" where
  "parse_order ts =
     bindE (peek ts) (\<lambda>t.
       if tk_type t = kw ''ORDER'' then
         bindE (consume (kw ''BY'') (tl ts)) (\<lambda>(_, r).
         bindE (consume_name r) (\<lambda>(col, r).
         bindE (peek r) (\<lambda>t.
         Inr (if tk_type t = kw ''DESC'' then ((Some col, True), tl r)
              else if tk_type t = kw ''ASC'' then ((Some col, False), tl r)
              else ((Some col, False), r)))))
       else Inr ((None, False), ts))"

text \<open>\<open>int(value)\<close> of a number token: truncation towards zero; infinities and \<open>nan\<close> raise.\<close>

definition int_of_number :: "sql_val \<Rightarrow> int result" where
  "int_of_number v =
     (case v of
        VInt i \<Rightarrow> Inr i
      | VFloat (Fin x) \<Rightarrow> Inr (if x < 0 then - \<lfloor>- x\<rfloor> else \<lfloor>x\<rfloor>)
      | VBool b \<Rightarrow> Inr (if b then 1 else 0)
      | VFloat NaN \<Rightarrow> Inl ValueError
      | VFloat _ \<Rightarrow> Inl OverflowErr
      | _ \<Rightarrow> Inl ValueError)"

definition parse_limit :: "int option parser" where
  "parse_limit ts =
     bindE (peek ts) (\<lambda>t.
       if tk_type t = kw ''LIMIT'' then
         bindE (consume NUMBER (tl ts)) (\<lambda>(t, r). bindE (int_of_number (tk_value t)) (\<lambda>i. Inr (Some i, r)))
       else Inr (None, ts))"

definition parse_select :: "stmt parser" where
  "parse_select ts =
     bindE (consume (kw ''SELECT'') ts) (\<lambda>(_, r).
     bindE (parse_column_list r) (\<lambda>(cols, r).
     bindE (consume (kw ''FROM'') r) (\<lambda>(_, r).
     bindE (consume_name r) (\<lambda>(table, r).
     bindE (parse_where r) (\<lambda>(wh, r).
     bindE (parse_order r) (\<lambda>((ob, desc), r).
     bindE (parse_limit r) (\<lambda>(li, r).
     Inr (Select \<lparr>se_table = table, se_columns = cols, se_where = wh, se_order_by = ob, se_order_desc = desc, se_limit = li\<rparr>, r))))))))"

definition parse_insert :: "unidata \<Rightarrow> stmt parser" where
  "parse_insert uc ts =
     bindE (consume (kw ''INSERT'') ts) (\<lambda>(_, r).
     bindE (consume (kw ''INTO'') r) (\<lambda>(_, r).
     bindE (consume_name r) (\<lambda>(table, r).
     bindE (consume LPAREN r) (\<lambda>(_, r).
     bindE (comma_list consume_name r) (\<lambda>(cols, r).
     bindE (consume RPAREN r) (\<lambda>(_, r).
     bindE (consume (kw ''VALUES'') r) (\<lambda>(_, r).
     bindE (consume LPAREN r) (\<lambda>(_, r).
     bindE (comma_list (parse_literal_value uc) r) (\<lambda>(vals, r).
     bindE (consume RPAREN r) (\<lambda>(_, r).
     Inr (Insert table cols vals, r)))))))))))"

definition parse_assignment :: "unidata \<Rightarrow> (pystr \<times> sql_val) parser" where
  "parse_assignment uc ts =
     bindE (consume_name ts) (\<lambda>(col, r).
     bindE (consume EQ r) (\<lambda>(_, r).
     bindE (parse_literal_value uc r) (\<lambda>(v, r).
     Inr ((col, v), r))))"

definition parse_update :: "unidata \<Rightarrow> stmt parser" where
  "parse_update uc ts =
     bindE (consume (kw ''UPDATE'') ts) (\<lambda>(_, r).
     bindE (consume_name r) (\<lambda>(table, r).
     bindE (consume (kw ''SET'') r) (\<lambda>(_, r).
     bindE (comma_list (parse_assignment uc) r) (\<lambda>(asg, r).
     bindE (parse_where r) (\<lambda>(wh, r).
     Inr (Update table (fold (\<lambda>(col, v) d. dict_set col v d) asg []) wh, r))))))"

definition parse_delete :: "stmt parser" where
  "parse_delete ts =
     bindE (consume (kw ''DELETE'') ts) (\<lambda>(_, r).
     bindE (consume (kw ''FROM'') r) (\<lambda>(_, r).
     bindE (consume_name r) (\<lambda>(table, r).
     bindE (parse_where r) (\<lambda>(wh, r).
     Inr (Delete table wh, r)))))"

text \<open>A column definition takes any token as its type; \<open>value.upper()\<close> needs a string.\<close>

definition parse_col_def :: "unidata \<Rightarrow> (pystr \<times> pystr) parser" where
  "parse_col_def uc ts =
     bindE (consume_name ts) (\<lambda>(name, r).
     bindE (peek r) (\<lambda>t.
     case tk_value t of
       VStr s \<Rightarrow> Inr ((name, str_upper uc s), tl r)
     | _ \<Rightarrow> Inl AttributeErr))"

definition parse_create :: "unidata \<Rightarrow> stmt parser" where
  "parse_create uc ts =
     bindE (consume (kw ''CREATE'') ts) (\<lambda>(_, r).
     bindE (consume (kw ''TABLE'') r) (\<lambda>(_, r).
     bindE (consume_name r) (\<lambda>(table, r).
     bindE (consume LPAREN r) (\<lambda>(_, r).
     bindE (comma_list (parse_col_def uc) r) (\<lambda>(cols, r).
     bindE (consume RPAREN r) (\<lambda>(_, r).
     Inr (CreateTable table cols, r)))))))"

definition parse_drop :: "stmt parser" where
  "parse_drop ts =
     bindE (consume (kw ''DROP'') ts) (\<lambda>(_, r).
     bindE (consume (kw ''TABLE'') r) (\<lambda>(_, r).
     bindE (consume_name r) (\<lambda>(table, r).
     Inr (DropTable table, r))))"

definition parse_stmt :: "unidata \<Rightarrow> stmt parser" where
  "parse_stmt uc ts =
     bindE (peek ts) (\<lambda>t.
       if tk_type t = kw ''SELECT'' then parse_select ts
       else if tk_type t = kw ''INSERT'' then parse_insert uc ts
       else if tk_type t = kw ''UPDATE'' then parse_update uc ts
       else if tk_type t = kw ''DELETE'' then parse_delete ts
       else if tk_type t = kw ''CREATE'' then parse_create uc ts
       else if tk_type t = kw ''DROP'' then parse_drop ts
       else Inl SyntaxErr)"

text \<open>\<open>parse\<close> looks at one more token for the optional semicolon and ignores what follows.\<close>

definition parse_tokens :: "unidata \<Rightarrow> token list \<Rightarrow> stmt result" where
  "parse_tokens uc ts =
     bindE (parse_stmt uc ts) (\<lambda>(st, r). bindE (peek r) (\<lambda>_. Inr st))"

definition parse_sql :: "unidata \<Rightarrow> pystr \<Rightarrow> stmt result" where
  "parse_sql uc sql = bindE (tokenize uc sql) (parse_tokens uc)"

section \<open>Tables and expressions\<close>

type_synonym row = "(pystr, sql_val) dict"

definition row_get :: "row \<Rightarrow> pystr \<Rightarrow> sql_val" where
  "row_get row col = (case dict_get row col of None \<Rightarrow> VNull | Some v \<Rightarrow> v)"

record table =
  tb_name :: pystr
  tb_columns :: "(pystr, pystr) dict"
  tb_rows :: "row list"
  tb_next_rowid :: nat

definition table_new :: "pystr \<Rightarrow> (pystr \<times> pystr) list \<Rightarrow> table" where
  "table_new name columns =
     \<lparr>tb_name = name, tb_columns = fold (\<lambda>(n, t) d. dict_set n t d) columns [], tb_rows = [], tb_next_rowid = 1\<rparr>"

fun fill_row :: "(pystr, pystr) dict \<Rightarrow> (pystr \<times> sql_val) list \<Rightarrow> row \<Rightarrow> row result" where
  "fill_row columns [] row = Inr row"
| "fill_row columns ((col, val) # cvs) row =
     (if dict_get columns col = None then Inl ValueError else fill_row columns cvs (dict_set col val row))"

definition table_insert :: "table \<Rightarrow> pystr list \<Rightarrow> sql_val list \<Rightarrow> table \<times> sql_val result" where
  "table_insert t cols vals =
     (let t' = t\<lparr>tb_next_rowid := tb_next_rowid t + 1\<rparr> in
      case fill_row (tb_columns t) (zip cols vals) [(str ''_rowid'', VInt (int (tb_next_rowid t)))] of
        Inl e \<Rightarrow> (t', Inl e)
      | Inr row \<Rightarrow> (t'\<lparr>tb_rows := tb_rows t @ [row]\<rparr>, Inr (row_get row (str ''_rowid''))))"

text \<open>A string compared with a number is read as a float when it is one.\<close>

definition coerce :: "sql_val \<Rightarrow> sql_val \<Rightarrow> sql_val \<times> sql_val" where
  "coerce l r =
     (case (l, r) of
        (VStr s, _) \<Rightarrow> if is_number r then (case py_float s of Inr f \<Rightarrow> (VFloat f, r) | Inl _ \<Rightarrow> (l, r)) else (l, r)
      | (_, VStr s) \<Rightarrow> if is_number l then (case py_float s of Inr f \<Rightarrow> (l, VFloat f) | Inl _ \<Rightarrow> (l, r)) else (l, r)
      | _ \<Rightarrow> (l, r))"

definition compare_vals :: "bin_op \<Rightarrow> sql_val \<Rightarrow> sql_val \<Rightarrow> sql_val result" where
  "compare_vals b l r =
     (let cmp = (\<lambda>num st. bindE (val_cmp num st l r) (\<lambda>x. Inr (VBool x))) in
      case b of
        OpEq \<Rightarrow> Inr (VBool (val_eq l r))
      | OpNeq \<Rightarrow> Inr (VBool (\<not> val_eq l r))
      | OpLt \<Rightarrow> cmp float_lt (<)
      | OpLte \<Rightarrow> cmp float_le (\<le>)
      | OpGt \<Rightarrow> cmp (\<lambda>a b. float_lt b a) (>)
      | OpGte \<Rightarrow> cmp (\<lambda>a b. float_le b a) (\<ge>)
      | _ \<Rightarrow> Inr VNull)"

fun eval_expr :: "expr \<Rightarrow> row \<Rightarrow> sql_val result" where
  "eval_expr (Literal v) row = Inr v"
| "eval_expr (ColumnRef c) row = Inr (row_get row c)"
| "eval_expr (UnaryNot e) row = bindE (eval_expr e row) (\<lambda>v. Inr (VBool (\<not> truthy v)))"
| "eval_expr (BinaryExpr b e1 e2) row =
     (if b = OpAnd then
        bindE (eval_expr e1 row) (\<lambda>l.
        if truthy l then bindE (eval_expr e2 row) (\<lambda>r. Inr (VBool (truthy r))) else Inr (VBool False))
      else if b = OpOr then
        bindE (eval_expr e1 row) (\<lambda>l.
        if truthy l then Inr (VBool True) else bindE (eval_expr e2 row) (\<lambda>r. Inr (VBool (truthy r))))
      else
        bindE (eval_expr e1 row) (\<lambda>l.
        bindE (eval_expr e2 row) (\<lambda>r.
        case coerce l r of (l', r') \<Rightarrow> compare_vals b l' r')))"

fun scan_rows :: "expr option \<Rightarrow> row list \<Rightarrow> row list result" where
  "scan_rows wh [] = Inr []"
| "scan_rows wh (row # rows) =
     bindE (case wh of None \<Rightarrow> Inr True | Some e \<Rightarrow> bindE (eval_expr e row) (\<lambda>v. Inr (truthy v))) (\<lambda>keep.
     bindE (scan_rows wh rows) (\<lambda>rest. Inr (if keep then row # rest else rest)))"

section \<open>The database\<close>

type_synonym sql_db = "(pystr, table) dict"

datatype sql_result =
    Created | Dropped | Inserted sql_val | Rows "row list" | Updated nat | Deleted nat

definition get_table :: "sql_db \<Rightarrow> pystr \<Rightarrow> table result" where
  "get_table db name = (case dict_get db name of None \<Rightarrow> Inl ValueError | Some t \<Rightarrow> Inr t)"

definition exec_create :: "sql_db \<Rightarrow> pystr \<Rightarrow> (pystr \<times> pystr) list \<Rightarrow> sql_db \<times> sql_result result" where
  "exec_create db name cols =
     (if dict_get db name \<noteq> None then (db, Inl ValueError)
      else (dict_set name (table_new name cols) db, Inr Created))"

definition exec_drop :: "sql_db \<Rightarrow> pystr \<Rightarrow> sql_db \<times> sql_result result" where
  "exec_drop db name = (if dict_get db name = None then (db, Inl ValueError) else (dict_del name db, Inr Dropped))"

definition exec_insert :: "sql_db \<Rightarrow> pystr \<Rightarrow> pystr list \<Rightarrow> sql_val list \<Rightarrow> sql_db \<times> sql_result result" where
  "exec_insert db name cols vals =
     (case get_table db name of
        Inl e \<Rightarrow> (db, Inl e)
      | Inr t \<Rightarrow> (case table_insert t cols vals of (t', r) \<Rightarrow> (dict_set name t' db, bindE r (\<lambda>rowid. Inr (Inserted rowid)))))"

text \<open>
  \<open>rows.sort(key=(is None, value), reverse=desc)\<close>. The keys are tuples, so a missing value is only
  compared by the first component. Two values that are neither both numbers nor both strings cannot be
  ordered, and any sort meets such a pair if there is one.
\<close>

definition key_less :: "sql_val \<Rightarrow> sql_val \<Rightarrow> bool" where
  "key_less a b =
     (case (a, b) of
        (VNull, _) \<Rightarrow> False
      | (_, VNull) \<Rightarrow> True
      | (VStr s, VStr t) \<Rightarrow> s < t
      | _ \<Rightarrow> float_lt (num_of a) (num_of b))"

definition sortable :: "sql_val list \<Rightarrow> bool" where
  "sortable vs \<longleftrightarrow> list_all (\<lambda>v. v = VNull \<or> is_number v) vs \<or> list_all (\<lambda>v. v = VNull \<or> \<not> is_number v) vs"

fun insert_by :: "('a \<Rightarrow> 'a \<Rightarrow> bool) \<Rightarrow> 'a \<Rightarrow> 'a list \<Rightarrow> 'a list" where
  "insert_by lt x [] = [x]"
| "insert_by lt x (y # ys) = (if lt x y then x # y # ys else y # insert_by lt x ys)"

definition stable_sort :: "('a \<Rightarrow> 'a \<Rightarrow> bool) \<Rightarrow> 'a list \<Rightarrow> 'a list" where
  "stable_sort lt xs = fold (insert_by lt) xs []"

definition order_rows :: "pystr option \<Rightarrow> bool \<Rightarrow> row list \<Rightarrow> row list result" where
  "order_rows ob desc rows =
     (case ob of
        None \<Rightarrow> Inr rows
      | Some col \<Rightarrow>
          if sortable (map (\<lambda>r. row_get r col) rows) \<or> length rows < 2
          then Inr (stable_sort (\<lambda>r q. if desc then key_less (row_get q col) (row_get r col)
                                       else key_less (row_get r col) (row_get q col)) rows)
          else Inl TypeErr)"

definition limit_rows :: "int option \<Rightarrow> 'a list \<Rightarrow> 'a list" where
  "limit_rows bound rows =
     (case bound of
        None \<Rightarrow> rows
      | Some n \<Rightarrow> if n < 0 then take (nat (int (length rows) + n)) rows else take (nat n) rows)"

definition project_row :: "pystr list \<Rightarrow> row \<Rightarrow> row" where
  "project_row cols row =
     (if cols = [str ''*''] then filter (\<lambda>(k, v). take 1 k \<noteq> [95]) row
      else fold (\<lambda>c d. dict_set c (row_get row c) d) cols [])"

definition exec_select :: "sql_db \<Rightarrow> select_stmt \<Rightarrow> sql_result result" where
  "exec_select db s =
     bindE (get_table db (se_table s)) (\<lambda>t.
     bindE (scan_rows (se_where s) (tb_rows t)) (\<lambda>rows.
     bindE (order_rows (se_order_by s) (se_order_desc s) rows) (\<lambda>rows.
     Inr (Rows (map (project_row (se_columns s)) (limit_rows (se_limit s) rows))))))"

text \<open>Rows are updated in place: those before a row whose condition raises stay updated.\<close>

fun update_rows :: "(pystr, sql_val) dict \<Rightarrow> expr option \<Rightarrow> row list \<Rightarrow> row list \<times> nat result" where
  "update_rows asg wh [] = ([], Inr 0)"
| "update_rows asg wh (row # rows) =
     (case (case wh of None \<Rightarrow> Inr True | Some e \<Rightarrow> bindE (eval_expr e row) (\<lambda>v. Inr (truthy v))) of
        Inl e \<Rightarrow> (row # rows, Inl e)
      | Inr hit \<Rightarrow>
          (case update_rows asg wh rows of (rows', r) \<Rightarrow>
             ((if hit then fold (\<lambda>(col, v) d. dict_set col v d) asg row else row) # rows',
              bindE r (\<lambda>n. Inr (if hit then Suc n else n)))))"

definition exec_update :: "sql_db \<Rightarrow> pystr \<Rightarrow> (pystr, sql_val) dict \<Rightarrow> expr option \<Rightarrow> sql_db \<times> sql_result result" where
  "exec_update db name asg wh =
     (case get_table db name of
        Inl e \<Rightarrow> (db, Inl e)
      | Inr t \<Rightarrow> (case update_rows asg wh (tb_rows t) of (rows, r) \<Rightarrow>
          (dict_set name (t\<lparr>tb_rows := rows\<rparr>) db, bindE r (\<lambda>n. Inr (Updated n)))))"

fun remaining_rows :: "expr \<Rightarrow> row list \<Rightarrow> row list result" where
  "remaining_rows e [] = Inr []"
| "remaining_rows e (row # rows) =
     bindE (eval_expr e row) (\<lambda>v.
     bindE (remaining_rows e rows) (\<lambda>rest. Inr (if \<not> truthy v then row # rest else rest)))"

definition exec_delete :: "sql_db \<Rightarrow> pystr \<Rightarrow> expr option \<Rightarrow> sql_db \<times> sql_result result" where
  "exec_delete db name wh =
     (case get_table db name of
        Inl e \<Rightarrow> (db, Inl e)
      | Inr t \<Rightarrow>
          (case (case wh of None \<Rightarrow> Inr [] | Some e \<Rightarrow> remaining_rows e (tb_rows t)) of
             Inl e \<Rightarrow> (db, Inl e)
           | Inr rows \<Rightarrow>
               (dict_set name (t\<lparr>tb_rows := rows\<rparr>) db, Inr (Deleted (length (tb_rows t) - length rows)))))"

definition execute_ast :: "sql_db \<Rightarrow> stmt \<Rightarrow> sql_db \<times> sql_result result" where
  "execute_ast db st =
     (case st of
        CreateTable name cols \<Rightarrow> exec_create db name cols
      | DropTable name \<Rightarrow> exec_drop db name
      | Insert name cols vals \<Rightarrow> exec_insert db name cols vals
      | Select s \<Rightarrow> (db, exec_select db s)
      | Update name asg wh \<Rightarrow> exec_update db name asg wh
      | Delete name wh \<Rightarrow> exec_delete db name wh)"

definition sql_execute :: "unidata \<Rightarrow> sql_db \<Rightarrow> pystr \<Rightarrow> sql_db \<times> sql_result result" where
  "sql_execute uc db sql =
     (case parse_sql uc sql of Inl e \<Rightarrow> (db, Inl e) | Inr st \<Rightarrow> execute_ast db st)"

definition show_tables :: "sql_db \<Rightarrow> pystr list" where
  "show_tables db = dict_keys db"

end
