(* ===== verification/Sql_Parse.thy ===== *)
theory Sql_Parse
  imports Sql
begin

text \<open>
  The parser of \<open>sql_parser.py\<close>: every method consumes a token, so the bound on its depth is never met
  and raising it changes nothing; \<open>parse_sql\<close> returns a statement or one of the source's errors.
\<close>

lemma parse_0 [simp]:
  "parse_or 0 ts = Inl RecursionErr" "or_loop 0 l ts = Inl RecursionErr" "parse_and 0 ts = Inl RecursionErr"
  "and_loop 0 l ts = Inl RecursionErr" "parse_not 0 ts = Inl RecursionErr" "parse_compare 0 ts = Inl RecursionErr"
  "parse_term 0 ts = Inl RecursionErr"
  by (simp_all add: parse_or.simps or_loop.simps parse_and.simps and_loop.simps parse_not.simps parse_compare.simps parse_term.simps)

lemma peek_Cons [simp]: "peek (t # ts) = Inr t" "peek [] = Inl IndexError"
  by (simp_all add: peek_def)

lemma peek_Inr [simp]: "peek ts = Inr t \<longleftrightarrow> (\<exists>r. ts = t # r)"
  by (cases ts) auto

lemmas parse_Suc =
  parse_or.simps [of "Suc n" for n, simplified] or_loop.simps [of "Suc n" for n, simplified]
  parse_and.simps [of "Suc n" for n, simplified] and_loop.simps [of "Suc n" for n, simplified]
  parse_not.simps [of "Suc n" for n, simplified] parse_compare.simps [of "Suc n" for n, simplified]
  parse_term.simps [of "Suc n" for n, simplified]

definition consuming :: "'a parser \<Rightarrow> bool" where
  "consuming p \<longleftrightarrow> (\<forall>ts x r. p ts = Inr (x, r) \<longrightarrow> length r < length ts)"

lemma consumingD: "consuming p \<Longrightarrow> p ts = Inr (x, r) \<Longrightarrow> length r < length ts"
  by (auto simp: consuming_def)

lemma consume_Inr: "consume k ts = Inr (t, r) \<longleftrightarrow> ts = t # r \<and> tk_type t = k"
  by (auto simp: consume_def split: list.splits)

text \<open>Every method consumes a token; the loops consume none or more.\<close>

lemma parse_consumes:
  "consuming (parse_or n) \<and> (\<forall>l ts x r. or_loop n l ts = Inr (x, r) \<longrightarrow> length r \<le> length ts) \<and>
   consuming (parse_and n) \<and> (\<forall>l ts x r. and_loop n l ts = Inr (x, r) \<longrightarrow> length r \<le> length ts) \<and>
   consuming (parse_not n) \<and> consuming (parse_compare n) \<and> consuming (parse_term n)"
proof (induction n)
  case (Suc n)
  have ih: "parse_or n ts = Inr (x, r) \<Longrightarrow> length r < length ts" "or_loop n l ts = Inr (x, r) \<Longrightarrow> length r \<le> length ts"
    "parse_and n ts = Inr (x, r) \<Longrightarrow> length r < length ts" "and_loop n l ts = Inr (x, r) \<Longrightarrow> length r \<le> length ts"
    "parse_not n ts = Inr (x, r) \<Longrightarrow> length r < length ts" "parse_compare n ts = Inr (x, r) \<Longrightarrow> length r < length ts"
    "parse_term n ts = Inr (x, r) \<Longrightarrow> length r < length ts" for ts x r l
    using Suc by (auto simp: consuming_def)
  have "parse_or (Suc n) ts = Inr (x, r) \<Longrightarrow> length r < length ts" for ts x r
    by (auto simp: parse_Suc dest!: ih)
  moreover have "or_loop (Suc n) l ts = Inr (x, r) \<Longrightarrow> length r \<le> length ts" for l ts x r
    by (auto simp: parse_Suc dest!: ih split: if_splits)
  moreover have "parse_and (Suc n) ts = Inr (x, r) \<Longrightarrow> length r < length ts" for ts x r
    by (auto simp: parse_Suc dest!: ih)
  moreover have "and_loop (Suc n) l ts = Inr (x, r) \<Longrightarrow> length r \<le> length ts" for l ts x r
    by (auto simp: parse_Suc dest!: ih split: if_splits)
  moreover have "parse_not (Suc n) ts = Inr (x, r) \<Longrightarrow> length r < length ts" for ts x r
    by (auto simp: parse_Suc dest!: ih split: if_splits)
  moreover have "parse_compare (Suc n) ts = Inr (x, r) \<Longrightarrow> length r < length ts" for ts x r
    by (auto simp: parse_Suc dest!: ih split: option.splits)
  moreover have "parse_term (Suc n) ts = Inr (x, r) \<Longrightarrow> length r < length ts" for ts x r
    by (auto simp: parse_Suc consume_Inr dest!: ih split: if_splits)
  ultimately show ?case unfolding consuming_def by blast
qed (simp add: consuming_def)


lemma bindE_eq_Inl: "bindE a f = Inl e \<longleftrightarrow> a = Inl e \<or> (\<exists>x. a = Inr x \<and> f x = Inl e)"
  by (cases a) auto

lemma peek_Inl: "peek ts = Inl e \<longleftrightarrow> ts = [] \<and> e = IndexError"
  by (cases ts) auto

lemma consume_Inl: "consume k ts = Inl e \<Longrightarrow> e = IndexError \<or> e = SyntaxErr"
  by (auto simp: consume_def split: list.splits if_splits)

text \<open>The bound of the depth that is enough for a number of tokens.\<close>

lemma parse_enough:
  "(parse_or n ts = Inl RecursionErr \<longrightarrow> n < 7 * length ts + 5) \<and> (or_loop n l ts = Inl RecursionErr \<longrightarrow> n < 7 * length ts + 1) \<and>
   (parse_and n ts = Inl RecursionErr \<longrightarrow> n < 7 * length ts + 4) \<and> (and_loop n l ts = Inl RecursionErr \<longrightarrow> n < 7 * length ts + 1) \<and>
   (parse_not n ts = Inl RecursionErr \<longrightarrow> n < 7 * length ts + 3) \<and> (parse_compare n ts = Inl RecursionErr \<longrightarrow> n < 7 * length ts + 2) \<and>
   (parse_term n ts = Inl RecursionErr \<longrightarrow> n < 7 * length ts + 1)"
proof (induction n arbitrary: ts l)
  case (Suc n)
  have ih: "parse_or n ts = Inl RecursionErr \<Longrightarrow> n < 7 * length ts + 5" "or_loop n l ts = Inl RecursionErr \<Longrightarrow> n < 7 * length ts + 1"
    "parse_and n ts = Inl RecursionErr \<Longrightarrow> n < 7 * length ts + 4" "and_loop n l ts = Inl RecursionErr \<Longrightarrow> n < 7 * length ts + 1"
    "parse_not n ts = Inl RecursionErr \<Longrightarrow> n < 7 * length ts + 3" "parse_compare n ts = Inl RecursionErr \<Longrightarrow> n < 7 * length ts + 2"
    "parse_term n ts = Inl RecursionErr \<Longrightarrow> n < 7 * length ts + 1" for ts l
    using Suc by blast+
  have pc: "parse_or n ts = Inr (x, r) \<Longrightarrow> length r < length ts" "parse_and n ts = Inr (x, r) \<Longrightarrow> length r < length ts"
    "parse_not n ts = Inr (x, r) \<Longrightarrow> length r < length ts" "parse_term n ts = Inr (x, r) \<Longrightarrow> length r < length ts" for ts x r
    using parse_consumes [of n] by (auto simp: consuming_def)
  have "parse_or (Suc n) ts = Inl RecursionErr \<Longrightarrow> Suc n < 7 * length ts + 5"
    by (auto simp: parse_Suc bindE_eq_Inl dest!: ih pc)
  moreover have "or_loop (Suc n) l ts = Inl RecursionErr \<Longrightarrow> Suc n < 7 * length ts + 1"
    by (auto simp: parse_Suc bindE_eq_Inl peek_Inl dest!: ih pc split: if_splits)
  moreover have "parse_and (Suc n) ts = Inl RecursionErr \<Longrightarrow> Suc n < 7 * length ts + 4"
    by (auto simp: parse_Suc bindE_eq_Inl dest!: ih pc)
  moreover have "and_loop (Suc n) l ts = Inl RecursionErr \<Longrightarrow> Suc n < 7 * length ts + 1"
    by (auto simp: parse_Suc bindE_eq_Inl peek_Inl dest!: ih pc split: if_splits)
  moreover have "parse_not (Suc n) ts = Inl RecursionErr \<Longrightarrow> Suc n < 7 * length ts + 3"
    by (auto simp: parse_Suc bindE_eq_Inl peek_Inl dest!: ih pc split: if_splits)
  moreover have "parse_compare (Suc n) ts = Inl RecursionErr \<Longrightarrow> Suc n < 7 * length ts + 2"
    by (auto simp: parse_Suc bindE_eq_Inl peek_Inl dest!: ih pc split: option.splits)
  moreover have "parse_term (Suc n) ts = Inl RecursionErr \<Longrightarrow> Suc n < 7 * length ts + 1"
    by (auto simp: parse_Suc bindE_eq_Inl peek_Inl dest!: ih consume_Inl split: if_splits)
  ultimately show ?case by blast
qed simp

text \<open>A bound that is enough can be raised.\<close>

lemma bindE_raise:
  assumes "a \<noteq> Inl e \<Longrightarrow> a' = a" "\<And>x. a = Inr x \<Longrightarrow> f x \<noteq> Inl e \<Longrightarrow> f' x = f x" "bindE a f \<noteq> Inl e"
  shows "bindE a' f' = bindE a f"
  using assms by (cases a) auto

lemma parse_raise:
  "(parse_or n ts \<noteq> Inl RecursionErr \<longrightarrow> parse_or (Suc n) ts = parse_or n ts) \<and>
   (or_loop n l ts \<noteq> Inl RecursionErr \<longrightarrow> or_loop (Suc n) l ts = or_loop n l ts) \<and>
   (parse_and n ts \<noteq> Inl RecursionErr \<longrightarrow> parse_and (Suc n) ts = parse_and n ts) \<and>
   (and_loop n l ts \<noteq> Inl RecursionErr \<longrightarrow> and_loop (Suc n) l ts = and_loop n l ts) \<and>
   (parse_not n ts \<noteq> Inl RecursionErr \<longrightarrow> parse_not (Suc n) ts = parse_not n ts) \<and>
   (parse_compare n ts \<noteq> Inl RecursionErr \<longrightarrow> parse_compare (Suc n) ts = parse_compare n ts) \<and>
   (parse_term n ts \<noteq> Inl RecursionErr \<longrightarrow> parse_term (Suc n) ts = parse_term n ts)"
proof (induction n arbitrary: ts l)
  case (Suc n)
  have ih: "parse_or n ts \<noteq> Inl RecursionErr \<Longrightarrow> parse_or (Suc n) ts = parse_or n ts"
   "or_loop n l ts \<noteq> Inl RecursionErr \<Longrightarrow> or_loop (Suc n) l ts = or_loop n l ts"
   "parse_and n ts \<noteq> Inl RecursionErr \<Longrightarrow> parse_and (Suc n) ts = parse_and n ts"
   "and_loop n l ts \<noteq> Inl RecursionErr \<Longrightarrow> and_loop (Suc n) l ts = and_loop n l ts"
   "parse_not n ts \<noteq> Inl RecursionErr \<Longrightarrow> parse_not (Suc n) ts = parse_not n ts"
   "parse_compare n ts \<noteq> Inl RecursionErr \<Longrightarrow> parse_compare (Suc n) ts = parse_compare n ts"
   "parse_term n ts \<noteq> Inl RecursionErr \<Longrightarrow> parse_term (Suc n) ts = parse_term n ts" for ts l
    using Suc by blast+
  note S = parse_Suc [of n] parse_Suc [of "Suc n"]
  have "parse_or (Suc n) ts \<noteq> Inl RecursionErr \<Longrightarrow> parse_or (Suc (Suc n)) ts = parse_or (Suc n) ts"
    unfolding S(1,8) by (erule bindE_raise [rotated 2]) (auto intro: ih)
  moreover have "or_loop (Suc n) l ts \<noteq> Inl RecursionErr \<Longrightarrow> or_loop (Suc (Suc n)) l ts = or_loop (Suc n) l ts"
    unfolding S(2,9) by (erule bindE_raise [rotated 2]) (auto intro!: bindE_raise [where e = RecursionErr] intro: ih)
  moreover have "parse_and (Suc n) ts \<noteq> Inl RecursionErr \<Longrightarrow> parse_and (Suc (Suc n)) ts = parse_and (Suc n) ts"
    unfolding S(3,10) by (erule bindE_raise [rotated 2]) (auto intro: ih)
  moreover have "and_loop (Suc n) l ts \<noteq> Inl RecursionErr \<Longrightarrow> and_loop (Suc (Suc n)) l ts = and_loop (Suc n) l ts"
    unfolding S(4,11) by (erule bindE_raise [rotated 2]) (auto intro!: bindE_raise [where e = RecursionErr] intro: ih)
  moreover have "parse_not (Suc n) ts \<noteq> Inl RecursionErr \<Longrightarrow> parse_not (Suc (Suc n)) ts = parse_not (Suc n) ts"
    unfolding S(5,12) by (erule bindE_raise [rotated 2]) (auto intro!: bindE_raise [where e = RecursionErr] intro: ih)
  moreover have "parse_compare (Suc n) ts \<noteq> Inl RecursionErr \<Longrightarrow> parse_compare (Suc (Suc n)) ts = parse_compare (Suc n) ts"
    unfolding S(6,13)
    by (erule bindE_raise [rotated 2]) (auto intro!: bindE_raise [where e = RecursionErr] intro: ih split: option.splits)
  moreover have "parse_term (Suc n) ts \<noteq> Inl RecursionErr \<Longrightarrow> parse_term (Suc (Suc n)) ts = parse_term (Suc n) ts"
    unfolding S(7,14) by (erule bindE_raise [rotated 2]) (auto intro!: bindE_raise [where e = RecursionErr] intro: ih)
  ultimately show ?case by blast
qed simp

lemma raise_le:
  assumes "\<And>n. f n \<noteq> Inl RecursionErr \<Longrightarrow> f (Suc n) = f n" "f n = Inr x" "n \<le> m"
  shows "f m = Inr x"
  using assms(3) by (induction m rule: dec_induct) (use assms(1,2) in auto)

lemma parse_mono:
  "parse_or n ts = Inr x \<Longrightarrow> n \<le> m \<Longrightarrow> parse_or m ts = Inr x" "or_loop n l ts = Inr x \<Longrightarrow> n \<le> m \<Longrightarrow> or_loop m l ts = Inr x"
  "parse_and n ts = Inr x \<Longrightarrow> n \<le> m \<Longrightarrow> parse_and m ts = Inr x" "and_loop n l ts = Inr x \<Longrightarrow> n \<le> m \<Longrightarrow> and_loop m l ts = Inr x"
  "parse_not n ts = Inr x \<Longrightarrow> n \<le> m \<Longrightarrow> parse_not m ts = Inr x" "parse_compare n ts = Inr x \<Longrightarrow> n \<le> m \<Longrightarrow> parse_compare m ts = Inr x"
  "parse_term n ts = Inr x \<Longrightarrow> n \<le> m \<Longrightarrow> parse_term m ts = Inr x"
  by (rule raise_le [of "\<lambda>n. parse_or n ts"], use parse_raise [of _ ts l] in blast, assumption+,
      rule raise_le [of "\<lambda>n. or_loop n l ts"], use parse_raise [of _ ts l] in blast, assumption+,
      rule raise_le [of "\<lambda>n. parse_and n ts"], use parse_raise [of _ ts l] in blast, assumption+,
      rule raise_le [of "\<lambda>n. and_loop n l ts"], use parse_raise [of _ ts l] in blast, assumption+,
      rule raise_le [of "\<lambda>n. parse_not n ts"], use parse_raise [of _ ts l] in blast, assumption+,
      rule raise_le [of "\<lambda>n. parse_compare n ts"], use parse_raise [of _ ts l] in blast, assumption+,
      rule raise_le [of "\<lambda>n. parse_term n ts"], use parse_raise [of _ ts l] in blast, assumption+)

lemma parse_expr_any:
  assumes "parse_or n ts = Inr x"
  shows "parse_expr ts = Inr x"
proof -
  let ?b = "7 * length ts + 7"
  have "parse_or ?b ts \<noteq> Inl RecursionErr" using parse_enough [of ?b ts] by auto
  show ?thesis
  proof (cases "parse_or ?b ts")
    case (Inr y)
    then have "parse_or (max n ?b) ts = Inr y" "parse_or (max n ?b) ts = Inr x" using assms by (auto elim: parse_mono)
    then show ?thesis using Inr by (simp add: parse_expr_def)
  next
    case (Inl e)
    have "parse_or (?b + k) ts = Inl e" for k
    proof (induction k)
      case (Suc k)
      then show ?case using parse_raise [of "?b + k" ts] \<open>parse_or ?b ts \<noteq> Inl RecursionErr\<close> Inl by simp
    qed (use Inl in simp)
    from this [of n] parse_mono(1) [OF assms, of "?b + n"] show ?thesis by simp
  qed
qed

named_theorems total_intro \<open>parsers that never run out of their bound\<close>

lemma bindE_total [total_intro]:
  "a \<noteq> Inl RecursionErr \<Longrightarrow> (\<And>x. f x \<noteq> Inl RecursionErr) \<Longrightarrow> bindE a f \<noteq> Inl RecursionErr"
  by (cases a) auto

lemma case_prod_total [total_intro]:
  "(\<And>x y. (x, y) = p \<Longrightarrow> f x y \<noteq> Inl RecursionErr) \<Longrightarrow> case_prod f p \<noteq> Inl RecursionErr"
  by (cases p) auto

lemma case_prod_total2 [total_intro]: "(\<And>x y. f x y r \<noteq> Inl RecursionErr) \<Longrightarrow> (case p of (x, y) \<Rightarrow> f x y) r \<noteq> Inl RecursionErr"
  by (cases p) auto

lemma case_option_total:
  "a \<noteq> Inl RecursionErr \<Longrightarrow> (\<And>x. p = Some x \<Longrightarrow> f x \<noteq> Inl RecursionErr) \<Longrightarrow> case_option a f p \<noteq> Inl RecursionErr"
  by (cases p) auto

lemma if_total [total_intro]:
  "(c \<Longrightarrow> a \<noteq> Inl RecursionErr) \<Longrightarrow> (\<not> c \<Longrightarrow> b \<noteq> Inl RecursionErr) \<Longrightarrow> (if c then a else b) \<noteq> Inl RecursionErr"
  by simp

lemma step_total [total_intro]: "peek ts \<noteq> Inl RecursionErr" "consume k ts \<noteq> Inl RecursionErr" "Inr x \<noteq> Inl RecursionErr"
  by (auto simp: peek_def consume_def split: list.splits)

lemma consume_name_total [total_intro]: "consume_name ts \<noteq> Inl RecursionErr"
  unfolding consume_name_def by (intro total_intro)

lemma literal_total [total_intro]: "parse_literal_value uc ts \<noteq> Inl RecursionErr"
  unfolding parse_literal_value_def Let_def by (intro total_intro) simp

lemma parse_assignment_total: "parse_assignment uc ts \<noteq> Inl RecursionErr"
  unfolding parse_assignment_def by (intro total_intro)

lemma parse_col_def_total: "parse_col_def uc ts \<noteq> Inl RecursionErr"
  unfolding parse_col_def_def by (intro total_intro) (simp split: sql_val.splits)

lemma parse_expr_total [total_intro]: "parse_expr ts \<noteq> Inl RecursionErr"
  using parse_enough [of "7 * length ts + 7" ts] by (auto simp: parse_expr_def)

lemma item_consumes: "consuming consume_name" "consuming (parse_literal_value uc)"
proof -
  show "consuming consume_name" by (auto simp: consuming_def consume_name_def consume_Inr)
  have "length r < length ts" if "parse_literal_value uc ts = Inr (x, r)" for ts x r
    using that by (cases ts) (simp_all add: parse_literal_value_def Let_def split: if_split_asm)
  then show "consuming (parse_literal_value uc)" by (simp add: consuming_def)
qed

lemma item_consumes2: "consuming (parse_assignment uc)" "consuming (parse_col_def uc)"
  by (auto simp: consuming_def parse_assignment_def parse_col_def_def consume_Inr split: sql_val.split_asm
      dest!: item_consumes [THEN consumingD])

lemma comma_loop_total:
  assumes "consuming item" "\<And>ts. item ts \<noteq> Inl RecursionErr"
  shows "length ts \<le> n \<Longrightarrow> comma_loop n item out ts \<noteq> Inl RecursionErr"
proof (induction n arbitrary: out ts)
  case (Suc n)
  then show ?case using assms(2) [of "tl ts"]
    by (cases ts) (auto simp: comma_loop.simps [of "Suc n"] bindE_eq_Inl dest: consumingD [OF assms(1)] split: if_splits)
qed (simp add: comma_loop.simps)

lemma comma_list_total:
  assumes "consuming item" "\<And>ts. item ts \<noteq> Inl RecursionErr"
  shows "comma_list item ts \<noteq> Inl RecursionErr"
proof (cases "item ts")
  case (Inr y)
  then show ?thesis using comma_loop_total [OF assms, of "snd y" "length ts"] consumingD [OF assms(1), of ts "fst y" "snd y"]
    by (simp add: comma_list_def case_prod_beta)
qed (use assms(2) [of ts] in \<open>simp add: comma_list_def\<close>)

lemmas comma_lists_total [total_intro] =
  comma_list_total [OF item_consumes(1) consume_name_total] comma_list_total [OF item_consumes(2) literal_total]
  comma_list_total [OF item_consumes2(1) parse_assignment_total] comma_list_total [OF item_consumes2(2) parse_col_def_total]

lemma clause_total [total_intro]: "parse_where ts \<noteq> Inl RecursionErr" "parse_order ts \<noteq> Inl RecursionErr"
  "parse_limit ts \<noteq> Inl RecursionErr" "parse_column_list ts \<noteq> Inl RecursionErr"
proof -
  have [total_intro]: "int_of_number v \<noteq> Inl RecursionErr" for v
    by (simp add: int_of_number_def split: sql_val.split pyfloat.split)
  show "parse_where ts \<noteq> Inl RecursionErr" "parse_order ts \<noteq> Inl RecursionErr"
    "parse_limit ts \<noteq> Inl RecursionErr" "parse_column_list ts \<noteq> Inl RecursionErr"
    unfolding parse_where_def parse_order_def parse_limit_def parse_column_list_def by (intro total_intro)+
qed

lemma parse_stmt_total: "parse_stmt uc ts \<noteq> Inl RecursionErr"
  unfolding parse_stmt_def parse_select_def parse_insert_def parse_update_def parse_delete_def parse_create_def parse_drop_def
  by (intro total_intro) simp_all

lemma parse_tokens_total: "parse_tokens uc ts \<noteq> Inl RecursionErr"
  unfolding parse_tokens_def by (intro total_intro parse_stmt_total)

lemma number_value_total: "number_value uc raw \<noteq> Inl RecursionErr"
proof -
  have "ascii_digits uc s \<noteq> Inl RecursionErr" for s
    by (induction s) (auto simp: bindE_eq_Inl split: option.splits if_splits)
  moreover have "py_int s \<noteq> Inl RecursionErr" "py_float s \<noteq> Inl RecursionErr" for s
    by (simp_all add: py_int_def py_float_def Let_def case_prod_beta)
  ultimately show ?thesis by (auto simp: number_value_def bindE_eq_Inl split: if_splits)
qed

lemma tokenize_from_total: "tokenize_from uc i s \<noteq> Inl RecursionErr"
proof (induction uc i s rule: tokenize_from.induct)
  case (1 uc i s)
  show ?case
    unfolding tokenize_from.simps [of uc i s] Let_def
    by (intro if_total bindE_total case_prod_total case_option_total number_value_total)
      ((rule 1(1) [OF _ refl] 1(2) [OF _ refl _ _ refl] 1(3) [OF _ refl] 1(4) [OF _ refl _ _ _ _ refl refl refl]
          1(5) [OF _ refl _ _ _ _ _ refl refl] 1(6) [OF _ refl], assumption+)
       | simp)+
qed

text \<open>
  (C23) \<open>parse(sql)\<close> returns on every text: the tokenizer is total and the bounds of the model (seven calls
  per token for expressions, one turn per token for comma lists) are never reached.
\<close>

theorem parse_terminates: "parse_sql uc sql \<noteq> Inl RecursionErr"
  unfolding parse_sql_def tokenize_def by (intro bindE_total tokenize_from_total parse_tokens_total)

end
