(* ===== verification/Sql_Print.thy ===== *)
theory Sql_Print
  imports Sql_Parse
begin

text \<open>
  A printer for the statements of \<open>sql_parser.py\<close>, with only the parentheses the grammar needs, and
  the round trip: what it prints, \<open>parse_tokens\<close> reads back.
\<close>

section \<open>Printing expressions\<close>

definition prec :: "expr \<Rightarrow> nat" where
  "prec e = (case e of BinaryExpr b _ _ \<Rightarrow> if b = OpOr then 0 else if b = OpAnd then 1 else 3 | UnaryNot _ \<Rightarrow> 2 | _ \<Rightarrow> 4)"

definition tok :: "tok_type \<Rightarrow> sql_val \<Rightarrow> token" where
  "tok k v = \<lparr>tk_type = k, tk_value = v, tk_pos = 0\<rparr>"

definition wrap :: "nat \<Rightarrow> expr \<Rightarrow> token list \<Rightarrow> token list" where
  "wrap level e ts =
     (if level \<le> prec e then ts else tok LPAREN (VStr (str ''('')) # ts @ [tok RPAREN (VStr (str '')''))])"

definition op_token :: "bin_op \<Rightarrow> token" where
  "op_token b =
     (case b of OpEq \<Rightarrow> tok EQ (VStr (str ''='')) | OpNeq \<Rightarrow> tok NEQ (VStr (str ''!='')) | OpLt \<Rightarrow> tok LT (VStr (str ''<''))
      | OpLte \<Rightarrow> tok LTE (VStr (str ''<='')) | OpGt \<Rightarrow> tok GT (VStr (str ''>'')) | OpGte \<Rightarrow> tok GTE (VStr (str ''>=''))
      | OpAnd \<Rightarrow> tok (kw ''AND'') (VStr (str ''AND'')) | OpOr \<Rightarrow> tok (kw ''OR'') (VStr (str ''OR'')))"

fun print_expr :: "expr \<Rightarrow> token list" where
  "print_expr (BinaryExpr b l r) =
     wrap (if b = OpOr then 0 else if b = OpAnd then 1 else 4) l (print_expr l) @ op_token b #
     wrap (if b = OpOr then 1 else if b = OpAnd then 2 else 4) r (print_expr r)"
| "print_expr (UnaryNot e) = tok (kw ''NOT'') (VStr (str ''NOT'')) # wrap 2 e (print_expr e)"
| "print_expr (ColumnRef c) = [tok IDENT (VStr c)]"
| "print_expr (Literal v) = [tok (case v of VStr _ \<Rightarrow> STRING | _ \<Rightarrow> NUMBER) v]"

lemma tk_tok [simp]: "tk_type (tok k v) = k" "tk_value (tok k v) = v"
  by (simp_all add: tok_def)

text \<open>What may follow an operand of each level: the methods stop at such a token.\<close>

definition follows :: "nat \<Rightarrow> token list \<Rightarrow> bool" where
  "follows level ts \<longleftrightarrow> ts \<noteq> [] \<and> op_of (tk_type (hd ts)) = None \<and>
     (level \<le> 1 \<longrightarrow> tk_type (hd ts) \<noteq> kw ''AND'') \<and> (level = 0 \<longrightarrow> tk_type (hd ts) \<noteq> kw ''OR'')"

definition reads_term :: "expr \<Rightarrow> bool" where
  "reads_term e \<longleftrightarrow> (\<forall>rest. \<exists>n. parse_term n (wrap 4 e (print_expr e) @ rest) = Inr (e, rest))"

definition reads_compare :: "expr \<Rightarrow> bool" where
  "reads_compare e \<longleftrightarrow> (\<forall>rest. follows 2 rest \<longrightarrow> (\<exists>n. parse_compare n (wrap 3 e (print_expr e) @ rest) = Inr (e, rest)))"

definition reads_not :: "expr \<Rightarrow> bool" where
  "reads_not e \<longleftrightarrow> (\<forall>rest. follows 2 rest \<longrightarrow> (\<exists>n. parse_not n (wrap 2 e (print_expr e) @ rest) = Inr (e, rest)))"

definition reads_and :: "expr \<Rightarrow> bool" where
  "reads_and e \<longleftrightarrow> (\<forall>rest k x. follows 2 rest \<and> and_loop k e rest = Inr x \<longrightarrow>
     (\<exists>n. parse_and n (wrap 1 e (print_expr e) @ rest) = Inr x))"

definition reads_or :: "expr \<Rightarrow> bool" where
  "reads_or e \<longleftrightarrow> (\<forall>rest k x. follows 1 rest \<and> or_loop k e rest = Inr x \<longrightarrow>
     (\<exists>n. parse_or n (print_expr e @ rest) = Inr x))"

lemma loop_stops: "follows 1 rest \<Longrightarrow> and_loop (Suc k) e rest = Inr (e, rest)"
  "follows 0 rest \<Longrightarrow> or_loop (Suc k) e rest = Inr (e, rest)"
  by (cases rest; simp add: follows_def parse_Suc)+

lemma follows_mono: "follows i rest \<Longrightarrow> i \<le> j \<Longrightarrow> follows j rest"
  by (auto simp: follows_def)

text \<open>The methods that pass an expression of a higher level on.\<close>

lemma term_compare: "reads_term e \<Longrightarrow> prec e \<noteq> 3 \<Longrightarrow> reads_compare e"
proof (unfold reads_compare_def, intro allI impI)
  fix rest
  assume h: "reads_term e" "prec e \<noteq> 3" "follows 2 rest"
  then obtain n where "parse_term n (wrap 4 e (print_expr e) @ rest) = Inr (e, rest)" by (auto simp: reads_term_def)
  moreover have "wrap 3 e (print_expr e) = wrap 4 e (print_expr e)" using h(2) by (auto simp: wrap_def)
  ultimately have "parse_compare (Suc n) (wrap 3 e (print_expr e) @ rest) = Inr (e, rest)"
    using h(3) by (cases rest) (simp_all add: parse_Suc follows_def)
  then show "\<exists>n. parse_compare n (wrap 3 e (print_expr e) @ rest) = Inr (e, rest)" by blast
qed

lemma prec_values: "prec e \<in> {0, 1, 2, 3, 4}"
  by (simp add: prec_def split: expr.split)

lemma head_operand:
  "2 < level \<Longrightarrow> level \<le> 4 \<Longrightarrow> wrap level e (print_expr e) \<noteq> [] \<and> tk_type (hd (wrap level e (print_expr e))) \<noteq> kw ''NOT''"
proof (induction e arbitrary: level)
  case (BinaryExpr b l r)
  then show ?case using BinaryExpr(1) [of 4] by (auto simp: wrap_def prec_def hd_append)
next
  case (Literal v)
  then show ?case by (auto simp: wrap_def prec_def split: sql_val.splits)
qed (auto simp: wrap_def prec_def)

lemma compare_not: "reads_compare e \<Longrightarrow> prec e \<noteq> 2 \<Longrightarrow> reads_not e"
proof (unfold reads_not_def, intro allI impI)
  fix rest
  assume h: "reads_compare e" "prec e \<noteq> 2" "follows 2 rest"
  then obtain n where n: "parse_compare n (wrap 3 e (print_expr e) @ rest) = Inr (e, rest)" by (auto simp: reads_compare_def)
  have eq: "wrap 2 e (print_expr e) = wrap 3 e (print_expr e)" using h(2) by (auto simp: wrap_def)
  obtain t ts where w: "wrap 3 e (print_expr e) = t # ts" "tk_type t \<noteq> kw ''NOT''"
    using head_operand [of 3 e] by (cases "wrap 3 e (print_expr e)") auto
  then have "parse_not (Suc n) (wrap 2 e (print_expr e) @ rest) = Inr (e, rest)"
    using n by (simp add: eq parse_Suc)
  then show "\<exists>n. parse_not n (wrap 2 e (print_expr e) @ rest) = Inr (e, rest)" by blast
qed

lemma not_and: "reads_not e \<Longrightarrow> prec e \<noteq> 1 \<Longrightarrow> reads_and e"
proof (unfold reads_and_def, intro allI impI, elim conjE)
  fix rest k x
  assume h: "reads_not e" "prec e \<noteq> 1" "follows 2 rest" "and_loop k e rest = Inr x"
  then obtain n where n: "parse_not n (wrap 2 e (print_expr e) @ rest) = Inr (e, rest)" by (auto simp: reads_not_def)
  have "wrap 1 e (print_expr e) = wrap 2 e (print_expr e)" using h(2) by (auto simp: wrap_def)
  then have "parse_and (Suc (max n k)) (wrap 1 e (print_expr e) @ rest) = Inr x"
    using parse_mono(5) [OF n, of "max n k"] parse_mono(4) [OF h(4), of "max n k"] by (simp add: parse_Suc)
  then show "\<exists>n. parse_and n (wrap 1 e (print_expr e) @ rest) = Inr x" by blast
qed

lemma and_or: "reads_and e \<Longrightarrow> prec e \<noteq> 0 \<Longrightarrow> reads_or e"
proof (unfold reads_or_def, intro allI impI, elim conjE)
  fix rest k x
  assume h: "reads_and e" "prec e \<noteq> 0" "follows 1 rest" "or_loop k e rest = Inr x"
  have "follows 2 rest" using h(3) by (rule follows_mono) simp
  then obtain n where n: "parse_and n (wrap 1 e (print_expr e) @ rest) = Inr (e, rest)"
    using h(1) loop_stops(1) [OF h(3), of 0 e] unfolding reads_and_def by blast
  have "wrap 1 e (print_expr e) = print_expr e" using h(2) by (auto simp: wrap_def)
  then have "parse_or (Suc (max n k)) (print_expr e @ rest) = Inr x"
    using parse_mono(3) [OF n, of "max n k"] parse_mono(2) [OF h(4), of "max n k"] by (simp add: parse_Suc)
  then show "\<exists>n. parse_or n (print_expr e @ rest) = Inr x" by blast
qed

lemma or_term: "reads_or e \<Longrightarrow> prec e \<noteq> 4 \<Longrightarrow> reads_term e"
proof (unfold reads_term_def, intro allI)
  fix rest
  assume h: "reads_or e" "prec e \<noteq> 4"
  let ?r = "tok RPAREN (VStr (str '')'')) # rest"
  have f: "follows 0 ?r" by (simp add: follows_def op_of_def)
  then have "follows 1 ?r" by (rule follows_mono) simp
  then obtain n where n: "parse_or n (print_expr e @ ?r) = Inr (e, ?r)"
    using h(1) loop_stops(2) [OF f, of 0 e] unfolding reads_or_def by blast
  then have "parse_term (Suc n) (wrap 4 e (print_expr e) @ rest) = Inr (e, rest)"
    using h(2) prec_values [of e] by (auto simp: wrap_def parse_Suc consume_def)
  then show "\<exists>n. parse_term n (wrap 4 e (print_expr e) @ rest) = Inr (e, rest)" by blast
qed


fun printable :: "expr \<Rightarrow> bool" where
  "printable (BinaryExpr b l r) \<longleftrightarrow> printable l \<and> printable r"
| "printable (UnaryNot e) \<longleftrightarrow> printable e"
| "printable (ColumnRef c) \<longleftrightarrow> True"
| "printable (Literal v) \<longleftrightarrow> (case v of VStr _ \<Rightarrow> True | VInt _ \<Rightarrow> True | VFloat _ \<Rightarrow> True | _ \<Rightarrow> False)"

definition reads :: "expr \<Rightarrow> bool" where
  "reads e \<longleftrightarrow> reads_term e \<and> reads_compare e \<and> reads_not e \<and> reads_and e \<and> reads_or e"

lemma reads_from:
  "prec e = 4 \<Longrightarrow> reads_term e \<Longrightarrow> reads e" "prec e = 3 \<Longrightarrow> reads_compare e \<Longrightarrow> reads e"
  "prec e = 2 \<Longrightarrow> reads_not e \<Longrightarrow> reads e" "prec e = 1 \<Longrightarrow> reads_and e \<Longrightarrow> reads e" "prec e = 0 \<Longrightarrow> reads_or e \<Longrightarrow> reads e"
  by (auto simp: reads_def intro!: term_compare compare_not not_and and_or or_term)

lemma op_of_token: "b \<noteq> OpOr \<Longrightarrow> b \<noteq> OpAnd \<Longrightarrow> op_of (tk_type (op_token b)) = Some b"
  by (cases b) (simp_all add: op_token_def op_of_def)

lemma reads_Or: "reads l \<Longrightarrow> reads r \<Longrightarrow> reads (BinaryExpr OpOr l r)"
proof (rule reads_from(5), simp add: prec_def, unfold reads_or_def, intro allI impI, elim conjE)
  fix rest k x
  assume h: "reads l" "reads r" "follows 1 rest" "or_loop k (BinaryExpr OpOr l r) rest = Inr x"
  let ?r = "op_token OpOr # wrap 1 r (print_expr r) @ rest"
  have "follows 2 rest" using h(3) by (rule follows_mono) simp
  then obtain n where n: "parse_and n (wrap 1 r (print_expr r) @ rest) = Inr (r, rest)"
    using h(2) loop_stops(1) [OF h(3), of 0 r] unfolding reads_def reads_and_def by blast
  have "or_loop (Suc (max n k)) l ?r = Inr x"
    using parse_mono(3) [OF n, of "max n k"] parse_mono(2) [OF h(4), of "max n k"] by (simp add: parse_Suc op_token_def)
  moreover have "follows 1 ?r" by (simp add: follows_def op_token_def op_of_def str_def)
  ultimately have "\<exists>n. parse_or n (print_expr l @ ?r) = Inr x"
    using h(1) unfolding reads_def reads_or_def by blast
  then show "\<exists>n. parse_or n (print_expr (BinaryExpr OpOr l r) @ rest) = Inr x" by (simp add: wrap_def [of 0])
qed

lemma reads_And: "reads l \<Longrightarrow> reads r \<Longrightarrow> reads (BinaryExpr OpAnd l r)"
proof (rule reads_from(4), simp add: prec_def, unfold reads_and_def, intro allI impI, elim conjE)
  fix rest k x
  assume h: "reads l" "reads r" "follows 2 rest" "and_loop k (BinaryExpr OpAnd l r) rest = Inr x"
  let ?r = "op_token OpAnd # wrap 2 r (print_expr r) @ rest"
  obtain n where n: "parse_not n (wrap 2 r (print_expr r) @ rest) = Inr (r, rest)"
    using h(2,3) unfolding reads_def reads_not_def by blast
  have "and_loop (Suc (max n k)) l ?r = Inr x"
    using parse_mono(5) [OF n, of "max n k"] parse_mono(4) [OF h(4), of "max n k"] by (simp add: parse_Suc op_token_def)
  moreover have "follows 2 ?r" by (simp add: follows_def op_token_def op_of_def)
  ultimately have "\<exists>n. parse_and n (wrap 1 l (print_expr l) @ ?r) = Inr x"
    using h(1) unfolding reads_def reads_and_def by blast
  then show "\<exists>n. parse_and n (wrap 1 (BinaryExpr OpAnd l r) (print_expr (BinaryExpr OpAnd l r)) @ rest) = Inr x"
    by (simp add: wrap_def [of _ "BinaryExpr OpAnd l r"] prec_def)
qed

lemma reads_Compare: "reads l \<Longrightarrow> reads r \<Longrightarrow> b \<noteq> OpOr \<Longrightarrow> b \<noteq> OpAnd \<Longrightarrow> reads (BinaryExpr b l r)"
proof (rule reads_from(2), simp add: prec_def, unfold reads_compare_def, intro allI impI)
  fix rest
  assume h: "reads l" "reads r" "b \<noteq> OpOr" "b \<noteq> OpAnd" "follows 2 rest"
  let ?r = "op_token b # wrap 4 r (print_expr r) @ rest"
  obtain n m where "parse_term n (wrap 4 l (print_expr l) @ ?r) = Inr (l, ?r)"
      "parse_term m (wrap 4 r (print_expr r) @ rest) = Inr (r, rest)"
    using h(1,2) unfolding reads_def reads_term_def by blast
  from parse_mono(7) [OF this(1), of "max n m"] parse_mono(7) [OF this(2), of "max n m"]
  have "parse_compare (Suc (max n m)) (wrap 4 l (print_expr l) @ ?r) = Inr (BinaryExpr b l r, rest)"
    by (simp add: parse_Suc op_of_token [OF h(3,4)])
  moreover have "wrap 3 (BinaryExpr b l r) (print_expr (BinaryExpr b l r)) @ rest = wrap 4 l (print_expr l) @ ?r"
    using h(3,4) by (simp add: wrap_def [of 3] prec_def)
  ultimately show "\<exists>n. parse_compare n (wrap 3 (BinaryExpr b l r) (print_expr (BinaryExpr b l r)) @ rest) = Inr (BinaryExpr b l r, rest)"
    by metis
qed

lemma reads_Not: "reads e \<Longrightarrow> reads (UnaryNot e)"
proof (rule reads_from(3), simp add: prec_def, unfold reads_not_def, intro allI impI)
  fix rest
  assume h: "reads e" "follows 2 rest"
  then obtain n where "parse_not n (wrap 2 e (print_expr e) @ rest) = Inr (e, rest)" unfolding reads_def reads_not_def by blast
  then have "parse_not (Suc n) (wrap 2 (UnaryNot e) (print_expr (UnaryNot e)) @ rest) = Inr (UnaryNot e, rest)"
    by (simp add: wrap_def [of _ "UnaryNot e"] prec_def parse_Suc)
  then show "\<exists>n. parse_not n (wrap 2 (UnaryNot e) (print_expr (UnaryNot e)) @ rest) = Inr (UnaryNot e, rest)" by blast
qed

lemma reads_atom: "prec e = 4 \<Longrightarrow> printable e \<Longrightarrow> reads e"
proof (rule reads_from(1), assumption, unfold reads_term_def, intro allI)
  fix rest
  assume "prec e = 4" "printable e"
  then have "parse_term 1 (wrap 4 e (print_expr e) @ rest) = Inr (e, rest)"
    by (cases e) (auto simp: parse_Suc prec_def wrap_def val_name_def split: if_splits sql_val.splits)
  then show "\<exists>n. parse_term n (wrap 4 e (print_expr e) @ rest) = Inr (e, rest)" by blast
qed

lemma reads_all: "printable e \<Longrightarrow> reads e"
proof (induction e)
  case (BinaryExpr b l r)
  then show ?case by (cases "b = OpOr \<or> b = OpAnd") (auto intro: reads_Or reads_And reads_Compare)
qed (auto intro: reads_Not reads_atom simp: prec_def)

theorem parse_print:
  assumes "printable e" "follows 0 rest"
  shows "parse_expr (print_expr e @ rest) = Inr (e, rest)"
proof -
  have "follows 1 rest" using assms(2) by (rule follows_mono) simp
  then obtain n where "parse_or n (print_expr e @ rest) = Inr (e, rest)"
    using reads_all [OF assms(1)] loop_stops(2) [OF assms(2), of 0 e] unfolding reads_def reads_or_def by blast
  then show ?thesis by (rule parse_expr_any)
qed

section \<open>Printing statements\<close>

definition word :: "string \<Rightarrow> token" where
  "word s = tok (kw s) (VStr (str s))"

definition name_tok :: "pystr \<Rightarrow> token" where
  "name_tok s = tok IDENT (VStr s)"

definition punct :: "tok_type \<Rightarrow> string \<Rightarrow> token" where
  "punct k s = tok k (VStr (str s))"

fun print_list :: "('a \<Rightarrow> token list) \<Rightarrow> 'a list \<Rightarrow> token list" where
  "print_list f [] = []"
| "print_list f (x # xs) = f x @ concat (map (\<lambda>y. punct COMMA '','' # f y) xs)"

definition print_value :: "sql_val \<Rightarrow> token list" where
  "print_value v =
     (case v of
        VNull \<Rightarrow> [name_tok (str ''NULL'')]
      | VBool b \<Rightarrow> [name_tok (if b then str ''TRUE'' else str ''FALSE'')]
      | VStr s \<Rightarrow> [tok STRING v]
      | _ \<Rightarrow> [tok NUMBER v])"

definition print_where :: "expr option \<Rightarrow> token list" where
  "print_where wh = (case wh of None \<Rightarrow> [] | Some e \<Rightarrow> word ''WHERE'' # print_expr e)"

definition print_order :: "pystr option \<Rightarrow> bool \<Rightarrow> token list" where
  "print_order ob desc =
     (case ob of None \<Rightarrow> [] | Some c \<Rightarrow> [word ''ORDER'', word ''BY'', name_tok c] @ (if desc then [word ''DESC''] else []))"

definition print_limit :: "int option \<Rightarrow> token list" where
  "print_limit bound = (case bound of None \<Rightarrow> [] | Some i \<Rightarrow> [word ''LIMIT'', tok NUMBER (VInt i)])"

fun print_stmt :: "stmt \<Rightarrow> token list" where
  "print_stmt (CreateTable t cols) =
     [word ''CREATE'', word ''TABLE'', name_tok t, punct LPAREN ''(''] @
     print_list (\<lambda>(c, ty). [name_tok c, name_tok ty]) cols @ [punct RPAREN '')'']"
| "print_stmt (DropTable t) = [word ''DROP'', word ''TABLE'', name_tok t]"
| "print_stmt (Insert t cols vals) =
     [word ''INSERT'', word ''INTO'', name_tok t, punct LPAREN ''(''] @ print_list (\<lambda>c. [name_tok c]) cols @
     [punct RPAREN '')'', word ''VALUES'', punct LPAREN ''(''] @ print_list print_value vals @ [punct RPAREN '')'']"
| "print_stmt (Select s) =
     word ''SELECT'' # (if se_columns s = [str ''*''] then [punct STAR ''*''] else print_list (\<lambda>c. [name_tok c]) (se_columns s)) @
     [word ''FROM'', name_tok (se_table s)] @ print_where (se_where s) @
     print_order (se_order_by s) (se_order_desc s) @ print_limit (se_limit s)"
| "print_stmt (Update t asg wh) =
     [word ''UPDATE'', name_tok t, word ''SET''] @
     print_list (\<lambda>(c, v). [name_tok c, punct EQ ''=''] @ print_value v) asg @ print_where wh"
| "print_stmt (Delete t wh) = [word ''DELETE'', word ''FROM'', name_tok t] @ print_where wh"

definition where_ok :: "expr option \<Rightarrow> bool" where
  "where_ok wh \<longleftrightarrow> (case wh of None \<Rightarrow> True | Some e \<Rightarrow> printable e)"

definition upper_fixed :: "unidata \<Rightarrow> pystr \<Rightarrow> bool" where
  "upper_fixed uc s \<longleftrightarrow> str_upper uc s = s"

fun printable_stmt :: "unidata \<Rightarrow> stmt \<Rightarrow> bool" where
  "printable_stmt uc (CreateTable t cols) \<longleftrightarrow> cols \<noteq> [] \<and> list_all (\<lambda>(c, ty). upper_fixed uc ty) cols"
| "printable_stmt uc (DropTable t) \<longleftrightarrow> True"
| "printable_stmt uc (Insert t cols vals) \<longleftrightarrow> cols \<noteq> [] \<and> vals \<noteq> []"
| "printable_stmt uc (Select s) \<longleftrightarrow> se_columns s \<noteq> [] \<and> where_ok (se_where s) \<and> (se_order_by s = None \<longrightarrow> \<not> se_order_desc s)"
| "printable_stmt uc (Update t asg wh) \<longleftrightarrow> asg \<noteq> [] \<and> dict_wf asg \<and> where_ok wh"
| "printable_stmt uc (Delete t wh) \<longleftrightarrow> where_ok wh"

lemma tk_word [simp]: "tk_type (word s) = kw s" "tk_type (name_tok c) = IDENT" "tk_type (punct k s) = k"
  "tk_value (name_tok c) = VStr c"
  by (simp_all add: word_def name_tok_def punct_def)

declare str_inject [simp]

lemma consume_Cons [simp]: "consume k (t # r) = (if tk_type t = k then Inr (t, r) else Inl SyntaxErr)"
  by (simp add: consume_def)

lemma consume_name_tok [simp]: "consume_name (name_tok c # r) = Inr (c, r)"
  by (simp add: consume_name_def val_name_def)

lemma comma_loop_print:
  assumes "\<And>x r. x \<in> set xs \<Longrightarrow> item (f x @ r) = Inr (x, r)" "tk_type t \<noteq> COMMA"
  shows "length xs \<le> n \<Longrightarrow>
    comma_loop n item out (concat (map (\<lambda>y. punct COMMA '','' # f y) xs) @ t # rest) = Inr (out @ xs, t # rest)"
  using assms(1)
proof (induction xs arbitrary: n out)
  case Nil
  then show ?case using assms(2) by (simp add: comma_loop.simps)
next
  case (Cons x xs)
  then show ?case by (simp add: comma_loop.simps [of n])
qed

lemma comma_list_print:
  assumes "\<And>x r. x \<in> set xs \<Longrightarrow> item (f x @ r) = Inr (x, r)" "tk_type t \<noteq> COMMA" "xs \<noteq> []"
  shows "comma_list item (print_list f xs @ t # rest) = Inr (xs, t # rest)"
proof -
  obtain x ys where xs: "xs = x # ys" using assms(3) by (cases xs) auto
  have "length ys \<le> length (concat (map (\<lambda>y. punct COMMA '','' # f y) ys))" by (induction ys) auto
  then show ?thesis using assms(1) comma_loop_print [of ys item f t _ "[x]" rest] assms(2)
    by (simp add: xs comma_list_def)
qed

lemma literal_print: "parse_literal_value uc (print_value v @ r) = Inr (v, r)"
  by (cases v) (auto simp: parse_literal_value_def print_value_def Let_def val_name_def str_upper_def str_def)

lemma assignment_print: "parse_assignment uc (([name_tok c, punct EQ ''=''] @ print_value v) @ r) = Inr ((c, v), r)"
  by (simp add: parse_assignment_def literal_print)

lemma col_def_print: "upper_fixed uc ty \<Longrightarrow> parse_col_def uc ([name_tok c, name_tok ty] @ r) = Inr ((c, ty), r)"
  by (simp add: parse_col_def_def upper_fixed_def)

lemma where_print:
  assumes "where_ok wh" "follows 0 (t # rest)" "tk_type t \<noteq> kw ''WHERE''"
  shows "parse_where (print_where wh @ t # rest) = Inr (wh, t # rest)"
  using assms parse_print [of _ "t # rest"]
  by (cases wh) (simp_all add: parse_where_def print_where_def where_ok_def)

lemma order_print:
  assumes "ob = None \<longrightarrow> \<not> desc" "tk_type t \<notin> {kw ''ORDER'', kw ''DESC'', kw ''ASC''}"
  shows "parse_order (print_order ob desc @ t # rest) = Inr ((ob, desc), t # rest)"
  using assms by (cases ob) (auto simp: parse_order_def print_order_def)

lemma limit_print:
  assumes "tk_type t \<noteq> kw ''LIMIT''"
  shows "parse_limit (print_limit li @ t # rest) = Inr (li, t # rest)"
  using assms by (cases li) (auto simp: parse_limit_def print_limit_def int_of_number_def)

lemma columns_print:
  assumes "cols \<noteq> []" "tk_type t \<noteq> COMMA"
  shows "parse_column_list ((if cols = [str ''*''] then [punct STAR ''*''] else print_list (\<lambda>c. [name_tok c]) cols) @ t # rest) =
    Inr (cols, t # rest)"
proof -
  have "peek (print_list (\<lambda>c. [name_tok c]) cols @ t # rest) = Inr (name_tok (hd cols))" using assms(1) by (cases cols) auto
  moreover have "comma_list consume_name (print_list (\<lambda>c. [name_tok c]) cols @ t # rest) = Inr (cols, t # rest)"
    by (rule comma_list_print) (use assms in simp_all)
  ultimately show ?thesis by (simp add: parse_column_list_def del: peek_Inr)
qed

lemma fold_dict_set_self: "dict_wf (d @ asg) \<Longrightarrow> fold (\<lambda>(col, v) d. dict_set col v d) asg d = d @ asg"
proof (induction asg arbitrary: d)
  case (Cons p asg)
  obtain c v where p: "p = (c, v)" by (cases p)
  have "dict_set c v d = d @ [(c, v)]" using Cons(2) by (induction d) (auto simp: p dict_simps dict_wf_def)
  then show ?case using Cons(1) [of "d @ [p]"] Cons(2) by (simp add: p)
qed simp

definition end_token :: "token \<Rightarrow> bool" where
  "end_token t \<longleftrightarrow> tk_type t = EOF \<or> tk_type t = SEMI"

lemma end_token_follows: "end_token t \<Longrightarrow> follows 0 (t # rest)"
  by (auto simp: end_token_def follows_def op_of_def)

lemma select_print:
  assumes "printable_stmt uc (Select s)" "end_token t"
  shows "parse_select (print_stmt (Select s) @ t # rest) = Inr (Select s, t # rest)"
proof -
  let ?l = "print_limit (se_limit s) @ t # rest" and ?o = "print_order (se_order_by s) (se_order_desc s)"
  have l: "\<exists>u r. ?l = u # r \<and> (end_token u \<or> tk_type u = kw ''LIMIT'')" using assms(2)
    by (cases "se_limit s") (auto simp: print_limit_def)
  then obtain u r where u: "?l = u # r" "end_token u \<or> tk_type u = kw ''LIMIT''" by blast
  have "\<exists>w r. ?o @ ?l = w # r \<and> (end_token w \<or> tk_type w = kw ''LIMIT'' \<or> tk_type w = kw ''ORDER'')" using u
    by (cases "se_order_by s") (auto simp: print_order_def)
  then obtain w q where w: "?o @ ?l = w # q" "end_token w \<or> tk_type w = kw ''LIMIT'' \<or> tk_type w = kw ''ORDER''" by blast
  have 1: "parse_where (print_where (se_where s) @ ?o @ ?l) = Inr (se_where s, ?o @ ?l)"
    unfolding w(1) by (rule where_print) (use assms(1) w(2) in \<open>auto simp: end_token_def follows_def op_of_def\<close>)
  have 2: "parse_order (?o @ ?l) = Inr ((se_order_by s, se_order_desc s), ?l)"
    unfolding u(1) by (rule order_print) (use assms(1) u(2) in \<open>auto simp: end_token_def\<close>)
  have 3: "parse_limit ?l = Inr (se_limit s, t # rest)" by (rule limit_print) (use assms(2) in \<open>auto simp: end_token_def\<close>)
  show ?thesis using assms(1) columns_print [of "se_columns s" "word ''FROM''"]
    by (simp add: parse_select_def 1 2 3 del: if_split)
qed

lemma stmt_print:
  assumes "printable_stmt uc st" "end_token t"
  shows "parse_stmt uc (print_stmt st @ t # rest) = Inr (st, t # rest)"
proof (cases st)
  case (CreateTable tb cols)
  have "comma_list (parse_col_def uc) (print_list (\<lambda>(c, ty). [name_tok c, name_tok ty]) cols @ punct RPAREN '')'' # t # rest) =
      Inr (cols, punct RPAREN '')'' # t # rest)"
    by (rule comma_list_print) (use assms CreateTable col_def_print in \<open>auto simp: list_all_iff\<close>)
  then show ?thesis using CreateTable by (simp add: parse_stmt_def parse_create_def)
next
  case (Insert tb cols vals)
  let ?v = "print_list print_value vals @ punct RPAREN '')'' # t # rest"
  have "comma_list consume_name (print_list (\<lambda>c. [name_tok c]) cols @ punct RPAREN '')'' # word ''VALUES'' # punct LPAREN ''('' # ?v) =
      Inr (cols, punct RPAREN '')'' # word ''VALUES'' # punct LPAREN ''('' # ?v)"
    by (rule comma_list_print) (use assms Insert in auto)
  moreover have "comma_list (parse_literal_value uc) ?v = Inr (vals, punct RPAREN '')'' # t # rest)"
    by (rule comma_list_print) (use assms Insert literal_print in auto)
  ultimately show ?thesis using Insert by (simp add: parse_stmt_def parse_insert_def)
next
  case (Select s)
  then show ?thesis using select_print [of uc s t rest] assms by (simp add: parse_stmt_def)
next
  case (Update tb asg wh)
  have "\<exists>u r. print_where wh @ t # rest = u # r \<and> tk_type u \<noteq> COMMA" using assms(2)
    by (cases wh) (auto simp: print_where_def end_token_def)
  then obtain u r where u: "print_where wh @ t # rest = u # r" "tk_type u \<noteq> COMMA" by blast
  have "comma_list (parse_assignment uc) (print_list (\<lambda>(c, v). [name_tok c, punct EQ ''=''] @ print_value v) asg @ u # r) = Inr (asg, u # r)"
    by (rule comma_list_print) (use assms Update u assignment_print in auto)
  moreover have "parse_where (u # r) = Inr (wh, t # rest)"
    unfolding u(1) [symmetric] by (rule where_print) (use assms Update in \<open>auto simp: end_token_follows end_token_def\<close>)
  ultimately show ?thesis using Update fold_dict_set_self [of "[]" asg] assms by (simp add: parse_stmt_def parse_update_def u)
next
  case (Delete tb wh)
  have "parse_where (print_where wh @ t # rest) = Inr (wh, t # rest)"
    by (rule where_print) (use assms Delete in \<open>auto simp: end_token_follows end_token_def\<close>)
  then show ?thesis using Delete by (simp add: parse_stmt_def parse_delete_def)
qed (simp add: parse_stmt_def parse_drop_def)

text \<open>
  (C9) The grammar: whatever statement is written out with the precedence and the left associativity of
  OR, AND, NOT and the comparisons, and with parentheses where these require them, \<open>parse\<close> reads back, up to
  the end of the text or a semicolon.
\<close>

theorem parse_roundtrip:
  assumes "printable_stmt uc st" "end_token t"
  shows "parse_tokens uc (print_stmt st @ t # rest) = Inr st"
  using stmt_print [OF assms] by (simp add: parse_tokens_def)

definition ascii_only :: unidata where
  "ascii_only = \<lparr>uc_space = (\<lambda>_. False), uc_digit = (\<lambda>_. False), uc_alpha = (\<lambda>_. False), uc_alnum = (\<lambda>_. False),
     uc_decimal = (\<lambda>_. None), uc_upper = (\<lambda>c. [c])\<rparr>"

definition some_select :: stmt where
  "some_select = Select \<lparr>se_table = str ''t'', se_columns = [str ''a'', str ''b''],
     se_where = Some (BinaryExpr OpAnd (UnaryNot (BinaryExpr OpOr (BinaryExpr OpEq (ColumnRef (str ''a'')) (Literal (VInt 1)))
       (ColumnRef (str ''b'')))) (BinaryExpr OpLt (ColumnRef (str ''c'')) (Literal (VStr (str ''x''))))),
     se_order_by = Some (str ''a''), se_order_desc = True, se_limit = Some 5\<rparr>"

theorem parse_roundtrip_witness:
  "printable_stmt ascii_only some_select \<and> end_token (tok EOF VNull) \<and>
   parse_tokens ascii_only (print_stmt some_select @ [tok EOF VNull]) = Inr some_select"
proof -
  have "printable_stmt ascii_only some_select" "end_token (tok EOF VNull)"
    by (simp_all add: some_select_def where_ok_def end_token_def)
  then show ?thesis using parse_roundtrip [of ascii_only some_select "tok EOF VNull" "[]"] by blast
qed

end
