(* ===== verification/Sql_Exec.thy ===== *)
theory Sql_Exec
  imports Sql_Print
begin

text \<open>
  The statements of \<open>SQLDatabase\<close> (\<open>sql_parser.py\<close>): the invariant of the tables and what each statement
  keeps of it, and DELETE against SELECT.
\<close>

section \<open>Conditions over rows\<close>

definition holds :: "expr option \<Rightarrow> row \<Rightarrow> bool" where
  "holds wh row = (case wh of None \<Rightarrow> True | Some e \<Rightarrow> (case eval_expr e row of Inl _ \<Rightarrow> False | Inr v \<Rightarrow> truthy v))"

definition decides :: "expr option \<Rightarrow> row \<Rightarrow> bool" where
  "decides wh row = (case wh of None \<Rightarrow> True | Some e \<Rightarrow> \<not> isl (eval_expr e row))"

lemma condition_eq:
  "(case wh of None \<Rightarrow> Inr True | Some e \<Rightarrow> bindE (eval_expr e row) (\<lambda>v. Inr (truthy v))) = Inr b \<longleftrightarrow> decides wh row \<and> b = holds wh row"
  by (cases wh; cases "eval_expr (the wh) row") (auto simp: decides_def holds_def)

lemma scan_rows_eq: "scan_rows wh rows = Inr xs \<longleftrightarrow> list_all (decides wh) rows \<and> xs = filter (holds wh) rows"
  by (induction rows arbitrary: xs) (auto simp: condition_eq)

lemma remaining_rows_eq:
  "remaining_rows e rows = Inr xs \<longleftrightarrow> list_all (decides (Some e)) rows \<and> xs = filter (\<lambda>r. \<not> holds (Some e) r) rows"
proof (induction rows arbitrary: xs)
  case (Cons row rows)
  then show ?case by (cases "eval_expr e row") (auto simp: decides_def holds_def)
qed auto

lemma truthy_VBool [simp]: "truthy (VBool b) = b"
  by (simp add: truthy_def num_of_def)

lemma holds_not:
  "decides (Some (UnaryNot e)) row = decides (Some e) row \<and>
   holds (Some (UnaryNot e)) row = (decides (Some e) row \<and> \<not> holds (Some e) row)"
  by (cases "eval_expr e row") (simp_all add: decides_def holds_def)

text \<open>The rows an update leaves: those before the row that raises are changed where the condition holds.\<close>

lemma update_rows_rows:
  "set (fst (update_rows asg wh rows)) \<subseteq> set rows \<union> fold (\<lambda>(col, v) d. dict_set col v d) asg ` set rows"
  by (induction rows) (auto split: sum.splits prod.splits)

section \<open>Well-formed tables\<close>

definition rowid :: "row \<Rightarrow> int" where
  "rowid row = (case dict_get row (str ''_rowid'') of Some (VInt i) \<Rightarrow> i | _ \<Rightarrow> 0)"

definition row_ok :: "(pystr, pystr) dict \<Rightarrow> row \<Rightarrow> bool" where
  "row_ok columns row \<longleftrightarrow> dict_wf row \<and> set (dict_keys row) \<subseteq> insert (str ''_rowid'') (set (dict_keys columns))"

definition ids_ok :: "nat \<Rightarrow> row list \<Rightarrow> bool" where
  "ids_ok next rows \<longleftrightarrow> sorted_wrt (<) (map rowid rows) \<and> list_all (\<lambda>r. 0 < rowid r \<and> rowid r < int next) rows"

definition table_ok :: "table \<Rightarrow> bool" where
  "table_ok t \<longleftrightarrow> dict_wf (tb_columns t) \<and> list_all (row_ok (tb_columns t)) (tb_rows t) \<and> 0 < tb_next_rowid t \<and>
     (str ''_rowid'' \<notin> set (dict_keys (tb_columns t)) \<longrightarrow> ids_ok (tb_next_rowid t) (tb_rows t))"

definition sql_db_ok :: "sql_db \<Rightarrow> bool" where
  "sql_db_ok db \<longleftrightarrow> dict_wf db \<and> list_all (\<lambda>(_, t). table_ok t) db"

text \<open>What INSERT checks of its columns and UPDATE does not.\<close>

definition known_columns :: "sql_db \<Rightarrow> stmt \<Rightarrow> bool" where
  "known_columns db st =
     (case st of
        Update name asg wh \<Rightarrow>
          (case get_table db name of
             Inl _ \<Rightarrow> True
           | Inr t \<Rightarrow> set (dict_keys asg) \<subseteq> set (dict_keys (tb_columns t)))
      | _ \<Rightarrow> True)"

lemma update_subset: "set (dict_set k v d) \<subseteq> insert (k, v) (set d)"
  by (induction d) auto

lemma db_ok_set: "sql_db_ok db \<Longrightarrow> table_ok t \<Longrightarrow> sql_db_ok (dict_set name t db)"
  using update_subset [of name t db] by (auto simp: sql_db_ok_def list_all_iff)

lemma db_ok_get: "sql_db_ok db \<Longrightarrow> get_table db name = Inr t \<Longrightarrow> table_ok t"
  by (auto simp: sql_db_ok_def list_all_iff get_table_def split: option.splits dest!: map_of_SomeD)

lemma fold_set_wf: "dict_wf d \<Longrightarrow> dict_wf (fold (\<lambda>(c, v) d. dict_set c v d) asg d)"
  by (induction asg arbitrary: d) auto

lemma fold_set_keys:
  "set (dict_keys (fold (\<lambda>(c, v) d. dict_set c v d) asg d)) = set (dict_keys d) \<union> set (dict_keys asg)"
proof (induction asg arbitrary: d)
  case (Cons p asg)
  show ?case using Cons [of "dict_set (fst p) (snd p) d"] by (cases p) (simp add: dom_update)
qed simp

lemma fold_set_other: "c \<notin> set (dict_keys asg) \<Longrightarrow> dict_get (fold (\<lambda>(c, v) d. dict_set c v d) asg d) c = dict_get d c"
  by (induction asg arbitrary: d) (auto simp: dict_simps)

lemma table_new_ok: "table_ok (table_new name cols)"
  by (simp add: table_ok_def table_new_def ids_ok_def fold_set_wf)

lemma fill_row_eq:
  "fill_row columns cvs row = Inr row' \<Longrightarrow>
   row' = fold (\<lambda>(c, v) d. dict_set c v d) cvs row \<and> set (dict_keys cvs) \<subseteq> set (dict_keys columns)"
  by (induction columns cvs row rule: fill_row.induct) (auto simp: map_of_eq_None_iff split: if_splits)

lemma sorted_wrt_snoc: "sorted_wrt (<) xs \<Longrightarrow> list_all (\<lambda>x. x < y) xs \<Longrightarrow> sorted_wrt (<) (xs @ [y::int])"
  by (simp add: sorted_wrt_append list_all_iff)

lemma ids_ok_snoc: "ids_ok n rows \<Longrightarrow> 0 < n \<Longrightarrow> rowid row = int n \<Longrightarrow> ids_ok (Suc n) (rows @ [row])"
  by (auto simp: ids_ok_def list_all_iff sorted_wrt_append)

lemma table_insert_ok:
  assumes ok: "table_ok t"
  shows "table_ok (fst (table_insert t cols vals))"
proof (cases "fill_row (tb_columns t) (zip cols vals) [(str ''_rowid'', VInt (int (tb_next_rowid t)))]")
  case (Inl e)
  then show ?thesis using ok by (auto simp: table_insert_def Let_def table_ok_def ids_ok_def list_all_iff)
next
  case (Inr row)
  note row = fill_row_eq [OF Inr]
  have r: "row_ok (tb_columns t) row"
    using row fold_set_keys [of "zip cols vals" "[(str ''_rowid'', VInt (int (tb_next_rowid t)))]"]
      fold_set_wf [of "[(str ''_rowid'', VInt (int (tb_next_rowid t)))]" "zip cols vals"]
    unfolding row_ok_def by (simp add: dict_wf_def subset_insertI2)
  have i: "rowid row = int (tb_next_rowid t)" if "str ''_rowid'' \<notin> set (dict_keys (tb_columns t))"
  proof -
    have "str ''_rowid'' \<notin> set (dict_keys (zip cols vals))" using row that by blast
    from fold_set_other [OF this] row show ?thesis by (simp add: rowid_def)
  qed
  show ?thesis using ok r i ids_ok_snoc [of "tb_next_rowid t" "tb_rows t" row]
    by (auto simp: table_insert_def Let_def Inr table_ok_def)
qed

lemma update_rows_ok:
  assumes "list_all (row_ok columns) rows" "set (dict_keys asg) \<subseteq> set (dict_keys columns)"
  shows "list_all (row_ok columns) (fst (update_rows asg wh rows))"
  unfolding list_all_iff
proof
  fix row
  assume "row \<in> set (fst (update_rows asg wh rows))"
  then consider "row \<in> set rows" | r where "r \<in> set rows" "row = fold (\<lambda>(c, v) d. dict_set c v d) asg r"
    using update_rows_rows [of asg wh rows] by blast
  then show "row_ok columns row"
  proof cases
    case 2
    then show ?thesis using assms fold_set_keys [of asg r] fold_set_wf [of r asg]
      unfolding list_all_iff row_ok_def by (simp add: subset_insertI2)
  qed (use assms in \<open>simp add: list_all_iff\<close>)
qed

lemma update_rows_ids:
  assumes "str ''_rowid'' \<notin> set (dict_keys asg)"
  shows "map rowid (fst (update_rows asg wh rows)) = map rowid rows"
  by (induction rows) (auto simp: rowid_def fold_set_other [OF assms] split: sum.splits prod.splits)

lemma ids_ok_map: "map rowid xs = map rowid ys \<Longrightarrow> ids_ok n xs = ids_ok n ys"
proof -
  assume "map rowid xs = map rowid ys"
  then have "list_all (\<lambda>i. 0 < i \<and> i < int n) (map rowid xs) = list_all (\<lambda>i. 0 < i \<and> i < int n) (map rowid ys)" "sorted_wrt (<) (map rowid xs) = sorted_wrt (<) (map rowid ys)"
    by simp_all
  then show ?thesis by (simp add: ids_ok_def list.pred_map comp_def)
qed

lemma update_table_ok:
  assumes "table_ok t" "set (dict_keys asg) \<subseteq> set (dict_keys (tb_columns t))"
  shows "table_ok (t\<lparr>tb_rows := fst (update_rows asg wh (tb_rows t))\<rparr>)"
proof -
  have "ids_ok n (fst (update_rows asg wh (tb_rows t))) = ids_ok n (tb_rows t)"
    if "str ''_rowid'' \<notin> set (dict_keys (tb_columns t))" for n
    using that assms(2) by (intro ids_ok_map update_rows_ids) blast
  then show ?thesis using assms update_rows_ok [OF _ assms(2), of "tb_rows t" wh] by (simp add: table_ok_def)
qed

lemma delete_table_ok: "table_ok t \<Longrightarrow> table_ok (t\<lparr>tb_rows := filter P (tb_rows t)\<rparr>)"
  by (auto simp: table_ok_def ids_ok_def list_all_iff sorted_wrt_map intro: sorted_wrt_filter)

text \<open>
  (C12) The types of the stored rows: whatever statement \<open>execute\<close> runs, and even when it raises, every table
  keeps rows whose keys are columns of its schema or \<open>_rowid\<close>, and, where no column is itself called
  \<open>_rowid\<close>, row ids that are positive, increase in the order of the rows and lie below \<open>_next_rowid\<close>. An
  UPDATE has to name columns of the table: unlike INSERT, the code does not check that.
\<close>

theorem rows_conform:
  assumes "sql_db_ok db" "known_columns db st"
  shows "sql_db_ok (fst (execute_ast db st))"
proof (cases st)
  case (CreateTable name cols)
  then show ?thesis using assms by (auto simp: execute_ast_def exec_create_def db_ok_set table_new_ok)
next
  case (DropTable name)
  moreover have "set (dict_del name db) \<subseteq> set db" by (auto simp: AList.delete_eq)
  ultimately show ?thesis using assms by (auto simp: execute_ast_def exec_drop_def sql_db_ok_def list_all_iff)
next
  case (Insert name cols vals)
  show ?thesis
  proof (cases "get_table db name")
    case (Inr t)
    then show ?thesis using Insert table_insert_ok [OF db_ok_get [OF assms(1) Inr], of cols vals] assms(1)
      by (simp add: execute_ast_def exec_insert_def case_prod_beta db_ok_set)
  qed (use Insert assms in \<open>simp add: execute_ast_def exec_insert_def\<close>)
next
  case (Select s)
  then show ?thesis using assms by (simp add: execute_ast_def)
next
  case (Update name asg wh)
  show ?thesis
  proof (cases "get_table db name")
    case (Inr t)
    then show ?thesis using Update update_table_ok [OF db_ok_get [OF assms(1) Inr], of asg wh] assms
      by (simp add: execute_ast_def exec_update_def known_columns_def case_prod_beta db_ok_set)
  qed (use Update assms in \<open>simp add: execute_ast_def exec_update_def\<close>)
next
  case (Delete name wh)
  show ?thesis
  proof (cases "get_table db name")
    case (Inr t)
    then have "table_ok (t\<lparr>tb_rows := filter P (tb_rows t)\<rparr>)" for P using db_ok_get [OF assms(1)] delete_table_ok by blast
    from this [of "\<lambda>_. False"] this show ?thesis using Delete Inr assms(1)
      by (auto simp: execute_ast_def exec_delete_def remaining_rows_eq db_ok_set split: sum.splits option.splits)
  qed (use Delete assms in \<open>simp add: execute_ast_def exec_delete_def\<close>)
qed

definition people :: sql_db where
  "people =
     fst (execute_ast (fst (execute_ast (fst (execute_ast []
       (CreateTable (str ''p'') [(str ''name'', str ''TEXT''), (str ''age'', str ''INT'')])))
       (Insert (str ''p'') [str ''name'', str ''age''] [VStr (str ''ann''), VInt 40])))
       (Insert (str ''p'') [str ''name'', str ''age''] [VStr (str ''bob''), VInt 20]))"

lemma people_eq:
  "people =
     [(str ''p'', \<lparr>tb_name = str ''p'', tb_columns = [(str ''name'', str ''TEXT''), (str ''age'', str ''INT'')],
        tb_rows = [[(str ''_rowid'', VInt 1), (str ''name'', VStr (str ''ann'')), (str ''age'', VInt 40)],
                   [(str ''_rowid'', VInt 2), (str ''name'', VStr (str ''bob'')), (str ''age'', VInt 20)]],
        tb_next_rowid = 3\<rparr>)]"
  by (simp add: people_def execute_ast_def exec_create_def exec_insert_def get_table_def table_new_def table_insert_def)

lemma people_ok: "sql_db_ok people"
  by (simp add: people_eq sql_db_ok_def table_ok_def row_ok_def ids_ok_def dict_wf_def rowid_def)

theorem rows_conform_witness:
  "sql_db_ok people \<and>
   known_columns people (Update (str ''p'') [(str ''age'', VInt 41)] (Some (BinaryExpr OpEq (ColumnRef (str ''name'')) (Literal (VStr (str ''ann'')))))) \<and>
   sql_db_ok (fst (execute_ast people (Update (str ''p'') [(str ''age'', VInt 41)] (Some (BinaryExpr OpEq (ColumnRef (str ''name'')) (Literal (VStr (str ''ann''))))))))"
proof -
  have "known_columns people (Update (str ''p'') [(str ''age'', VInt 41)] (Some (BinaryExpr OpEq (ColumnRef (str ''name'')) (Literal (VStr (str ''ann''))))))"
    by (simp add: known_columns_def people_eq get_table_def)
  from rows_conform [OF people_ok this] this people_ok show ?thesis by blast
qed

text \<open>An UPDATE of a column the table does not have adds it, and one of the row ids makes them equal.\<close>

lemma update_adds_column:
  "snd (execute_ast people (Update (str ''p'') [(str ''nmae'', VNull)] None)) = Inr (Updated 2)"
  "\<not> sql_db_ok (fst (execute_ast people (Update (str ''p'') [(str ''nmae'', VNull)] None)))"
  "\<not> sql_db_ok (fst (execute_ast people (Update (str ''p'') [(str ''_rowid'', VInt 1)] None)))"
  by (simp_all add: people_eq execute_ast_def exec_update_def get_table_def sql_db_ok_def table_ok_def row_ok_def ids_ok_def rowid_def)

text \<open>
  (C24) \<open>DELETE FROM name WHERE e\<close> removes the rows \<open>SELECT ... WHERE e\<close> finds, reports their number, keeps the
  others in their order, leaves the other tables alone, and afterwards \<open>WHERE e\<close> finds nothing and \<open>WHERE NOT e\<close>
  every row. When the condition raises on a row, SELECT raises too and the delete changes nothing.
\<close>

theorem delete_select:
  assumes "get_table db name = Inr t" "exec_delete db name (Some e) = (db', r)"
  shows "case scan_rows (Some e) (tb_rows t) of
      Inl _ \<Rightarrow> isl r \<and> db' = db
    | Inr hits \<Rightarrow> r = Inr (Deleted (length hits)) \<and>
        (\<exists>rest. get_table db' name = Inr (t\<lparr>tb_rows := rest\<rparr>) \<and> tb_rows t \<in> shuffles hits rest \<and>
           scan_rows (Some e) rest = Inr [] \<and> scan_rows (Some (UnaryNot e)) rest = Inr rest) \<and>
        (\<forall>other. other \<noteq> name \<longrightarrow> get_table db' other = get_table db other)"
proof (cases "list_all (decides (Some e)) (tb_rows t)")
  case True
  then have s: "scan_rows (Some e) (tb_rows t) = Inr (filter (holds (Some e)) (tb_rows t))"
      and m: "remaining_rows e (tb_rows t) = Inr (filter (\<lambda>r. \<not> holds (Some e) r) (tb_rows t))"
    using scan_rows_eq [of "Some e"] remaining_rows_eq [of e] by blast+
  let ?rest = "filter (\<lambda>r. \<not> holds (Some e) r) (tb_rows t)"
  have "scan_rows (Some e) ?rest = Inr []" using True by (auto simp: scan_rows_eq list_all_iff)
  moreover have "scan_rows (Some (UnaryNot e)) ?rest = Inr ?rest"
  proof -
    have "filter (holds (Some (UnaryNot e))) ?rest = ?rest" 
      by (rule filter_True) (use True in \<open>simp add: list_all_iff holds_not\<close>)
    then show ?thesis using True by (simp add: scan_rows_eq list_all_iff holds_not)
  qed
  moreover have "length (tb_rows t) - length ?rest = length (filter (holds (Some e)) (tb_rows t))"
    using sum_length_filter_compl [of "holds (Some e)" "tb_rows t"] by simp
  ultimately show ?thesis using assms partition_in_shuffles [of "tb_rows t" "holds (Some e)"]
    by (auto simp: exec_delete_def s m get_table_def dict_simps)
next
  case False
  then have "isl (scan_rows (Some e) (tb_rows t))" "isl (remaining_rows e (tb_rows t))"
    using scan_rows_eq [of "Some e" "tb_rows t"] remaining_rows_eq [of e "tb_rows t"]
    by (auto simp: isl_def) (metis sum.exhaust)+
  then show ?thesis using assms by (auto simp: exec_delete_def isl_def)
qed

theorem delete_select_witness:
  "\<exists>t db' r. get_table people (str ''p'') = Inr t \<and> exec_delete people (str ''p'') (Some (UnaryNot (ColumnRef (str ''age'')))) = (db', r) \<and>
   (case scan_rows (Some (UnaryNot (ColumnRef (str ''age'')))) (tb_rows t) of
      Inl _ \<Rightarrow> isl r \<and> db' = people
    | Inr hits \<Rightarrow> r = Inr (Deleted (length hits)) \<and>
        (\<exists>rest. get_table db' (str ''p'') = Inr (t\<lparr>tb_rows := rest\<rparr>) \<and> tb_rows t \<in> shuffles hits rest \<and>
           scan_rows (Some (UnaryNot (ColumnRef (str ''age'')))) rest = Inr [] \<and>
           scan_rows (Some (UnaryNot (UnaryNot (ColumnRef (str ''age''))))) rest = Inr rest) \<and>
        (\<forall>other. other \<noteq> str ''p'' \<longrightarrow> get_table db' other = get_table people other))"
proof -
  obtain t where t: "get_table people (str ''p'') = Inr t" by (simp add: people_eq get_table_def)
  obtain db' r where d: "exec_delete people (str ''p'') (Some (UnaryNot (ColumnRef (str ''age'')))) = (db', r)" by fastforce
  from delete_select [OF t d] t d show ?thesis by blast
qed

end
