(* ===== verification/Raft.thy ===== *)
theory Raft
  imports Py_Base
begin

text \<open>
  The consensus module \<open>raft.py\<close>: the nodes with their handlers, and the cluster as the nodes plus the
  threads in flight. A handler runs under the lock of its node, so a thread is cut at the points where it
  holds no lock, and any thread, timer or client may take the next step. Clocks are left out: an election
  timer may fire whenever the node is not the leader.
\<close>

section \<open>Data\<close>

datatype role = FOLLOWER | CANDIDATE | LEADER

text \<open>A command is a dict of strings, or some other value, which the state machine ignores.\<close>

datatype command = DictCmd "(pystr, pystr) dict" | OtherCmd

record log_entry =
  le_term :: nat
  le_index :: nat
  le_command :: command

record vote_request =
  vq_term :: nat
  vq_candidate :: pystr
  vq_last_index :: nat
  vq_last_term :: nat

record vote_response =
  vr_term :: nat
  vr_granted :: bool
  vr_voter :: pystr

record append_request =
  aq_term :: nat
  aq_leader :: pystr
  aq_prev_index :: nat
  aq_prev_term :: nat
  aq_entries :: "log_entry list"
  aq_commit :: nat

record append_response =
  ar_term :: nat
  ar_success :: bool
  ar_follower :: pystr
  ar_match :: nat

record raft_node =
  rn_id :: pystr
  rn_peers :: "pystr list"
  rn_term :: nat
  rn_voted_for :: "pystr option"
  rn_log :: "log_entry list"
  rn_commit :: nat
  rn_applied :: nat
  rn_next :: "(pystr, nat) dict"
  rn_match :: "(pystr, nat) dict"
  rn_role :: role
  rn_leader :: "pystr option"
  rn_votes :: "pystr list"
  rn_machine :: "(pystr, pystr) dict"

definition raft_node_new :: "pystr \<Rightarrow> pystr list \<Rightarrow> raft_node" where
  "raft_node_new nid peers =
     \<lparr>rn_id = nid, rn_peers = peers, rn_term = 0, rn_voted_for = None, rn_log = [], rn_commit = 0, rn_applied = 0,
      rn_next = [], rn_match = [], rn_role = FOLLOWER, rn_leader = None, rn_votes = [], rn_machine = []\<rparr>"

definition get_or :: "('k, 'v) dict \<Rightarrow> 'k \<Rightarrow> 'v \<Rightarrow> 'v" where
  "get_or d k v = (case dict_get d k of None \<Rightarrow> v | Some x \<Rightarrow> x)"

definition last_log_term :: "log_entry list \<Rightarrow> nat" where
  "last_log_term lg = (if lg = [] then 0 else le_term (last lg))"

definition majority :: "raft_node \<Rightarrow> nat" where
  "majority n = (length (rn_peers n) + 1) div 2 + 1"

text \<open>\<open>self.log[i - 1]\<close> and \<open>self.log[:i - 1]\<close>, with Python's reading of the index \<open>-1\<close>.\<close>

definition log_at :: "log_entry list \<Rightarrow> nat \<Rightarrow> log_entry result" where
  "log_at lg i =
     (if i = 0 then (if lg = [] then Inl IndexError else Inr (last lg))
      else if i \<le> length lg then Inr (lg ! (i - 1)) else Inl IndexError)"

definition log_cut :: "log_entry list \<Rightarrow> nat \<Rightarrow> log_entry list" where
  "log_cut lg i = (if i = 0 then butlast lg else take (i - 1) lg)"

section \<open>Elections\<close>

definition become_follower :: "nat \<Rightarrow> raft_node \<Rightarrow> raft_node" where
  "become_follower term n = n\<lparr>rn_role := FOLLOWER, rn_term := term, rn_voted_for := None\<rparr>"

definition become_leader :: "raft_node \<Rightarrow> raft_node" where
  "become_leader n =
     n\<lparr>rn_role := LEADER, rn_leader := Some (rn_id n),
       rn_next := fold (\<lambda>p d. dict_set p (length (rn_log n) + 1) d) (rn_peers n) (rn_next n),
       rn_match := fold (\<lambda>p d. dict_set p 0 d) (rn_peers n) (rn_match n)\<rparr>"

definition vote_request_of :: "raft_node \<Rightarrow> vote_request" where
  "vote_request_of n =
     \<lparr>vq_term = rn_term n, vq_candidate = rn_id n, vq_last_index = length (rn_log n), vq_last_term = last_log_term (rn_log n)\<rparr>"

definition start_election :: "raft_node \<Rightarrow> raft_node \<times> vote_request" where
  "start_election n =
     (let n' = n\<lparr>rn_role := CANDIDATE, rn_term := rn_term n + 1, rn_voted_for := Some (rn_id n), rn_votes := [rn_id n]\<rparr>
      in (n', vote_request_of n'))"

definition handle_vote_response :: "vote_response \<Rightarrow> raft_node \<Rightarrow> raft_node" where
  "handle_vote_response resp n =
     (if rn_role n \<noteq> CANDIDATE then n
      else if vr_term resp > rn_term n then become_follower (vr_term resp) n
      else if vr_granted resp \<and> vr_term resp = rn_term n
      then let n' = n\<lparr>rn_votes := List.insert (vr_voter resp) (rn_votes n)\<rparr> in
           if length (rn_votes n') \<ge> majority n' then become_leader n' else n'
      else n)"

definition log_ok :: "vote_request \<Rightarrow> raft_node \<Rightarrow> bool" where
  "log_ok req n \<longleftrightarrow>
     vq_last_term req > last_log_term (rn_log n) \<or>
     vq_last_term req = last_log_term (rn_log n) \<and> vq_last_index req \<ge> length (rn_log n)"

definition handle_vote_request :: "vote_request \<Rightarrow> raft_node \<Rightarrow> raft_node \<times> vote_response" where
  "handle_vote_request req n =
     (let n1 = (if vq_term req > rn_term n then become_follower (vq_term req) n else n);
          granted = (\<not> vq_term req < rn_term n1 \<and>
                     (rn_voted_for n1 = None \<or> rn_voted_for n1 = Some (vq_candidate req)) \<and> log_ok req n1);
          n2 = (if granted then n1\<lparr>rn_voted_for := Some (vq_candidate req)\<rparr> else n1)
      in (n2, \<lparr>vr_term = rn_term n2, vr_granted = granted, vr_voter = rn_id n2\<rparr>))"

section \<open>The state machine\<close>

definition apply_command :: "command \<Rightarrow> (pystr, pystr) dict \<Rightarrow> (pystr, pystr) dict result" where
  "apply_command cmd sm =
     (case cmd of
        OtherCmd \<Rightarrow> Inr sm
      | DictCmd d \<Rightarrow>
          if dict_get d (str ''op'') = Some (str ''set'') then
            (case (dict_get d (str ''key''), dict_get d (str ''value'')) of
               (Some k, Some v) \<Rightarrow> Inr (dict_set k v sm)
             | _ \<Rightarrow> Inl KeyError)
          else if dict_get d (str ''op'') = Some (str ''delete'') then
            (case dict_get d (str ''key'') of Some k \<Rightarrow> Inr (dict_del k sm) | None \<Rightarrow> Inl KeyError)
          else Inr sm)"

function apply_committed :: "raft_node \<Rightarrow> raft_node \<times> unit result" where
  "apply_committed n =
     (if rn_applied n < rn_commit n then
        (let n' = n\<lparr>rn_applied := rn_applied n + 1\<rparr> in
         case bindE (log_at (rn_log n) (rn_applied n')) (\<lambda>e. apply_command (le_command e) (rn_machine n)) of
           Inl err \<Rightarrow> (n', Inl err)
         | Inr sm \<Rightarrow> apply_committed (n'\<lparr>rn_machine := sm\<rparr>))
      else (n, Inr ()))"
  by pat_completeness auto
termination by (relation "measure (\<lambda>n. rn_commit n - rn_applied n)") auto

declare apply_committed.simps [simp del]

section \<open>Replication\<close>

definition send_append_request :: "pystr \<Rightarrow> raft_node \<Rightarrow> append_request option" where
  "send_append_request peer n =
     (if rn_role n \<noteq> LEADER then None
      else let next_idx = get_or (rn_next n) peer 1; prev = next_idx - 1 in
        Some \<lparr>aq_term = rn_term n, aq_leader = rn_id n, aq_prev_index = prev,
              aq_prev_term = (if 0 < prev \<and> prev \<le> length (rn_log n) then le_term (rn_log n ! (prev - 1)) else 0),
              aq_entries = drop (next_idx - 1) (rn_log n), aq_commit = rn_commit n\<rparr>)"

text \<open>The loop of \<open>_advance_commit_index\<close> from an index down to the commit index.\<close>

function advance_from :: "nat \<Rightarrow> raft_node \<Rightarrow> raft_node \<times> unit result" where
  "advance_from idx n =
     (if idx \<le> rn_commit n then (n, Inr ())
      else case log_at (rn_log n) idx of
        Inl err \<Rightarrow> (n, Inl err)
      | Inr e \<Rightarrow>
          if le_term e \<noteq> rn_term n then advance_from (idx - 1) n
          else if majority n \<le> 1 + length (filter (\<lambda>p. idx \<le> get_or (rn_match n) p 0) (rn_peers n))
          then apply_committed (n\<lparr>rn_commit := idx\<rparr>)
          else advance_from (idx - 1) n)"
  by pat_completeness auto
termination by (relation "measure (\<lambda>(idx, n). idx)") auto

declare advance_from.simps [simp del]

definition advance_commit_index :: "raft_node \<Rightarrow> raft_node \<times> unit result" where
  "advance_commit_index n = advance_from (length (rn_log n)) n"

definition handle_append_response :: "pystr \<Rightarrow> append_response \<Rightarrow> raft_node \<Rightarrow> raft_node \<times> unit result" where
  "handle_append_response peer resp n =
     (if ar_term resp > rn_term n then (become_follower (ar_term resp) n, Inr ())
      else if rn_role n \<noteq> LEADER then (n, Inr ())
      else if ar_success resp
      then advance_commit_index (n\<lparr>rn_match := dict_set peer (ar_match resp) (rn_match n),
                                    rn_next := dict_set peer (ar_match resp + 1) (rn_next n)\<rparr>)
      else (n\<lparr>rn_next := dict_set peer (max 1 (get_or (rn_next n) peer 1 - 1)) (rn_next n)\<rparr>, Inr ()))"

fun append_entries :: "log_entry list \<Rightarrow> log_entry list \<Rightarrow> log_entry list \<times> unit result" where
  "append_entries [] lg = (lg, Inr ())"
| "append_entries (e # es) lg =
     (if le_index e \<le> length lg then
        (case log_at lg (le_index e) of
           Inl err \<Rightarrow> (lg, Inl err)
         | Inr old \<Rightarrow>
             if le_term old \<noteq> le_term e then append_entries es (log_cut lg (le_index e) @ [e])
             else append_entries es lg)
      else append_entries es (lg @ [e]))"

definition reply :: "raft_node \<Rightarrow> bool \<Rightarrow> nat \<Rightarrow> append_response" where
  "reply n ok m = \<lparr>ar_term = rn_term n, ar_success = ok, ar_follower = rn_id n, ar_match = m\<rparr>"

definition accept_entries :: "append_request \<Rightarrow> raft_node \<Rightarrow> raft_node \<times> append_response result" where
  "accept_entries req n =
     (case append_entries (aq_entries req) (rn_log n) of (lg, r) \<Rightarrow>
        let n1 = n\<lparr>rn_log := lg\<rparr> in
        case r of
          Inl err \<Rightarrow> (n1, Inl err)
        | Inr _ \<Rightarrow>
            (case (if aq_commit req > rn_commit n1
                   then apply_committed (n1\<lparr>rn_commit := min (aq_commit req) (length lg)\<rparr>)
                   else (n1, Inr ())) of
               (n2, r2) \<Rightarrow> (n2, bindE r2 (\<lambda>_. Inr (reply n2 True (length (rn_log n2)))))))"

definition handle_append_entries :: "append_request \<Rightarrow> raft_node \<Rightarrow> raft_node \<times> append_response result" where
  "handle_append_entries req n =
     (let n1 = (if aq_term req > rn_term n then become_follower (aq_term req) n else n) in
      if aq_term req < rn_term n1 then (n1, Inr (reply n1 False 0))
      else
        let n2 = n1\<lparr>rn_leader := Some (aq_leader req)\<rparr>;
            n3 = (if rn_role n2 = CANDIDATE then become_follower (aq_term req) n2 else n2);
            prev = aq_prev_index req in
        if 0 < prev \<and> length (rn_log n3) < prev then (n3, Inr (reply n3 False (length (rn_log n3))))
        else if 0 < prev \<and> le_term (rn_log n3 ! (prev - 1)) \<noteq> aq_prev_term req
        then (let n4 = n3\<lparr>rn_log := take (prev - 1) (rn_log n3)\<rparr> in (n4, Inr (reply n4 False (length (rn_log n4)))))
        else accept_entries req n3)"

section \<open>Client operations\<close>

definition raft_write :: "command \<Rightarrow> raft_node \<Rightarrow> raft_node \<times> bool" where
  "raft_write cmd n =
     (if rn_role n \<noteq> LEADER then (n, False)
      else (n\<lparr>rn_log := rn_log n @ [\<lparr>le_term = rn_term n, le_index = length (rn_log n) + 1, le_command = cmd\<rparr>]\<rparr>, True))"

definition raft_read :: "raft_node \<Rightarrow> pystr \<Rightarrow> pystr option" where
  "raft_read n key = dict_get (rn_machine n) key"

record raft_status =
  st_node_id :: pystr
  st_role :: role
  st_term :: nat
  st_leader :: "pystr option"
  st_log_length :: nat
  st_commit_index :: nat
  st_last_applied :: nat
  st_size :: nat

definition raft_status_of :: "raft_node \<Rightarrow> raft_status" where
  "raft_status_of n =
     \<lparr>st_node_id = rn_id n, st_role = rn_role n, st_term = rn_term n, st_leader = rn_leader n,
      st_log_length = length (rn_log n), st_commit_index = rn_commit n, st_last_applied = rn_applied n,
      st_size = length (rn_machine n)\<rparr>"

section \<open>The cluster and its threads\<close>

text \<open>
  A thread by its next section: \<open>_send_vote_request\<close> before the call and with its response,
  \<open>_send_append_entries\<close> before its first section, before the call, and with the response.
\<close>

datatype raft_thread =
    SendVote pystr pystr vote_request
  | GotVote pystr vote_response
  | SendAppend pystr pystr
  | CallAppend pystr pystr append_request
  | GotAppend pystr pystr append_response

record raft_cluster =
  rc_nodes :: "(pystr, raft_node) dict"
  rc_threads :: "raft_thread list"

definition raft_cluster_new :: "pystr list \<Rightarrow> raft_cluster" where
  "raft_cluster_new ids =
     \<lparr>rc_nodes = fold (\<lambda>nid d. dict_set nid (raft_node_new nid (filter (\<lambda>p. p \<noteq> nid) ids)) d) ids [], rc_threads = []\<rparr>"

definition get_leader :: "raft_cluster \<Rightarrow> raft_node option" where
  "get_leader c = find (\<lambda>n. rn_role n = LEADER) (map snd (rc_nodes c))"

definition put_node :: "pystr \<Rightarrow> raft_node \<Rightarrow> raft_cluster \<Rightarrow> raft_cluster" where
  "put_node nid n c = c\<lparr>rc_nodes := dict_set nid n (rc_nodes c)\<rparr>"

definition spawn :: "raft_thread list \<Rightarrow> raft_cluster \<Rightarrow> raft_cluster" where
  "spawn ts c = c\<lparr>rc_threads := rc_threads c @ ts\<rparr>"

text \<open>The sections of the threads; a peer that is not in the cluster ends a thread, and so does an exception.\<close>

definition send_vote_request :: "pystr \<Rightarrow> pystr \<Rightarrow> vote_request \<Rightarrow> raft_cluster \<Rightarrow> raft_cluster" where
  "send_vote_request src peer req c =
     (case dict_get (rc_nodes c) peer of
        None \<Rightarrow> c
      | Some n \<Rightarrow> (case handle_vote_request req n of (n', resp) \<Rightarrow> spawn [GotVote src resp] (put_node peer n' c)))"

definition vote_returned :: "pystr \<Rightarrow> vote_response \<Rightarrow> raft_cluster \<Rightarrow> raft_cluster" where
  "vote_returned src resp c =
     (case dict_get (rc_nodes c) src of
        None \<Rightarrow> c
      | Some n \<Rightarrow> put_node src (handle_vote_response resp n) c)"

definition send_append_entries :: "pystr \<Rightarrow> pystr \<Rightarrow> raft_cluster \<Rightarrow> raft_cluster" where
  "send_append_entries src peer c =
     (case dict_get (rc_nodes c) src of
        None \<Rightarrow> c
      | Some n \<Rightarrow> (case send_append_request peer n of None \<Rightarrow> c | Some req \<Rightarrow> spawn [CallAppend src peer req] c))"

definition call_append :: "pystr \<Rightarrow> pystr \<Rightarrow> append_request \<Rightarrow> raft_cluster \<Rightarrow> raft_cluster" where
  "call_append src peer req c =
     (case dict_get (rc_nodes c) peer of
        None \<Rightarrow> c
      | Some n \<Rightarrow>
          (case handle_append_entries req n of (n', r) \<Rightarrow>
             (case r of Inl _ \<Rightarrow> put_node peer n' c | Inr resp \<Rightarrow> spawn [GotAppend src peer resp] (put_node peer n' c))))"

definition append_returned :: "pystr \<Rightarrow> pystr \<Rightarrow> append_response \<Rightarrow> raft_cluster \<Rightarrow> raft_cluster" where
  "append_returned src peer resp c =
     (case dict_get (rc_nodes c) src of
        None \<Rightarrow> c
      | Some n \<Rightarrow> put_node src (fst (handle_append_response peer resp n)) c)"

definition run_thread :: "raft_thread \<Rightarrow> raft_cluster \<Rightarrow> raft_cluster" where
  "run_thread t =
     (case t of
        SendVote src peer req \<Rightarrow> send_vote_request src peer req
      | GotVote src resp \<Rightarrow> vote_returned src resp
      | SendAppend src peer \<Rightarrow> send_append_entries src peer
      | CallAppend src peer req \<Rightarrow> call_append src peer req
      | GotAppend src peer resp \<Rightarrow> append_returned src peer resp)"

text \<open>One turn of the loops of the two threads of a node, when the timeout has elapsed.\<close>

definition election_timer :: "pystr \<Rightarrow> raft_cluster \<Rightarrow> raft_cluster" where
  "election_timer nid c =
     (case dict_get (rc_nodes c) nid of
        None \<Rightarrow> c
      | Some n \<Rightarrow>
          if rn_role n = LEADER then c
          else (case start_election n of (n', req) \<Rightarrow>
            spawn (map (\<lambda>p. SendVote nid p req) (rn_peers n)) (put_node nid n' c)))"

definition leader_loop :: "pystr \<Rightarrow> raft_cluster \<Rightarrow> raft_cluster" where
  "leader_loop nid c =
     (case dict_get (rc_nodes c) nid of
        None \<Rightarrow> c
      | Some n \<Rightarrow> if rn_role n \<noteq> LEADER then c else spawn (map (SendAppend nid) (rn_peers n)) c)"

text \<open>The events: a timer, the leader loop, a client write, a turn of the \<open>k\<close>-th thread.\<close>

datatype raft_event = Timeout pystr | Heartbeat pystr | Write pystr command | Run nat

definition raft_exec :: "raft_event \<Rightarrow> raft_cluster \<Rightarrow> raft_cluster" where
  "raft_exec ev c =
     (case ev of
        Timeout nid \<Rightarrow> election_timer nid c
      | Heartbeat nid \<Rightarrow> leader_loop nid c
      | Write nid cmd \<Rightarrow>
          (case dict_get (rc_nodes c) nid of None \<Rightarrow> c | Some n \<Rightarrow> put_node nid (fst (raft_write cmd n)) c)
      | Run k \<Rightarrow>
          if k < length (rc_threads c)
          then run_thread (rc_threads c ! k) (c\<lparr>rc_threads := take k (rc_threads c) @ drop (Suc k) (rc_threads c)\<rparr>)
          else c)"

lemmas thread_defs = run_thread_def send_vote_request_def vote_returned_def send_append_entries_def call_append_def
  append_returned_def

lemmas event_defs = raft_exec_def election_timer_def leader_loop_def

inductive raft_reach :: "pystr list \<Rightarrow> raft_cluster \<Rightarrow> bool" for ids where
  raft_start: "raft_reach ids (raft_cluster_new ids)"
| raft_next: "raft_reach ids c \<Longrightarrow> raft_reach ids (raft_exec ev c)"

definition cluster_read :: "raft_cluster \<Rightarrow> pystr \<Rightarrow> pystr option" where
  "cluster_read c key = (case get_leader c of None \<Rightarrow> None | Some n \<Rightarrow> raft_read n key)"

text \<open>
  \<open>RaftCluster.write\<close>: the append on the leader that was found, and the condition its waiting loop polls.
\<close>

definition cluster_append :: "raft_cluster \<Rightarrow> pystr \<Rightarrow> pystr \<Rightarrow> raft_cluster \<times> bool" where
  "cluster_append c key val =
     (case get_leader c of
        None \<Rightarrow> (c, False)
      | Some n \<Rightarrow>
          (case raft_write (DictCmd [(str ''op'', str ''set''), (str ''key'', key), (str ''value'', val)]) n of
             (n', ok) \<Rightarrow> (put_node (rn_id n) n' c, ok)))"

definition write_done :: "raft_node \<Rightarrow> bool" where
  "write_done leader \<longleftrightarrow> rn_applied leader \<ge> rn_commit leader"

end
