(* ===== verification/Raft_Election.thy ===== *)
theory Raft_Election
  imports Raft
begin

text \<open>
  Elections in \<open>raft.py\<close> under every interleaving of threads, timers and clients: the invariant that ties
  the votes a candidate has counted, or that are on their way, to what the voters remember, and that a
  term has at most one leader.
\<close>

section \<open>What the handlers leave of a node\<close>

text \<open>The parts of a node that elections look at.\<close>

definition same_vote :: "raft_node \<Rightarrow> raft_node \<Rightarrow> bool" where
  "same_vote n n' \<longleftrightarrow> rn_id n' = rn_id n \<and> rn_peers n' = rn_peers n \<and> rn_term n' = rn_term n \<and>
     rn_voted_for n' = rn_voted_for n \<and> rn_role n' = rn_role n \<and> rn_votes n' = rn_votes n"

lemma same_vote_refl [simp]: "same_vote n n"
  by (simp add: same_vote_def)

lemma same_vote_trans: "same_vote a b \<Longrightarrow> same_vote b c \<Longrightarrow> same_vote a c"
  by (simp add: same_vote_def)

lemma same_vote_apply: "same_vote n (fst (apply_committed n))"
proof (induction n rule: apply_committed.induct)
  case (1 n)
  show ?case
  proof (cases "rn_applied n < rn_commit n")
    case True
    then show ?thesis
      using 1 [OF True refl]
      by (subst apply_committed.simps) (auto simp: same_vote_def Let_def split: sum.splits)
  qed (simp add: apply_committed.simps [of n])
qed

lemma same_vote_advance: "same_vote n (fst (advance_from idx n))"
proof (induction idx n rule: advance_from.induct)
  case (1 idx n)
  show ?case using 1 same_vote_apply [of "n\<lparr>rn_commit := idx\<rparr>"]
    by (subst advance_from.simps) (auto simp: same_vote_def split: sum.splits)
qed

text \<open>
  A step of a node: it keeps its vote, or steps down to a term that is higher or, as a candidate, its own.
\<close>

definition steps_down :: "raft_node \<Rightarrow> raft_node \<Rightarrow> bool" where
  "steps_down n n' \<longleftrightarrow> rn_id n' = rn_id n \<and> rn_peers n' = rn_peers n \<and> rn_votes n' = rn_votes n \<and> rn_role n' = FOLLOWER \<and>
     (rn_term n < rn_term n' \<or> rn_term n' = rn_term n \<and> rn_role n = CANDIDATE)"

lemma append_response_vote:
  "same_vote n (fst (handle_append_response p resp n)) \<or> steps_down n (fst (handle_append_response p resp n))"
  using same_vote_advance [of "n\<lparr>rn_match := dict_set p (ar_match resp) (rn_match n), rn_next := dict_set p (ar_match resp + 1) (rn_next n)\<rparr>"
      "length (rn_log n)"]
  by (auto simp: handle_append_response_def advance_commit_index_def become_follower_def same_vote_def steps_down_def)

lemma accept_entries_vote: "same_vote n (fst (accept_entries req n))"
proof -
  obtain lg r where a: "append_entries (aq_entries req) (rn_log n) = (lg, r)" by fastforce
  show ?thesis using same_vote_apply [of "n\<lparr>rn_log := lg, rn_commit := min (aq_commit req) (length lg)\<rparr>"]
    by (auto simp: accept_entries_def a Let_def same_vote_def split: sum.split prod.splits)
qed

lemma steps_down_same: "steps_down a b \<Longrightarrow> same_vote b c \<Longrightarrow> steps_down a c"
  by (simp add: steps_down_def same_vote_def)

lemma append_entries_vote:
  "same_vote n (fst (handle_append_entries req n)) \<or> steps_down n (fst (handle_append_entries req n))"
proof (cases "aq_term req < rn_term n")
  case True
  then show ?thesis by (simp add: handle_append_entries_def)
next
  case False
  define n2 where "n2 = (if aq_term req > rn_term n then become_follower (aq_term req) n else n)\<lparr>rn_leader := Some (aq_leader req)\<rparr>"
  define n3 where "n3 = (if rn_role n2 = CANDIDATE then become_follower (aq_term req) n2 else n2)"
  have "same_vote n n3 \<or> steps_down n n3"
    using False by (auto simp: n3_def n2_def become_follower_def same_vote_def steps_down_def)
  moreover have "fst (handle_append_entries req n) \<in> {n3, n3\<lparr>rn_log := take (aq_prev_index req - 1) (rn_log n3)\<rparr>, fst (accept_entries req n3)}"
    using False by (simp add: handle_append_entries_def Let_def n3_def n2_def become_follower_def)
  then have "same_vote n3 (fst (handle_append_entries req n))"
    using accept_entries_vote [of n3 req] by (auto simp: same_vote_def)
  ultimately show ?thesis using same_vote_trans steps_down_same by blast
qed

section \<open>Votes\<close>

text \<open>The vote of \<open>v\<close> for \<open>a\<close> in a term counts, or is on its way, while \<open>a\<close> is a candidate or leader of the term.\<close>

definition supports :: "raft_cluster \<Rightarrow> pystr \<Rightarrow> nat \<Rightarrow> pystr \<Rightarrow> bool" where
  "supports c v term a \<longleftrightarrow>
     (\<exists>n. dict_get (rc_nodes c) a = Some n \<and> rn_role n \<noteq> FOLLOWER \<and> rn_term n = term \<and>
        (v \<in> set (rn_votes n) \<or> GotVote a \<lparr>vr_term = term, vr_granted = True, vr_voter = v\<rparr> \<in> set (rc_threads c)))"

definition votes_inv :: "raft_cluster \<Rightarrow> bool" where
  "votes_inv c \<longleftrightarrow>
     (\<forall>v term a. supports c v term a \<longrightarrow>
        (\<exists>n. dict_get (rc_nodes c) v = Some n \<and> term \<le> rn_term n \<and> (rn_term n = term \<longrightarrow> rn_voted_for n = Some a))) \<and>
     (\<forall>v term a b. supports c v term a \<and> supports c v term b \<longrightarrow> a = b)"

definition node_inv :: "pystr list \<Rightarrow> pystr \<Rightarrow> raft_node \<Rightarrow> bool" where
  "node_inv ids nid n \<longleftrightarrow> rn_id n = nid \<and> rn_peers n = filter (\<lambda>p. p \<noteq> nid) ids \<and> distinct (rn_votes n) \<and>
     (rn_role n \<noteq> FOLLOWER \<longrightarrow> rn_voted_for n = Some nid) \<and> (rn_role n = LEADER \<longrightarrow> majority n \<le> length (rn_votes n))"

definition thread_inv :: "raft_cluster \<Rightarrow> raft_thread \<Rightarrow> bool" where
  "thread_inv c t =
     (case t of
        SendVote src peer req \<Rightarrow> vq_candidate req = src \<and> (\<exists>n. dict_get (rc_nodes c) src = Some n \<and> vq_term req \<le> rn_term n)
      | GotVote src resp \<Rightarrow> vr_granted resp \<longrightarrow> (\<exists>n. dict_get (rc_nodes c) src = Some n \<and> vr_term resp \<le> rn_term n)
      | _ \<Rightarrow> True)"

definition raft_inv :: "pystr list \<Rightarrow> raft_cluster \<Rightarrow> bool" where
  "raft_inv ids c \<longleftrightarrow> dom (map_of (rc_nodes c)) = set ids \<and>
     (\<forall>nid n. dict_get (rc_nodes c) nid = Some n \<longrightarrow> node_inv ids nid n) \<and>
     (\<forall>t\<in>set (rc_threads c). thread_inv c t) \<and> votes_inv c"

definition quiet :: "raft_thread \<Rightarrow> bool" where
  "quiet t = (case t of SendVote _ _ _ \<Rightarrow> False | GotVote _ resp \<Rightarrow> \<not> vr_granted resp | _ \<Rightarrow> True)"

text \<open>Consequences of the invariant in the form the steps use them.\<close>

lemma raft_invD:
  assumes "raft_inv ids c"
  shows "dict_get (rc_nodes c) nid = Some n \<Longrightarrow> node_inv ids nid n" "t \<in> set (rc_threads c) \<Longrightarrow> thread_inv c t"
    "supports c v tm a \<Longrightarrow> \<exists>n. dict_get (rc_nodes c) v = Some n \<and> tm \<le> rn_term n \<and> (rn_term n = tm \<longrightarrow> rn_voted_for n = Some a)"
    "supports c v tm a \<Longrightarrow> supports c v tm b \<Longrightarrow> a = b"
  using assms unfolding raft_inv_def votes_inv_def by blast+

lemma raft_invI:
  assumes "raft_inv ids c" "dict_get (rc_nodes c) a = Some n" "node_inv ids a n'" "rn_term n \<le> rn_term n'"
    and new: "\<And>t. t \<in> set ts \<Longrightarrow> t \<in> set (rc_threads c) \<or> thread_inv (c\<lparr>rc_nodes := dict_set a n' (rc_nodes c), rc_threads := ts\<rparr>) t"
    and votes: "votes_inv (c\<lparr>rc_nodes := dict_set a n' (rc_nodes c), rc_threads := ts\<rparr>)"
  shows "raft_inv ids (c\<lparr>rc_nodes := dict_set a n' (rc_nodes c), rc_threads := ts\<rparr>)"
proof -
  let ?c = "c\<lparr>rc_nodes := dict_set a n' (rc_nodes c), rc_threads := ts\<rparr>"
  have "thread_inv ?c t" if "thread_inv c t" for t
    using that assms(2,4) by (auto simp: thread_inv_def dict_simps split: raft_thread.splits)
  then have "thread_inv ?c t" if "t \<in> set ts" for t
    using new [OF that] raft_invD(2) [OF assms(1)] by blast
  moreover have "dom (map_of (rc_nodes ?c)) = set ids"
  proof -
    have "map_of (rc_nodes ?c) = (map_of (rc_nodes c))(a \<mapsto> n')" by (rule ext) (simp add: dict_simps)
    then show ?thesis using assms(1,2) by (auto simp: raft_inv_def)
  qed
  moreover have "node_inv ids nid m" if "dict_get (rc_nodes ?c) nid = Some m" for nid m
    using that assms(3) raft_invD(1) [OF assms(1), of nid m] by (auto simp: dict_simps split: if_splits)
  ultimately show ?thesis using votes unfolding raft_inv_def by simp
qed

lemma quiet_inv:
  assumes inv: "raft_inv ids c" and a: "dict_get (rc_nodes c) a = Some n" and n': "same_vote n n' \<or> steps_down n n'"
    and ts: "\<And>t. t \<in> set ts \<Longrightarrow> t \<in> set (rc_threads c) \<or> quiet t"
  shows "raft_inv ids (c\<lparr>rc_nodes := dict_set a n' (rc_nodes c), rc_threads := ts\<rparr>)" (is "raft_inv ids ?c")
proof (rule raft_invI [OF inv a])
  note ni = raft_invD(1) [OF inv a]
  show "node_inv ids a n'" using ni n' by (auto simp: node_inv_def same_vote_def steps_down_def majority_def)
  show "rn_term n \<le> rn_term n'" using n' by (auto simp: same_vote_def steps_down_def)
  show "t \<in> set (rc_threads c) \<or> thread_inv ?c t" if "t \<in> set ts" for t
    using ts [OF that] by (auto simp: quiet_def thread_inv_def split: raft_thread.splits)
  have got: "GotVote b \<lparr>vr_term = tm, vr_granted = True, vr_voter = v\<rparr> \<in> set (rc_threads c)"
    if "GotVote b \<lparr>vr_term = tm, vr_granted = True, vr_voter = v\<rparr> \<in> set ts" for b tm v
    using ts [OF that] by (simp add: quiet_def)
  have sup: "supports c v tm b \<and> (b = a \<longrightarrow> rn_role n' \<noteq> FOLLOWER)" if "supports ?c v tm b" for v tm b
    using that n' a got by (cases "b = a") (auto simp: supports_def dict_simps same_vote_def steps_down_def)
  have "\<exists>m. dict_get (rc_nodes ?c) v = Some m \<and> tm \<le> rn_term m \<and> (rn_term m = tm \<longrightarrow> rn_voted_for m = Some b)"
    if s: "supports ?c v tm b" for v tm b
  proof -
    obtain m where m: "dict_get (rc_nodes c) v = Some m" "tm \<le> rn_term m" "rn_term m = tm \<longrightarrow> rn_voted_for m = Some b"
      using raft_invD(3) [OF inv] sup [OF s] by blast
    show ?thesis
    proof (cases "v = a")
      case True
      then have "m = n" using m(1) a by simp
      then show ?thesis using True m n' sup [OF s] ni
        by (auto simp: dict_simps same_vote_def steps_down_def node_inv_def)
    qed (use m in \<open>simp add: dict_simps\<close>)
  qed
  moreover have "b = d" if "supports ?c v tm b" "supports ?c v tm d" for v tm b d
    using that sup raft_invD(4) [OF inv] by blast
  ultimately show "votes_inv ?c" unfolding votes_inv_def by blast
qed

lemma grant_inv:
  assumes inv: "raft_inv ids c" and a: "dict_get (rc_nodes c) p = Some n"
    and free: "rn_voted_for n = None \<or> rn_voted_for n = Some cand"
    and cand: "dict_get (rc_nodes c) cand = Some m" "rn_term n \<le> rn_term m"
  shows "raft_inv ids (c\<lparr>rc_nodes := dict_set p (n\<lparr>rn_voted_for := Some cand\<rparr>) (rc_nodes c),
    rc_threads := rc_threads c @ [GotVote cand \<lparr>vr_term = rn_term n, vr_granted = True, vr_voter = p\<rparr>]\<rparr>)" (is "raft_inv ids ?c")
proof (rule raft_invI [OF inv a])
  note ni = raft_invD(1) [OF inv a]
  show "node_inv ids p (n\<lparr>rn_voted_for := Some cand\<rparr>)" using ni free by (auto simp: node_inv_def majority_def)
  show "t \<in> set (rc_threads c) \<or> thread_inv ?c t"
    if "t \<in> set (rc_threads c @ [GotVote cand \<lparr>vr_term = rn_term n, vr_granted = True, vr_voter = p\<rparr>])" for t
    using that cand a by (cases "cand = p") (auto simp: thread_inv_def dict_simps)
  have sup: "supports c v tm b \<or> v = p \<and> tm = rn_term n \<and> b = cand" if "supports ?c v tm b" for v tm b
    using that a by (cases "b = p") (auto simp: supports_def dict_simps)
  have voted: "b = cand" if "supports c p (rn_term n) b" for b
    using raft_invD(3) [OF inv that] a free by auto
  have "\<exists>m. dict_get (rc_nodes ?c) v = Some m \<and> tm \<le> rn_term m \<and> (rn_term m = tm \<longrightarrow> rn_voted_for m = Some b)"
    if "supports ?c v tm b" for v tm b
    using sup [OF that]
  proof
    assume s: "supports c v tm b"
    from raft_invD(3) [OF inv s] show ?thesis using voted s a by (cases "v = p") (auto simp: dict_simps)
  qed (simp add: dict_simps)
  moreover have "b = d" if "supports ?c v tm b" "supports ?c v tm d" for v tm b d
    using sup [OF that(1)] sup [OF that(2)] voted raft_invD(4) [OF inv] by blast
  ultimately show "votes_inv ?c" unfolding votes_inv_def by blast
qed simp

lemma elect_inv:
  assumes inv: "raft_inv ids c" and a: "dict_get (rc_nodes c) a = Some n" and e: "start_election n = (n', req)"
  shows "raft_inv ids (c\<lparr>rc_nodes := dict_set a n' (rc_nodes c), rc_threads := rc_threads c @ map (\<lambda>p. SendVote a p req) ps\<rparr>)" (is "raft_inv ids ?c")
proof (rule raft_invI [OF inv a])
  note ni = raft_invD(1) [OF inv a]
  have n': "rn_role n' = CANDIDATE" "rn_term n' = Suc (rn_term n)" "rn_voted_for n' = Some a" "rn_votes n' = [a]"
      "rn_id n' = a" "rn_peers n' = rn_peers n" "vq_term req = Suc (rn_term n)" "vq_candidate req = a"
    using e ni by (auto simp: start_election_def vote_request_of_def Let_def node_inv_def)
  show "node_inv ids a n'" using ni n' by (simp add: node_inv_def)
  show "rn_term n \<le> rn_term n'" using n' by simp
  show "t \<in> set (rc_threads c) \<or> thread_inv ?c t" if "t \<in> set (rc_threads c @ map (\<lambda>p. SendVote a p req) ps)" for t
    using that n' by (auto simp: thread_inv_def dict_simps)
  have late: "GotVote a \<lparr>vr_term = Suc (rn_term n), vr_granted = True, vr_voter = v\<rparr> \<notin> set (rc_threads c)" for v
    using raft_invD(2) [OF inv] a by (fastforce simp: thread_inv_def)
  have sup: "if b = a then v = a \<and> tm = Suc (rn_term n) else supports c v tm b" if "supports ?c v tm b" for v tm b
    using that n' late by (cases "b = a") (auto simp: supports_def dict_simps)
  have old: "tm \<le> rn_term n" if "supports c a tm b" for tm b
    using raft_invD(3) [OF inv that] a by auto
  have "\<exists>m. dict_get (rc_nodes ?c) v = Some m \<and> tm \<le> rn_term m \<and> (rn_term m = tm \<longrightarrow> rn_voted_for m = Some b)"
    if "supports ?c v tm b" for v tm b
  proof (cases "b = a")
    case True
    then show ?thesis using sup [OF that] n' by (simp add: dict_simps)
  next
    case False
    then have s: "supports c v tm b" using sup [OF that] by simp
    from raft_invD(3) [OF inv s] show ?thesis using old [of tm b] s n' by (cases "v = a") (auto simp: dict_simps)
  qed
  moreover have "b = d" if "supports ?c v tm b" "supports ?c v tm d" for v tm b d
  proof (cases "b = a \<or> d = a")
    case True
    then show ?thesis using sup [OF that(1)] sup [OF that(2)] old [of tm] by (auto split: if_splits)
  next
    case False
    then show ?thesis using sup [OF that(1)] sup [OF that(2)] raft_invD(4) [OF inv] by auto
  qed
  ultimately show "votes_inv ?c" unfolding votes_inv_def by blast
qed

lemma rc_swap [simp]: "c\<lparr>rc_threads := ts, rc_nodes := d\<rparr> = c\<lparr>rc_nodes := d, rc_threads := ts\<rparr>"
  by simp

lemma response_inv:
  assumes inv: "raft_inv ids c" and a: "dict_get (rc_nodes c) a = Some n" and t: "GotVote a resp \<in> set (rc_threads c)"
    and ts: "set ts \<subseteq> set (rc_threads c)"
  shows "raft_inv ids (c\<lparr>rc_nodes := dict_set a (handle_vote_response resp n) (rc_nodes c), rc_threads := ts\<rparr>)" (is "raft_inv ids ?c")
proof (cases "rn_role n = CANDIDATE \<and> vr_granted resp \<and> vr_term resp = rn_term n")
  case False
  then have "same_vote n (handle_vote_response resp n) \<or> steps_down n (handle_vote_response resp n)"
    by (auto simp: handle_vote_response_def steps_down_def become_follower_def)
  then show ?thesis by (rule quiet_inv [OF inv a]) (use ts in blast)
next
  case True
  let ?n = "handle_vote_response resp n"
  have r: "resp = \<lparr>vr_term = rn_term n, vr_granted = True, vr_voter = vr_voter resp\<rparr>" using True by simp
  have n': "rn_id ?n = rn_id n" "rn_peers ?n = rn_peers n" "rn_term ?n = rn_term n" "rn_voted_for ?n = rn_voted_for n"
      "rn_votes ?n = List.insert (vr_voter resp) (rn_votes n)" "rn_role ?n \<noteq> FOLLOWER"
      "rn_role ?n = LEADER \<Longrightarrow> majority ?n \<le> length (rn_votes ?n)"
    using True by (auto simp: handle_vote_response_def become_leader_def Let_def majority_def split: if_splits)
  note ni = raft_invD(1) [OF inv a]
  have got: "GotVote a \<lparr>vr_term = rn_term n, vr_granted = True, vr_voter = vr_voter resp\<rparr> \<in> set (rc_threads c)" using t r by metis
  have "supports c v tm b" if "supports ?c v tm b" for v tm b
    using that True a got ts n' by (cases "b = a") (auto simp: supports_def dict_simps)
  then have sup: "supports ?c v tm b \<Longrightarrow> supports c v tm b" for v tm b .
  have "\<exists>m. dict_get (rc_nodes ?c) v = Some m \<and> tm \<le> rn_term m \<and> (rn_term m = tm \<longrightarrow> rn_voted_for m = Some b)"
    if "supports ?c v tm b" for v tm b
    using raft_invD(3) [OF inv sup [OF that]] a n' by (cases "v = a") (auto simp: dict_simps)
  moreover have "b = d" if "supports ?c v tm b" "supports ?c v tm d" for v tm b d
    using that sup raft_invD(4) [OF inv] by blast
  ultimately have "votes_inv ?c" unfolding votes_inv_def by blast
  moreover have "node_inv ids a ?n" using ni n' True by (simp add: node_inv_def)
  ultimately show ?thesis by (intro raft_invI [OF inv a]) (use n'(3) ts in auto)
qed

lemma raft_inv_threads: "raft_inv ids c \<Longrightarrow> set ts \<subseteq> set (rc_threads c) \<union> {t. quiet t} \<Longrightarrow> raft_inv ids (c\<lparr>rc_threads := ts\<rparr>)"
proof -
  assume inv: "raft_inv ids c" and ts: "set ts \<subseteq> set (rc_threads c) \<union> {t. quiet t}"
  have sup: "supports (c\<lparr>rc_threads := ts\<rparr>) v tm a \<Longrightarrow> supports c v tm a" for v tm a
    using ts by (auto simp: supports_def quiet_def)
  have "thread_inv (c\<lparr>rc_threads := ts\<rparr>) t" if "t \<in> set ts" for t
    using that ts raft_invD(2) [OF inv, of t] by (auto simp: quiet_def thread_inv_def split: raft_thread.splits)
  moreover have "votes_inv (c\<lparr>rc_threads := ts\<rparr>)"
    using inv sup unfolding raft_inv_def votes_inv_def by simp blast
  ultimately show ?thesis using inv by (simp add: raft_inv_def)
qed

lemma dict_set_same: "dict_get d k = Some v \<Longrightarrow> dict_set k v d = d"
  by (induction d) auto

lemma vote_request_inv:
  assumes inv: "raft_inv ids c" and t: "SendVote src p req \<in> set (rc_threads c)" and p: "dict_get (rc_nodes c) p = Some n"
    and h: "handle_vote_request req n = (n', resp)" and ts: "set ts \<subseteq> set (rc_threads c)"
  shows "raft_inv ids (c\<lparr>rc_nodes := dict_set p n' (rc_nodes c), rc_threads := ts @ [GotVote src resp]\<rparr>)"
proof -
  define n1 where "n1 = (if vq_term req > rn_term n then become_follower (vq_term req) n else n)"
  have n1: "same_vote n n1 \<or> steps_down n n1" by (auto simp: n1_def become_follower_def steps_down_def)
  show ?thesis
  proof (cases "vr_granted resp")
    case False
    then have "n' = n1" using h by (auto simp: handle_vote_request_def Let_def n1_def split: if_splits)
    then show ?thesis using n1 False ts by (intro quiet_inv [OF inv p]) (auto simp: quiet_def)
  next
    case True
    then have g: "n' = n1\<lparr>rn_voted_for := Some (vq_candidate req)\<rparr>" "\<not> vq_term req < rn_term n1"
        "rn_voted_for n1 = None \<or> rn_voted_for n1 = Some (vq_candidate req)"
        "resp = \<lparr>vr_term = rn_term n1, vr_granted = True, vr_voter = rn_id n1\<rparr>"
      using h by (auto simp: handle_vote_request_def Let_def n1_def split: if_splits)
    have tm: "rn_term n1 = vq_term req" using g(2) by (auto simp: n1_def become_follower_def split: if_splits)
    have id: "rn_id n1 = p" using raft_invD(1) [OF inv p] n1 by (auto simp: node_inv_def same_vote_def steps_down_def)
    let ?c = "c\<lparr>rc_nodes := dict_set p n1 (rc_nodes c), rc_threads := ts\<rparr>"
    have inv1: "raft_inv ids ?c" using n1 ts by (intro quiet_inv [OF inv p]) auto
    have cand: "vq_candidate req = src" "\<exists>m. dict_get (rc_nodes ?c) src = Some m \<and> vq_term req \<le> rn_term m"
      using raft_invD(2) [OF inv t] p n1 tm by (auto simp: thread_inv_def dict_simps)
    then obtain m where m: "dict_get (rc_nodes ?c) src = Some m" "rn_term n1 \<le> rn_term m" using tm by auto
    have "dict_get (rc_nodes ?c) p = Some n1" by (simp add: dict_simps)
    from grant_inv [OF inv1 this _ m] g(3) cand(1)
    show ?thesis by (simp add: g(1,4) id cand(1) update_last)
  qed
qed

lemma run_thread_inv:
  assumes inv: "raft_inv ids c" and t: "t \<in> set (rc_threads c)" and ts: "set ts \<subseteq> set (rc_threads c)"
  shows "raft_inv ids (run_thread t (c\<lparr>rc_threads := ts\<rparr>))"
proof -
  have keep: "raft_inv ids (c\<lparr>rc_threads := ts\<rparr>)" by (rule raft_inv_threads [OF inv]) (use ts in blast)
  show ?thesis
  proof (cases t)
    case (SendVote src p req)
    show ?thesis
    proof (cases "dict_get (rc_nodes c) p")
      case (Some n)
      obtain n' resp where h: "handle_vote_request req n = (n', resp)" by fastforce
      show ?thesis using vote_request_inv [OF inv t [unfolded SendVote] Some h ts] SendVote Some h
        by (simp add: thread_defs spawn_def put_node_def)
    qed (use keep SendVote in \<open>simp add: thread_defs\<close>)
  next
    case (GotVote src resp)
    then show ?thesis using keep response_inv [OF inv _ t [unfolded GotVote] ts]
      by (cases "dict_get (rc_nodes c) src") (auto simp: thread_defs put_node_def)
  next
    case (SendAppend src p)
    have "raft_inv ids (c\<lparr>rc_threads := ts @ [CallAppend src p req]\<rparr>)" for req
      by (rule raft_inv_threads [OF inv]) (use ts in \<open>auto simp: quiet_def\<close>)
    then show ?thesis using keep SendAppend by (simp add: thread_defs spawn_def split: option.split)
  next
    case (CallAppend src p req)
    show ?thesis
    proof (cases "dict_get (rc_nodes c) p")
      case (Some n)
      have "raft_inv ids (c\<lparr>rc_nodes := dict_set p (fst (handle_append_entries req n)) (rc_nodes c), rc_threads := us\<rparr>)"
        if "set us \<subseteq> set ts \<union> {t. quiet t}" for us
        by (rule quiet_inv [OF inv Some append_entries_vote]) (use that ts in blast)
      from this [of ts] this [of "ts @ [GotAppend src p r]" for r] show ?thesis using CallAppend Some
        by (simp add: thread_defs put_node_def spawn_def quiet_def case_prod_beta subset_insertI2 split: sum.split)
    qed (use keep CallAppend in \<open>simp add: thread_defs\<close>)
  next
    case (GotAppend src p resp)
    have "raft_inv ids (c\<lparr>rc_nodes := dict_set src (fst (handle_append_response p resp n)) (rc_nodes c), rc_threads := ts\<rparr>)"
      if "dict_get (rc_nodes c) src = Some n" for n
      by (rule quiet_inv [OF inv that append_response_vote]) (use ts in blast)
    then show ?thesis using keep GotAppend by (simp add: thread_defs put_node_def split: option.split)
  qed
qed

lemma raft_exec_inv:
  assumes inv: "raft_inv ids c"
  shows "raft_inv ids (raft_exec ev c)"
proof (cases ev)
  case (Timeout nid)
  show ?thesis
  proof (cases "dict_get (rc_nodes c) nid")
    case (Some n)
    obtain n' req where e: "start_election n = (n', req)" by fastforce
    show ?thesis using inv elect_inv [OF inv Some e, of "rn_peers n"] Timeout Some e
      by (simp add: event_defs put_node_def spawn_def)
  qed (use inv Timeout in \<open>simp add: event_defs\<close>)
next
  case (Heartbeat nid)
  have "raft_inv ids (spawn (map (SendAppend nid) ps) c)" for ps
    unfolding spawn_def by (rule raft_inv_threads [OF inv]) (auto simp: quiet_def)
  then show ?thesis using inv Heartbeat by (simp add: event_defs split: option.splits)
next
  case (Write nid cmd)
  have "same_vote n (fst (raft_write cmd n))" for n by (simp add: raft_write_def same_vote_def)
  then show ?thesis using inv Write quiet_inv [OF inv, of nid _ _ "rc_threads c"]
    by (cases "dict_get (rc_nodes c) nid") (auto simp: event_defs put_node_def)
next
  case (Run k)
  have "raft_inv ids (run_thread (rc_threads c ! k) (c\<lparr>rc_threads := take k (rc_threads c) @ drop (Suc k) (rc_threads c)\<rparr>))"
    if "k < length (rc_threads c)"
    by (rule run_thread_inv [OF inv]) (use that in \<open>auto dest: in_set_takeD in_set_dropD\<close>)
  then show ?thesis using inv Run by (simp add: event_defs)
qed

lemma new_nodes:
  "dict_get (fold (\<lambda>nid d. dict_set nid (f nid) d) ids d) a = (if a \<in> set ids then Some (f a) else dict_get d a)"
  by (induction ids arbitrary: d) (auto simp: dict_simps)

lemma raft_new_inv: "raft_inv ids (raft_cluster_new ids)"
proof -
  have "dict_get (rc_nodes (raft_cluster_new ids)) a = (if a \<in> set ids then Some (raft_node_new a (filter (\<lambda>p. p \<noteq> a) ids)) else None)" for a
    by (simp add: raft_cluster_new_def new_nodes)
  moreover have "rc_threads (raft_cluster_new ids) = []" by (simp add: raft_cluster_new_def)
  ultimately show ?thesis
    by (auto simp: raft_inv_def votes_inv_def supports_def node_inv_def raft_node_new_def dom_def split: if_splits)
qed

lemma raft_reach_inv: "raft_reach ids c \<Longrightarrow> raft_inv ids c"
  by (induction rule: raft_reach.induct) (simp_all add: raft_new_inv raft_exec_inv)

lemma majorities_meet:
  assumes "distinct ids" "A \<subseteq> set ids" "B \<subseteq> set ids" "length ids < 2 * card A" "length ids < 2 * card B"
  shows "\<exists>v. v \<in> A \<and> v \<in> B"
proof (rule ccontr)
  assume "\<not> ?thesis"
  then have "A \<inter> B = {}" by blast
  then have "card (A \<union> B) = card A + card B"
    by (rule card_Un_disjoint [rotated 2]) (use assms(2,3) finite_subset in auto)
  moreover have "card (A \<union> B) \<le> card (set ids)" by (rule card_mono) (use assms in auto)
  ultimately show False using assms by (simp add: distinct_card)
qed

lemma leader_votes:
  assumes "raft_inv ids c" "distinct ids" "dict_get (rc_nodes c) a = Some n" "rn_role n = LEADER"
  shows "set (rn_votes n) \<subseteq> set ids" "length ids < 2 * card (set (rn_votes n))"
proof -
  note ni = raft_invD(1) [OF assms(1,3)]
  have dm: "dom (map_of (rc_nodes c)) = set ids" using assms(1) by (simp add: raft_inv_def)
  then have a_in: "a \<in> set ids" using assms(3) by auto
  have "filter (\<lambda>p. p \<noteq> a) ids = remove1 a ids"
    using assms(2) by (simp add: distinct_remove1_removeAll removeAll_filter_not_eq eq_commute)
  moreover have "0 < length ids" using a_in by (rule length_pos_if_in_set)
  ultimately have "Suc (length (rn_peers n)) = length ids" using ni a_in by (simp add: node_inv_def length_remove1)
  then show "length ids < 2 * card (set (rn_votes n))"
    using ni assms(4) by (auto simp: node_inv_def distinct_card majority_def)
  show "set (rn_votes n) \<subseteq> set ids"
  proof
    fix v
    assume "v \<in> set (rn_votes n)"
    then have "supports c v (rn_term n) a" using assms(3,4) by (auto simp: supports_def)
    from raft_invD(3) [OF assms(1) this] show "v \<in> set ids" using dm by auto
  qed
qed

text \<open>
  (C7) Election safety: in every state a cluster of different nodes reaches, whatever the order of timers,
  client writes and the sections of the threads, two nodes that are leaders of the same term are the same
  node. A candidate that hears of a leader of its own term forgets its vote and may vote again, but it has
  given up its candidacy by then, so no vote counts twice.
\<close>

theorem election_safety:
  assumes "distinct ids" "raft_reach ids c"
    and "dict_get (rc_nodes c) a = Some m" "rn_role m = LEADER"
    and "dict_get (rc_nodes c) b = Some n" "rn_role n = LEADER" "rn_term m = rn_term n"
  shows "a = b"
proof -
  note inv = raft_reach_inv [OF assms(2)]
  obtain v where v: "v \<in> set (rn_votes m)" "v \<in> set (rn_votes n)"
    using majorities_meet [OF assms(1) leader_votes(1) [OF inv assms(1,3,4)] leader_votes(1) [OF inv assms(1,5,6)]
        leader_votes(2) [OF inv assms(1,3,4)] leader_votes(2) [OF inv assms(1,5,6)]] by blast
  then have "supports c v (rn_term m) a" "supports c v (rn_term m) b" using assms(3-7) by (auto simp: supports_def)
  then show ?thesis by (rule raft_invD(4) [OF inv])
qed

end
