(* ===== verification/Raft_Runs.thy ===== *)
theory Raft_Runs
  imports Raft_Election
begin

text \<open>
  Concrete runs of a cluster of three nodes of \<open>raft.py\<close>: two leaders of different terms at once, and a
  commit that no majority holds.
\<close>

definition set_cmd :: "string \<Rightarrow> string \<Rightarrow> command" where
  "set_cmd k v = DictCmd [(str ''op'', str ''set''), (str ''key'', str k), (str ''value'', str v)]"

definition trio :: "pystr list" where
  "trio = [str ''A'', str ''B'', str ''C'']"

definition two_leaders :: "raft_event list" where
  "two_leaders =
     [Timeout (str ''A''), Run 0, Run 1, Write (str ''A'') (set_cmd ''k'' ''x''),
      Timeout (str ''B''), Run 2, Run 2]"

definition false_commit :: "raft_event list" where
  "false_commit =
     two_leaders @
     [Heartbeat (str ''B''), Run 2, Run 3, Write (str ''B'') (set_cmd ''k'' ''y''), Run 3,
      Timeout (str ''A''), Run 4, Run 4, Write (str ''A'') (set_cmd ''l'' ''z''),
      Heartbeat (str ''A''), Run 5, Run 5, Run 5, Heartbeat (str ''A''), Run 6, Run 6, Run 6]"

lemma raft_reach_fold: "raft_reach ids c \<Longrightarrow> raft_reach ids (fold raft_exec evs c)"
  by (induction evs arbitrary: c) (auto intro: raft_next)

theorem election_safety_witness:
  "let c = fold raft_exec two_leaders (raft_cluster_new trio) in
   distinct trio \<and> raft_reach trio c \<and>
   (\<exists>m n. dict_get (rc_nodes c) (str ''A'') = Some m \<and> rn_role m = LEADER \<and> rn_term m = 1 \<and>
      dict_get (rc_nodes c) (str ''B'') = Some n \<and> rn_role n = LEADER \<and> rn_term n = 2 \<and>
      (\<forall>b l. dict_get (rc_nodes c) b = Some l \<and> rn_role l = LEADER \<and> rn_term m = rn_term l \<longrightarrow> str ''A'' = b))"
proof -
  let ?c = "fold raft_exec two_leaders (raft_cluster_new trio)"
  have d: "distinct trio" by code_simp
  have r: "raft_reach trio ?c" by (intro raft_reach_fold raft_start)
  have "map_option (\<lambda>n. (rn_role n, rn_term n)) (dict_get (rc_nodes ?c) (str ''A'')) = Some (LEADER, 1)"
    "map_option (\<lambda>n. (rn_role n, rn_term n)) (dict_get (rc_nodes ?c) (str ''B'')) = Some (LEADER, 2)" by code_simp+
  then obtain m n where "dict_get (rc_nodes ?c) (str ''A'') = Some m" "rn_role m = LEADER" "rn_term m = 1"
      "dict_get (rc_nodes ?c) (str ''B'') = Some n" "rn_role n = LEADER" "rn_term n = 2" by auto
  moreover from election_safety [OF d r this(1,2)]
  have "\<forall>b l. dict_get (rc_nodes ?c) b = Some l \<and> rn_role l = LEADER \<and> rn_term m = rn_term l \<longrightarrow> str ''A'' = b" by blast
  ultimately show ?thesis using d r unfolding Let_def by blast
qed

text \<open>The run before the last election: \<open>B\<close> has committed its first entry, which no other node has.\<close>

lemma commit_on_one_node:
  "let c = fold raft_exec (take 12 false_commit) (raft_cluster_new trio) in
   map (\<lambda>(nid, n). (nid, map le_command (rn_log n), rn_commit n)) (rc_nodes c) =
   [(str ''A'', [set_cmd ''k'' ''x''], 0), (str ''B'', [set_cmd ''k'' ''y''], 1), (str ''C'', [], 0)]"
  by code_simp


text \<open>The condition \<open>RaftCluster.write\<close> waits for holds as soon as the entry is appended.\<close>

lemma write_returns_early:
  assumes "write_done n" "rn_role n = LEADER" "rn_commit n \<le> length (rn_log n)"
  shows "write_done (fst (raft_write cmd n)) \<and> rn_commit (fst (raft_write cmd n)) < length (rn_log (fst (raft_write cmd n)))"
  using assms by (simp add: write_done_def raft_write_def)

end
