(* ===== verification/Py_Sha.thy ===== *)
theory Py_Sha
  imports Py_Hash
begin

text \<open>
  \<open>hashlib.pbkdf2_hmac("sha256", ...)\<close> with a key of 32 bytes: SHA-256 (FIPS 180-4) on numbers below
  \<open>2 ^ 32\<close>, HMAC (RFC 2104) and PBKDF2 (RFC 8018).
\<close>

type_synonym sha_state = "nat \<times> nat \<times> nat \<times> nat \<times> nat \<times> nat \<times> nat \<times> nat"

definition be_bytes :: "nat \<Rightarrow> nat \<Rightarrow> bytes" where
  "be_bytes w n = rev (le_bytes w n)"

definition sha_pad :: "bytes \<Rightarrow> bytes" where
  "sha_pad data =
     (let n = length data in data @ 0x80 # replicate ((119 - n mod 64) mod 64) 0 @ be_bytes 8 (8 * n))"

fun be_words :: "bytes \<Rightarrow> nat list" where
  "be_words (a # b # c # d # bs) = (d + 256 * (c + 256 * (b + 256 * a))) # be_words bs"
| "be_words _ = []"

definition rotr32 :: "nat \<Rightarrow> nat \<Rightarrow> nat" where
  "rotr32 s x = (x * 2 ^ (32 - s)) mod 2 ^ 32 + x div 2 ^ s"

text \<open>
  The words of the standard are the first 32 bits after the point of the roots of the first primes:
  square roots for the initial state, cube roots for the rounds. \<open>root_bits\<close> is the integer root, found bit
  by bit from the highest.
\<close>

function root_bits :: "nat \<Rightarrow> nat \<Rightarrow> nat \<Rightarrow> nat \<Rightarrow> nat" where
  "root_bits k n i r =
     (if i = 0 then r else root_bits k n (i - 1) (if (r + 2 ^ (i - 1)) ^ k \<le> n then r + 2 ^ (i - 1) else r))"
  by pat_completeness auto
termination by (relation "measure (\<lambda>(k, n, i, r). i)") auto

declare root_bits.simps [simp del]

definition root_word :: "nat \<Rightarrow> nat \<Rightarrow> nat" where
  "root_word k p = root_bits k (p * 2 ^ (32 * k)) 35 0 mod 2 ^ 32"

definition primes64 :: "nat list" where
  "primes64 =
     [2, 3, 5, 7, 11, 13, 17, 19, 23, 29, 31, 37, 41, 43, 47, 53, 59, 61, 67, 71, 73, 79, 83, 89, 97, 101, 103, 107,
      109, 113, 127, 131, 137, 139, 149, 151, 157, 163, 167, 173, 179, 181, 191, 193, 197, 199, 211, 223, 227, 229,
      233, 239, 241, 251, 257, 263, 269, 271, 277, 281, 283, 293, 307, 311]"

definition sha_constants :: "nat list" where
  "sha_constants = map (root_word 3) primes64"

definition sha_init :: sha_state where
  "sha_init =
     (root_word 2 2, root_word 2 3, root_word 2 5, root_word 2 7, root_word 2 11, root_word 2 13, root_word 2 17, root_word 2 19)"

definition sha_sum1 :: "nat \<Rightarrow> nat" where
  "sha_sum1 e = rotr32 6 e XOR rotr32 11 e XOR rotr32 25 e"

definition sha_sum0 :: "nat \<Rightarrow> nat" where
  "sha_sum0 a = rotr32 2 a XOR rotr32 13 a XOR rotr32 22 a"

definition sha_mix :: "nat \<Rightarrow> nat \<Rightarrow> nat \<Rightarrow> nat \<Rightarrow> nat" where
  "sha_mix a b c t1 = (t1 + sha_sum0 a + ((a AND b) XOR (a AND c) XOR (b AND c))) mod 2 ^ 32"

text \<open>The next word of the message schedule, after the sixteen before it.\<close>

definition sha_next :: "nat list \<Rightarrow> nat" where
  "sha_next w =
     (w ! 0 + (rotr32 7 (w ! 1) XOR rotr32 18 (w ! 1) XOR (w ! 1 div 2 ^ 3)) + w ! 9 +
      (rotr32 17 (w ! 14) XOR rotr32 19 (w ! 14) XOR (w ! 14 div 2 ^ 10))) mod 2 ^ 32"

definition sha_shift :: "nat \<Rightarrow> nat \<Rightarrow> nat \<Rightarrow> nat \<Rightarrow> nat \<Rightarrow> nat \<Rightarrow> nat \<Rightarrow> nat \<Rightarrow> sha_state" where
  "sha_shift a b c d e f g t1 = (sha_mix a b c t1, a, b, c, add32 d t1, e, f, g)"

text \<open>The rounds, with the next sixteen words of the message schedule.\<close>

fun sha_rounds :: "nat list \<Rightarrow> nat list \<Rightarrow> sha_state \<Rightarrow> sha_state" where
  "sha_rounds [] w st = st"
| "sha_rounds (k # ks) w (a, b, c, d, e, f, g, h) =
     sha_rounds ks (tl w @ [sha_next w])
       (sha_shift a b c d e f g ((h + sha_sum1 e + ((e AND f) XOR (not32 e AND g)) + k + hd w) mod 2 ^ 32))"

definition sha_block :: "nat list \<Rightarrow> sha_state \<Rightarrow> sha_state" where
  "sha_block w st =
     (case st of (a, b, c, d, e, f, g, h) \<Rightarrow>
      case sha_rounds sha_constants w st of (a', b', c', d', e', f', g', h') \<Rightarrow>
        (add32 a a', add32 b b', add32 c c', add32 d d', add32 e e', add32 f f', add32 g g', add32 h h'))"

fun sha_blocks :: "nat list \<Rightarrow> sha_state \<Rightarrow> sha_state" where
  "sha_blocks [] st = st"
| "sha_blocks (w # ws) st = sha_blocks (drop 15 ws) (sha_block (w # take 15 ws) st)"

definition sha256 :: "bytes \<Rightarrow> bytes" where
  "sha256 data =
     (case sha_blocks (be_words (sha_pad data)) sha_init of
        (a, b, c, d, e, f, g, h) \<Rightarrow> concat (map (be_bytes 4) [a, b, c, d, e, f, g, h]))"

definition xor_bytes :: "bytes \<Rightarrow> bytes \<Rightarrow> bytes" where
  "xor_bytes xs ys = map (\<lambda>(x, y). x XOR y) (zip xs ys)"

definition hmac_sha256 :: "bytes \<Rightarrow> bytes \<Rightarrow> bytes" where
  "hmac_sha256 key msg =
     (let k0 = (if length key > 64 then sha256 key else key);
          k = k0 @ replicate (64 - length k0) 0 in
      sha256 (map (\<lambda>b. b XOR 0x5c) k @ sha256 (map (\<lambda>b. b XOR 0x36) k @ msg)))"

function pbkdf2_loop :: "nat \<Rightarrow> bytes \<Rightarrow> bytes \<Rightarrow> bytes \<Rightarrow> bytes" where
  "pbkdf2_loop n password u acc =
     (if n = 0 then acc
      else let u' = hmac_sha256 password u in pbkdf2_loop (n - 1) password u' (xor_bytes acc u'))"
  by pat_completeness auto
termination by (relation "measure (\<lambda>(n, _, _, _). n)") auto

declare pbkdf2_loop.simps [simp del]

definition pbkdf2_sha256 :: "bytes \<Rightarrow> bytes \<Rightarrow> nat \<Rightarrow> bytes" where
  "pbkdf2_sha256 password salt iterations =
     (let u = hmac_sha256 password (salt @ be_bytes 4 1) in pbkdf2_loop (iterations - 1) password u u)"

section \<open>The roots\<close>

lemma root_bits_spec:
  assumes "r ^ k \<le> n" "n < (r + 2 ^ i) ^ k"
  shows "root_bits k n i r ^ k \<le> n \<and> n < (root_bits k n i r + 1) ^ k"
  using assms
proof (induction i arbitrary: r)
  case 0
  then show ?case by (simp add: root_bits.simps)
next
  case (Suc i)
  let ?r = "if (r + 2 ^ i) ^ k \<le> n then r + 2 ^ i else r"
  have "r + 2 ^ Suc i = r + 2 ^ i + 2 ^ i" by simp
  then have "?r ^ k \<le> n" "n < (?r + 2 ^ i) ^ k" using Suc.prems by (simp_all only: split: if_split) auto
  from Suc.IH [OF this] show ?case by (simp add: root_bits.simps [of k n "Suc i"] split: if_split_asm)
qed

text \<open>For a prime of the list the root is the largest integer below the root times \<open>2 ^ 32\<close>.\<close>

lemma root_word_spec:
  assumes "0 < k" "p < 2 ^ (3 * k)"
  defines "r \<equiv> root_bits k (p * 2 ^ (32 * k)) 35 0"
  shows "r ^ k \<le> p * 2 ^ (32 * k) \<and> p * 2 ^ (32 * k) < (r + 1) ^ k"
proof -
  have "p * 2 ^ (32 * k) < (0 + 2 ^ 35) ^ k"
  proof -
    have "p * 2 ^ (32 * k) < 2 ^ (3 * k) * 2 ^ (32 * k)" using assms(2) by simp
    also have "\<dots> = (2 ^ 35) ^ k" by (simp only: flip: power_add power_mult) simp
    finally show ?thesis by simp
  qed
  moreover have "0 ^ k \<le> p * 2 ^ (32 * k)" using assms(1) by (cases k) auto
  ultimately show ?thesis unfolding r_def by (intro root_bits_spec) simp_all
qed

section \<open>The digests\<close>

lemma length_sha256 [simp]: "length (sha256 data) = 32"
  by (simp add: sha256_def be_bytes_def le_bytes_def split: prod.split)

lemma length_pbkdf2 [simp]: "length (pbkdf2_sha256 password salt n) = 32"
proof -
  have "length u = 32 \<Longrightarrow> length acc = 32 \<Longrightarrow> length (pbkdf2_loop n password u acc) = 32" for n u acc
  proof (induction n arbitrary: u acc)
    case (Suc n)
    then show ?case by (subst pbkdf2_loop.simps) (simp add: Let_def xor_bytes_def hmac_sha256_def)
  qed (simp add: pbkdf2_loop.simps)
  then show ?thesis by (simp add: pbkdf2_sha256_def Let_def hmac_sha256_def)
qed

text \<open>The digest of \<open>abc\<close> in the examples of FIPS 180-4.\<close>

lemmas sha_eval = sha256_def sha_block_def sha_shift_def sha_mix_def sha_sum0_def sha_sum1_def sha_next_def sha_constants_def sha_pad_def be_bytes_def rotr32_def not32_def add32_def
  sha_init_def root_word_def primes64_def root_bits.simps le_bytes_def upt_4_8 replicate_numeral_Cons Let_def unpack_be_def

lemma sha256_check_value:
  "unpack_be (sha256 (str ''abc'')) = 0xba7816bf8f01cfea414140de5dae2223b00361a396177a9cb410ff61f20015ad"
  by (simp add: sha_eval str_def)

end
