(* ===== verification/Auth.thy ===== *)
theory Auth
  imports Complex_Main Py_Sha Py_Text
begin

text \<open>
  Users, roles and logins of \<open>auth_pool.py\<close>. Clock readings and random bytes are arguments. A method that
  changes the manager before it raises returns the changed manager with the error.
\<close>

section \<open>Passwords\<close>

definition hash_password :: "pystr \<Rightarrow> bytes \<Rightarrow> (bytes \<times> bytes) result" where
  "hash_password password salt = bindE (utf8_encode password) (\<lambda>pw. Inr (salt, pbkdf2_sha256 pw salt 260000))"

definition verify_password :: "pystr \<Rightarrow> bytes \<Rightarrow> bytes \<Rightarrow> bool result" where
  "verify_password password salt stored = bindE (hash_password password salt) (\<lambda>(_, computed). Inr (computed = stored))"

section \<open>Roles and users\<close>

datatype permission = P_SELECT | P_INSERT | P_UPDATE | P_DELETE | P_CREATE | P_DROP | P_ADMIN

datatype user_role = SUPERUSER | READ_WRITE | READ_ONLY | NO_ACCESS

definition ROLE_PERMISSIONS :: "user_role \<Rightarrow> permission list" where
  "ROLE_PERMISSIONS r =
     (case r of
        SUPERUSER \<Rightarrow> [P_SELECT, P_INSERT, P_UPDATE, P_DELETE, P_CREATE, P_DROP, P_ADMIN]
      | READ_WRITE \<Rightarrow> [P_SELECT, P_INSERT, P_UPDATE, P_DELETE]
      | READ_ONLY \<Rightarrow> [P_SELECT]
      | NO_ACCESS \<Rightarrow> [])"

definition perm_name :: "permission \<Rightarrow> pystr" where
  "perm_name p = str (case p of P_SELECT \<Rightarrow> ''SELECT'' | P_INSERT \<Rightarrow> ''INSERT'' | P_UPDATE \<Rightarrow> ''UPDATE''
     | P_DELETE \<Rightarrow> ''DELETE'' | P_CREATE \<Rightarrow> ''CREATE'' | P_DROP \<Rightarrow> ''DROP'' | P_ADMIN \<Rightarrow> ''ADMIN'')"

definition role_value :: "user_role \<Rightarrow> pystr" where
  "role_value r = str (case r of SUPERUSER \<Rightarrow> ''SUPERUSER'' | READ_WRITE \<Rightarrow> ''READ_WRITE'' | READ_ONLY \<Rightarrow> ''READ_ONLY''
     | NO_ACCESS \<Rightarrow> ''NO_ACCESS'')"

record user =
  us_name :: pystr
  us_salt :: bytes
  us_hash :: bytes
  us_role :: user_role
  us_created :: rat
  us_last_login :: "rat option"
  us_attempts :: nat
  us_locked :: bool

definition has_permission :: "permission \<Rightarrow> user \<Rightarrow> bool" where
  "has_permission p u = (if us_locked u then False else p \<in> set (ROLE_PERMISSIONS (us_role u)))"

section \<open>The manager\<close>

record audit_entry =
  ad_time :: rat
  ad_event :: pystr
  ad_user :: pystr
  ad_success :: bool
  ad_reason :: pystr
  ad_extra :: "(pystr, pystr) dict"

record auth =
  au_users :: "(pystr, user) dict"
  au_audit :: "audit_entry list"

definition MAX_LOGIN_ATTEMPTS :: nat where
  "MAX_LOGIN_ATTEMPTS = 5"

definition auth_new :: auth where
  "auth_new = \<lparr>au_users = [], au_audit = []\<rparr>"

definition audit :: "rat \<Rightarrow> string \<Rightarrow> pystr \<Rightarrow> bool \<Rightarrow> pystr \<Rightarrow> (pystr, pystr) dict \<Rightarrow> auth \<Rightarrow> auth" where
  "audit now event name ok reason extra m =
     m\<lparr>au_audit := au_audit m @ [\<lparr>ad_time = now, ad_event = str event, ad_user = name, ad_success = ok, ad_reason = reason, ad_extra = extra\<rparr>]\<rparr>"

definition put_user :: "pystr \<Rightarrow> user \<Rightarrow> auth \<Rightarrow> auth" where
  "put_user name u m = m\<lparr>au_users := dict_set name u (au_users m)\<rparr>"

definition create_user :: "rat \<Rightarrow> bytes \<Rightarrow> pystr \<Rightarrow> pystr \<Rightarrow> user_role \<Rightarrow> auth \<Rightarrow> auth \<times> user result" where
  "create_user now salt name password r m =
     (if dict_get (au_users m) name \<noteq> None then (m, Inl AuthErr)
      else if length password < 8 then (m, Inl AuthErr)
      else case hash_password password salt of
        Inl e \<Rightarrow> (m, Inl e)
      | Inr (s, h) \<Rightarrow>
          let u = \<lparr>us_name = name, us_salt = s, us_hash = h, us_role = r, us_created = now, us_last_login = None,
                   us_attempts = 0, us_locked = False\<rparr>
          in (audit now ''CREATE_USER'' name True [] [] (put_user name u m), Inr u))"

definition failure_reason :: "user \<Rightarrow> pystr" where
  "failure_reason u =
     (if us_attempts u \<ge> MAX_LOGIN_ATTEMPTS then str ''too_many_failures ('' @ str_of_nat (us_attempts u) @ str '')''
      else str ''bad_password (attempt '' @ str_of_nat (us_attempts u) @ str '')'')"

definition login_failed :: "rat \<Rightarrow> pystr \<Rightarrow> user \<Rightarrow> auth \<Rightarrow> auth" where
  "login_failed now name u m =
     (let u1 = u\<lparr>us_attempts := us_attempts u + 1\<rparr> in
      if us_attempts u1 \<ge> MAX_LOGIN_ATTEMPTS
      then audit now ''ACCOUNT_LOCKED'' name False (failure_reason u1) [] (put_user name (u1\<lparr>us_locked := True\<rparr>) m)
      else audit now ''LOGIN_FAILED'' name False (failure_reason u1) [] (put_user name u1 m))"

text \<open>\<open>rnd\<close> are the random salt and hash of the dummy check for an unknown name.\<close>

definition authenticate :: "rat \<Rightarrow> bytes \<times> bytes \<Rightarrow> pystr \<Rightarrow> pystr \<Rightarrow> auth \<Rightarrow> auth \<times> user result" where
  "authenticate now rnd name password m =
     (case dict_get (au_users m) name of
        None \<Rightarrow>
          (audit now ''LOGIN_FAILED'' name False (str ''user_not_found'') [] m,
           bindE (verify_password password (fst rnd) (snd rnd)) (\<lambda>_. Inl AuthErr))
      | Some u \<Rightarrow>
          if us_locked u then (audit now ''LOGIN_BLOCKED'' name False (str ''account_locked'') [] m, Inl AuthErr)
          else case verify_password password (us_salt u) (us_hash u) of
            Inl e \<Rightarrow> (m, Inl e)
          | Inr ok \<Rightarrow>
              if \<not> ok then (login_failed now name u m, Inl AuthErr)
              else let u' = u\<lparr>us_attempts := 0, us_last_login := Some now\<rparr>
                   in (audit now ''LOGIN_OK'' name True [] [] (put_user name u' m), Inr u'))"

definition change_password :: "rat \<Rightarrow> bytes \<times> bytes \<Rightarrow> bytes \<Rightarrow> pystr \<Rightarrow> pystr \<Rightarrow> pystr \<Rightarrow> auth \<Rightarrow> auth \<times> unit result" where
  "change_password now rnd salt name old new m =
     (case authenticate now rnd name old m of
        (m1, Inl e) \<Rightarrow> (m1, Inl e)
      | (m1, Inr u) \<Rightarrow>
          if length new < 8 then (m1, Inl AuthErr)
          else case hash_password new salt of
            Inl e \<Rightarrow> (m1, Inl e)
          | Inr (s, h) \<Rightarrow>
              (audit now ''PASSWORD_CHANGED'' name True [] [] (put_user name (u\<lparr>us_salt := s, us_hash := h\<rparr>) m1), Inr ()))"

definition set_role :: "rat \<Rightarrow> user \<Rightarrow> pystr \<Rightarrow> user_role \<Rightarrow> auth \<Rightarrow> auth \<times> unit result" where
  "set_role now admin target r m =
     (if \<not> has_permission P_ADMIN admin then (m, Inl AuthErr)
      else case dict_get (au_users m) target of
        None \<Rightarrow> (m, Inl AuthErr)
      | Some u \<Rightarrow>
          (audit now ''ROLE_CHANGED'' target True [] [(str ''new_role'', role_value r), (str ''by'', us_name admin)]
             (put_user target (u\<lparr>us_role := r\<rparr>) m), Inr ()))"

definition unlock_user :: "rat \<Rightarrow> user \<Rightarrow> pystr \<Rightarrow> auth \<Rightarrow> auth \<times> unit result" where
  "unlock_user now admin target m =
     (if \<not> has_permission P_ADMIN admin then (m, Inl AuthErr)
      else case dict_get (au_users m) target of
        None \<Rightarrow> (m, Inr ())
      | Some u \<Rightarrow>
          (audit now ''ACCOUNT_UNLOCKED'' target True [] [] (put_user target (u\<lparr>us_locked := False, us_attempts := 0\<rparr>) m), Inr ()))"

definition check_permission :: "rat \<Rightarrow> user \<Rightarrow> permission \<Rightarrow> pystr \<Rightarrow> auth \<Rightarrow> auth \<times> unit result" where
  "check_permission now u p resource m =
     (let extra = [(str ''permission'', perm_name p), (str ''resource'', resource)] in
      if \<not> has_permission p u then (audit now ''PERMISSION_DENIED'' (us_name u) False [] extra m, Inl AuthErr)
      else (audit now ''PERMISSION_GRANTED'' (us_name u) True [] extra m, Inr ()))"

text \<open>\<open>log[-limit:]\<close>: all entries for 0, none of the first ones for a negative limit.\<close>

definition get_audit_log :: "int \<Rightarrow> auth \<Rightarrow> audit_entry list" where
  "get_audit_log bound m =
     (if bound > 0 then drop (length (au_audit m) - nat bound) (au_audit m) else drop (nat (- bound)) (au_audit m))"

definition list_users :: "auth \<Rightarrow> (pystr \<times> pystr \<times> bool \<times> rat option) list" where
  "list_users m = map (\<lambda>(_, u). (us_name u, role_value (us_role u), us_locked u, us_last_login u)) (au_users m)"

section \<open>Locking\<close>

definition auth_ok :: "auth \<Rightarrow> bool" where
  "auth_ok m \<longleftrightarrow> list_all (\<lambda>(name, u). us_name u = name \<and> us_attempts u \<le> MAX_LOGIN_ATTEMPTS \<and>
     (us_locked u \<longleftrightarrow> us_attempts u = MAX_LOGIN_ATTEMPTS)) (au_users m)"

definition attempt_ok :: "user \<Rightarrow> bool" where
  "attempt_ok u \<longleftrightarrow> us_attempts u \<le> MAX_LOGIN_ATTEMPTS \<and> (us_locked u \<longleftrightarrow> us_attempts u = MAX_LOGIN_ATTEMPTS)"

lemma auth_ok_alt: "auth_ok m \<longleftrightarrow> (\<forall>(name, u)\<in>set (au_users m). us_name u = name \<and> attempt_ok u)"
  by (auto simp: auth_ok_def attempt_ok_def list_all_iff)

lemma users_audit [simp]: "au_users (audit now ev name ok reason extra m) = au_users m"
  by (simp add: audit_def)

lemma users_put [simp]: "au_users (put_user name u m) = dict_set name u (au_users m)"
  by (simp add: put_user_def)

lemma auth_ok_put: "auth_ok m \<Longrightarrow> us_name u = name \<Longrightarrow> attempt_ok u \<Longrightarrow> auth_ok (put_user name u m)"
proof -
  have "set (dict_set name u d) \<subseteq> insert (name, u) (set d)" for d by (induction d) auto
  then show "auth_ok m \<Longrightarrow> us_name u = name \<Longrightarrow> attempt_ok u \<Longrightarrow> auth_ok (put_user name u m)"
    unfolding auth_ok_alt users_put by blast
qed

lemma auth_ok_audit [simp]: "auth_ok (audit now ev name ok reason extra m) = auth_ok m"
  by (simp add: auth_ok_alt)

lemma auth_ok_get: "auth_ok m \<Longrightarrow> dict_get (au_users m) name = Some u \<Longrightarrow> us_name u = name \<and> attempt_ok u"
  unfolding auth_ok_alt by (auto dest!: map_of_SomeD)

lemma authenticate_ok: "auth_ok m \<Longrightarrow> auth_ok (fst (authenticate now rnd name pw m))"
  by (auto simp: authenticate_def login_failed_def attempt_ok_def Let_def split: option.split sum.split
      intro!: auth_ok_put dest: auth_ok_get)

lemma authenticate_user:
  "snd (authenticate now rnd name pw m) = Inr u \<Longrightarrow> dict_get (au_users (fst (authenticate now rnd name pw m))) name = Some u"
  by (auto simp: authenticate_def Let_def dict_simps bindE_def split: option.splits sum.splits if_splits)

text \<open>Every method keeps the link between the counter and the lock.\<close>

lemma create_user_ok: "auth_ok m \<Longrightarrow> auth_ok (fst (create_user now salt name pw r m))"
  by (auto simp: create_user_def Let_def attempt_ok_def MAX_LOGIN_ATTEMPTS_def split: sum.split intro!: auth_ok_put)

lemma change_password_ok:
  assumes "auth_ok m"
  shows "auth_ok (fst (change_password now rnd salt name old new m))"
proof -
  obtain m1 r where a: "authenticate now rnd name old m = (m1, r)" by fastforce
  have "auth_ok m1" using authenticate_ok [OF assms, of now rnd name old] a by simp
  moreover have "us_name u = name \<and> attempt_ok u" if "r = Inr u" for u
    using that authenticate_user [of now rnd name old m u] a auth_ok_get [OF \<open>auth_ok m1\<close>] by simp
  ultimately show ?thesis
    by (auto simp: change_password_def a attempt_ok_def split: sum.split intro!: auth_ok_put)
qed

lemma set_role_ok: "auth_ok m \<Longrightarrow> auth_ok (fst (set_role now admin target r m))"
  by (auto simp: set_role_def attempt_ok_def split: option.split intro!: auth_ok_put dest: auth_ok_get)

lemma unlock_user_ok: "auth_ok m \<Longrightarrow> auth_ok (fst (unlock_user now admin target m))"
  by (auto simp: unlock_user_def attempt_ok_def MAX_LOGIN_ATTEMPTS_def split: option.split intro!: auth_ok_put dest: auth_ok_get)

lemma check_permission_ok: "auth_ok m \<Longrightarrow> auth_ok (fst (check_permission now u p res m))"
  by (simp add: check_permission_def Let_def)

text \<open>A locked account: nobody logs in, it grants nothing, and a login attempt changes no account.\<close>

lemma locked_rejects:
  assumes "dict_get (au_users m) name = Some u" "us_locked u"
  shows "snd (authenticate now rnd name pw m) = Inl AuthErr" "au_users (fst (authenticate now rnd name pw m)) = au_users m"
    "\<not> has_permission p u"
  using assms by (simp_all add: authenticate_def has_permission_def)

definition login :: "rat \<times> (bytes \<times> bytes) \<times> pystr \<Rightarrow> pystr \<Rightarrow> auth \<Rightarrow> auth" where
  "login a name m = (case a of (now, rnd, pw) \<Rightarrow> fst (authenticate now rnd name pw m))"

lemma failed_login:
  assumes "dict_get (au_users m) name = Some u" "attempt_ok u" "verify_password (snd (snd a)) (us_salt u) (us_hash u) = Inr False"
  shows "\<exists>u'. dict_get (au_users (login a name m)) name = Some u' \<and> attempt_ok u' \<and> us_salt u' = us_salt u \<and> us_hash u' = us_hash u \<and>
    us_attempts u' = min MAX_LOGIN_ATTEMPTS (us_attempts u + 1)"
  using assms by (cases a) (auto simp: login_def authenticate_def login_failed_def Let_def dict_simps attempt_ok_def)

lemma failed_logins:
  assumes "dict_get (au_users m) name = Some u" "attempt_ok u" "list_all (\<lambda>a. verify_password (snd (snd a)) (us_salt u) (us_hash u) = Inr False) as"
  shows "\<exists>u'. dict_get (au_users (fold (\<lambda>a. login a name) as m)) name = Some u' \<and> attempt_ok u' \<and>
    us_attempts u' = min MAX_LOGIN_ATTEMPTS (us_attempts u + length as)"
  using assms
proof (induction as arbitrary: m u)
  case Nil
  then show ?case by (auto simp: attempt_ok_def)
next
  case (Cons a as)
  obtain u' where u': "dict_get (au_users (login a name m)) name = Some u'" "attempt_ok u'" "us_salt u' = us_salt u"
      "us_hash u' = us_hash u" "us_attempts u' = min MAX_LOGIN_ATTEMPTS (us_attempts u + 1)"
    using failed_login [OF Cons(2,3), of a] Cons(4) by auto
  from Cons(1) [OF u'(1,2)] Cons(4) u'(3-5) show ?case by (auto simp: min_def split: if_splits)
qed

text \<open>
  (C21) Lockout: once the failed logins of a user add up to \<open>MAX_LOGIN_ATTEMPTS\<close>, without a success in between,
  the account is locked: it has no permission, every further login is refused, also with the right password,
  and leaves the accounts as they are.
\<close>

theorem lockout:
  assumes "auth_ok m" "dict_get (au_users m) name = Some u"
    and "list_all (\<lambda>a. verify_password (snd (snd a)) (us_salt u) (us_hash u) = Inr False) as"
    and "MAX_LOGIN_ATTEMPTS \<le> us_attempts u + length as"
  defines "m' \<equiv> fold (\<lambda>a. login a name) as m"
  shows "\<exists>u'. dict_get (au_users m') name = Some u' \<and> us_locked u' \<and> \<not> has_permission p u' \<and>
    snd (authenticate now rnd name pw m') = Inl AuthErr \<and> au_users (fst (authenticate now rnd name pw m')) = au_users m'"
proof -
  obtain u' where u': "dict_get (au_users m') name = Some u'" "attempt_ok u'" "us_attempts u' = min MAX_LOGIN_ATTEMPTS (us_attempts u + length as)"
    using failed_logins [OF assms(2) _ assms(3)] auth_ok_get [OF assms(1,2)] unfolding m'_def by blast
  then have "us_locked u'" using assms(4) by (simp add: attempt_ok_def)
  then show ?thesis using u'(1) locked_rejects [OF u'(1)] by blast
qed

text \<open>The password a user was created with is accepted.\<close>

lemma create_then_login:
  assumes "snd (create_user now salt name pw r m) = Inr u"
  shows "\<exists>u'. snd (authenticate now' rnd name pw (fst (create_user now salt name pw r m))) = Inr u' \<and> us_role u' = r"
  using assms
  by (auto simp: create_user_def authenticate_def verify_password_def hash_password_def Let_def dict_simps bindE_def
      split: if_splits sum.splits prod.splits)

definition bob :: user where
  "bob = \<lparr>us_name = str ''bob'', us_salt = [1, 2, 3], us_hash = [], us_role = READ_WRITE, us_created = 0, us_last_login = None,
     us_attempts = 0, us_locked = False\<rparr>"

definition guesses :: "(rat \<times> (bytes \<times> bytes) \<times> pystr) list" where
  "guesses = map (\<lambda>pw. (1, ([], []), str pw)) [''a'', ''b'', ''c'', ''d'', ''e'']"

theorem lockout_witness:
  "\<exists>m u'. auth_ok m \<and> dict_get (au_users m) (str ''bob'') = Some bob \<and>
   list_all (\<lambda>a. verify_password (snd (snd a)) (us_salt bob) (us_hash bob) = Inr False) guesses \<and>
   MAX_LOGIN_ATTEMPTS \<le> us_attempts bob + length guesses \<and>
   dict_get (au_users (fold (\<lambda>a. login a (str ''bob'')) guesses m)) (str ''bob'') = Some u' \<and> us_locked u'"
proof -
  define m where "m = \<lparr>au_users = [(str ''bob'', bob)], au_audit = []\<rparr>"
  have 1: "auth_ok m" "dict_get (au_users m) (str ''bob'') = Some bob"
    by (simp_all add: m_def auth_ok_def bob_def MAX_LOGIN_ATTEMPTS_def)
  have "pbkdf2_sha256 pw salt n \<noteq> []" for pw salt n
    using length_pbkdf2 [of pw salt n] by (metis length_0_conv zero_neq_numeral)
  then have 2: "list_all (\<lambda>a. verify_password (snd (snd a)) (us_salt bob) (us_hash bob) = Inr False) guesses"
    by (simp add: guesses_def bob_def verify_password_def hash_password_def utf8_encode_def is_scalar_def str_def)
  have 3: "MAX_LOGIN_ATTEMPTS \<le> us_attempts bob + length guesses" by (simp add: guesses_def MAX_LOGIN_ATTEMPTS_def)
  from lockout [OF 1 2 3, of P_SELECT 2 "([], [])" "str ''f''"] 1 2 3 show ?thesis by blast
qed

end
