(* ===== verification/Conn_Pool.thy ===== *)
theory Conn_Pool
  imports Complex_Main Py_Base
begin

text \<open>
  The connection pool and the rate limiter of \<open>auth_pool.py\<close>. Callers hold connections by their id; clock
  readings are rational arguments, and the outcome of the connect callback is an argument of the calls that
  make it. The wait in \<open>acquire\<close> is a sequence of turns, each under the lock of the pool.
\<close>

section \<open>Connections\<close>

datatype conn_state = IDLE | IN_USE | CLOSED

record conn =
  co_id :: nat
  co_state :: conn_state
  co_created :: rat
  co_last_used :: rat
  co_uses :: nat
  co_owner :: "pystr option"

definition is_expired :: "rat \<Rightarrow> rat \<Rightarrow> conn \<Rightarrow> bool" where
  "is_expired now max_lifetime c \<longleftrightarrow> now - co_created c > max_lifetime"

definition is_idle_too_long :: "rat \<Rightarrow> rat \<Rightarrow> conn \<Rightarrow> bool" where
  "is_idle_too_long now max_idle c \<longleftrightarrow> now - co_last_used c > max_idle"

record pool =
  po_min :: nat
  po_max :: nat
  po_lifetime :: rat
  po_idle_time :: rat
  po_conns :: "conn list"
  po_next :: nat
  po_acquired :: nat
  po_released :: nat
  po_created :: nat
  po_destroyed :: nat
  po_timeouts :: nat

text \<open>The outcome \<open>cn\<close> of the connect callback; the id is spent even when it raises.\<close>

definition create_connection :: "rat \<Rightarrow> unit result \<Rightarrow> pool \<Rightarrow> pool \<times> conn result" where
  "create_connection now cn p =
     (let c = \<lparr>co_id = po_next p, co_state = IDLE, co_created = now, co_last_used = now, co_uses = 0, co_owner = None\<rparr>;
          p1 = p\<lparr>po_next := po_next p + 1\<rparr> in
      case cn of
        Inl e \<Rightarrow> (p1, Inl e)
      | Inr _ \<Rightarrow> (p1\<lparr>po_conns := po_conns p @ [c], po_created := po_created p + 1\<rparr>, Inr c))"

fun prewarm :: "rat \<Rightarrow> unit result list \<Rightarrow> pool \<Rightarrow> pool \<times> unit result" where
  "prewarm now [] p = (p, Inr ())"
| "prewarm now (cn # cns) p =
     (case create_connection now cn p of
        (p', Inl e) \<Rightarrow> (p', Inl e)
      | (p', Inr _) \<Rightarrow> prewarm now cns p')"

text \<open>\<open>cns\<close>: the outcomes of the \<open>min_size\<close> callbacks.\<close>

definition pool_new :: "nat \<Rightarrow> rat \<Rightarrow> rat \<Rightarrow> rat \<Rightarrow> unit result list \<Rightarrow> pool \<times> unit result" where
  "pool_new max_size lifetime idle_time now cns =
     prewarm now cns
       \<lparr>po_min = length cns, po_max = max_size, po_lifetime = lifetime, po_idle_time = idle_time, po_conns = [], po_next = 1,
        po_acquired = 0, po_released = 0, po_created = 0, po_destroyed = 0, po_timeouts = 0\<rparr>"

definition check_out :: "rat \<Rightarrow> pystr \<Rightarrow> nat \<Rightarrow> pool \<Rightarrow> pool" where
  "check_out now owner cid p =
     p\<lparr>po_conns := map (\<lambda>c. if co_id c = cid
                            then c\<lparr>co_state := IN_USE, co_owner := Some owner, co_uses := co_uses c + 1, co_last_used := now\<rparr>
                            else c) (po_conns p),
       po_acquired := po_acquired p + 1\<rparr>"

definition remove_conn :: "nat \<Rightarrow> pool \<Rightarrow> pool" where
  "remove_conn cid p =
     p\<lparr>po_conns := filter (\<lambda>c. co_id c \<noteq> cid) (po_conns p), po_destroyed := po_destroyed p + 1\<rparr>"

definition create_out :: "rat \<Rightarrow> unit result \<Rightarrow> pystr \<Rightarrow> pool \<Rightarrow> pool \<times> nat option result" where
  "create_out now cn owner p =
     (case create_connection now cn p of
        (p', Inl e) \<Rightarrow> (p', Inl e)
      | (p', Inr c) \<Rightarrow> (check_out now owner (co_id c) p', Inr (Some (co_id c))))"

text \<open>One turn of the loop of \<open>acquire\<close>: a connection, or \<open>None\<close> to wait.\<close>

definition acquire_turn :: "rat \<Rightarrow> unit result \<Rightarrow> pystr \<Rightarrow> pool \<Rightarrow> pool \<times> nat option result" where
  "acquire_turn now cn owner p =
     (case find (\<lambda>c. co_state c = IDLE) (po_conns p) of
        Some c \<Rightarrow>
          if is_expired now (po_lifetime p) c then create_out now cn owner (remove_conn (co_id c) p)
          else (check_out now owner (co_id c) p, Inr (Some (co_id c)))
      | None \<Rightarrow>
          if length (po_conns p) < po_max p then create_out now cn owner p else (p, Inr None))"


text \<open>A connection that is no longer in the list is closed, so releasing it does nothing.\<close>

definition pool_release :: "rat \<Rightarrow> nat \<Rightarrow> pool \<Rightarrow> pool" where
  "pool_release now cid p =
     (if list_ex (\<lambda>c. co_id c = cid \<and> co_state c = IN_USE) (po_conns p)
      then p\<lparr>po_conns := map (\<lambda>c. if co_id c = cid then c\<lparr>co_state := IDLE, co_owner := None, co_last_used := now\<rparr> else c) (po_conns p),
             po_released := po_released p + 1\<rparr>
      else p)"


text \<open>\<open>idle_conns[:excess]\<close>: a negative excess counts from the end.\<close>

definition excess_conns :: "int \<Rightarrow> conn list \<Rightarrow> conn list" where
  "excess_conns excess idle =
     (if excess < 0 then take (nat (int (length idle) + excess)) idle else take (nat excess) idle)"

definition maintenance :: "rat \<Rightarrow> pool \<Rightarrow> pool" where
  "maintenance now p =
     (let idle = filter (\<lambda>c. co_state c = IDLE) (po_conns p);
          excess = int (length idle) - int (po_min p)
      in fold (\<lambda>c p. if is_idle_too_long now (po_idle_time p) c then remove_conn (co_id c) p else p) (excess_conns excess idle) p)"

record pool_stats =
  ps_total :: nat
  ps_idle :: nat
  ps_in_use :: nat
  ps_min :: nat
  ps_max :: nat
  ps_acquired :: nat
  ps_released :: nat
  ps_created :: nat
  ps_destroyed :: nat
  ps_timeouts :: nat

definition pool_stats_of :: "pool \<Rightarrow> pool_stats" where
  "pool_stats_of p =
     \<lparr>ps_total = length (po_conns p), ps_idle = length (filter (\<lambda>c. co_state c = IDLE) (po_conns p)),
      ps_in_use = length (filter (\<lambda>c. co_state c = IN_USE) (po_conns p)), ps_min = po_min p, ps_max = po_max p,
      ps_acquired = po_acquired p, ps_released = po_released p, ps_created = po_created p,
      ps_destroyed = po_destroyed p, ps_timeouts = po_timeouts p\<rparr>"

text \<open>The context manager: what \<open>__exit__\<close> does with the connection \<open>__enter__\<close> got.\<close>

definition context_exit :: "rat \<Rightarrow> nat option \<Rightarrow> pool \<Rightarrow> pool" where
  "context_exit now held p = (case held of None \<Rightarrow> p | Some cid \<Rightarrow> pool_release now cid p)"

section \<open>The rate limiter\<close>

record limiter =
  rl_rate :: rat
  rl_capacity :: rat
  rl_tokens :: rat
  rl_last_refill :: rat
  rl_allowed :: nat
  rl_denied :: nat


definition refill :: "rat \<Rightarrow> limiter \<Rightarrow> limiter" where
  "refill now l =
     l\<lparr>rl_tokens := min (rl_capacity l) (rl_tokens l + (now - rl_last_refill l) * rl_rate l), rl_last_refill := now\<rparr>"


definition tokens_available :: "rat \<Rightarrow> limiter \<Rightarrow> limiter \<times> rat" where
  "tokens_available now l = (refill now l, rl_tokens (refill now l))"

section \<open>The pool\<close>

definition pool_ok :: "pool \<Rightarrow> bool" where
  "pool_ok p \<longleftrightarrow> distinct (map co_id (po_conns p)) \<and> list_all (\<lambda>c. co_id c < po_next p \<and> co_state c \<noteq> CLOSED) (po_conns p) \<and>
     length (po_conns p) \<le> max (po_min p) (po_max p) \<and> po_created p = po_destroyed p + length (po_conns p)"

definition held :: "pool \<Rightarrow> nat \<Rightarrow> bool" where
  "held p i \<longleftrightarrow> list_ex (\<lambda>c. co_id c = i \<and> co_state c = IN_USE) (po_conns p)"






lemma conns_simps [simp]: "po_min (remove_conn i p) = po_min p" "po_max (remove_conn i p) = po_max p"
  "po_next (remove_conn i p) = po_next p"
  by (simp_all add: remove_conn_def)















text \<open>A released connection is free again and the others stay with their owners.\<close>

lemma release_held: "pool_ok p \<Longrightarrow> held (pool_release now cid p) i \<longleftrightarrow> i \<noteq> cid \<and> held p i"
  by (auto simp: held_def pool_release_def list_ex_iff split: if_splits)



text \<open>
  With fewer idle connections than \<open>min_size\<close> the slice \<open>idle_conns[:excess]\<close> counts from the end: with five
  connections and one of them in use, three of the four idle ones are closed.
\<close>

definition busy_pool :: pool where
  "busy_pool = fst (acquire_turn 1 (Inr ()) [] (fst (pool_new 10 1000 10 0 (replicate 5 (Inr ())))))"

lemma maintenance_below_min:
  "po_min busy_pool = 5 \<and> length (po_conns busy_pool) = 5 \<and> length (po_conns (maintenance 100 busy_pool)) = 2"
  by code_simp

section \<open>The rate limiter\<close>









end
